(* ===== verification/Prelude.thy ===== *)
theory Prelude
  imports Main "HOL-Library.Word"
begin

unbundle bit_operations_syntax

text \<open>
  What every component of the development shares.

  \<^item> Names for the machine integers of the Rust sources.  A byte string
    (\<^verbatim>\<open>Vec<u8>\<close>, \<^verbatim>\<open>&[u8]\<close>, \<^verbatim>\<open>Arc<[u8]>\<close>) is a list of bytes; a \<^verbatim>\<open>usize\<close> is a
    \<^typ>\<open>nat\<close>, with \<open>usize_max\<close> where the code asks for the bound; an \<^verbatim>\<open>i64\<close> is the
    64-bit word that holds it, read with \<^const>\<open>sint\<close> where the sign matters.
  \<^item> The integer operations of the standard library the sources call
    (\<^verbatim>\<open>checked_add\<close>, \<^verbatim>\<open>saturating_sub\<close>, \<^verbatim>\<open>try_from(..).unwrap_or(MAX)\<close>).
  \<^item> \<^verbatim>\<open>Result\<close> is a sum with the error on the left; a value of type \<^typ>\<open>'a option\<close>
    in result position is a computation that may panic, \<^const>\<open>None\<close> being the panic.
  \<^item> Time: \<^verbatim>\<open>Duration\<close> and \<^verbatim>\<open>Instant\<close> count nanoseconds as \<^typ>\<open>nat\<close>.
  \<^item> The theorem collections of the development and the list and word lemmas the
    component theories use.
\<close>

section \<open>Machine integers and bytes\<close>

type_synonym u8 = "8 word"
type_synonym u16 = "16 word"
type_synonym u32 = "32 word"
type_synonym u64 = "64 word"
type_synonym i64 = "64 word"
type_synonym bytes = "u8 list"
type_synonym duration = nat
type_synonym instant = nat

named_theorems codec_append \<open>an encoder appends its output to the writer\<close>
named_theorems codec_reads \<open>a decoder reads back what its encoder wrote\<close>
named_theorems reader_safe \<open>a decoder keeps the cursor inside its buffer\<close>
named_theorems frame_cond \<open>what an operation leaves unchanged\<close>

definition usize_max :: nat where
  "usize_max = 2 ^ 64 - 1"

text \<open>\<^verbatim>\<open>usize::checked_add\<close>: no value when the sum does not fit.\<close>

definition checked_add :: "nat \<Rightarrow> nat \<Rightarrow> nat option" where
  "checked_add a b = (if a + b \<le> usize_max then Some (a + b) else None)"

definition saturating_mul :: "nat \<Rightarrow> nat \<Rightarrow> nat" where
  "saturating_mul a b = min (a * b) usize_max"

text \<open>\<^verbatim>\<open>u32::saturating_sub\<close>.\<close>

definition word_saturating_sub :: "'a::len word \<Rightarrow> 'a word \<Rightarrow> 'a word" where
  "word_saturating_sub a b = (if a < b then 0 else a - b)"

text \<open>\<^verbatim>\<open>u16::try_from(n).unwrap_or(u16::MAX)\<close> and the same at 32 bits.\<close>

definition u16_or_max :: "nat \<Rightarrow> u16" where
  "u16_or_max n = (if n < 2 ^ 16 then of_nat n else - 1)"

definition u32_or_max :: "nat \<Rightarrow> u32" where
  "u32_or_max n = (if n < 2 ^ 32 then of_nat n else - 1)"

text \<open>\<^verbatim>\<open>n.div_ceil(m)\<close>.\<close>

definition div_ceil :: "nat \<Rightarrow> nat \<Rightarrow> nat" where
  "div_ceil n m = (n + m - 1) div m"

lemma unat_of_nat_small:
  "n < 2 ^ LENGTH('a::len) \<Longrightarrow> unat (of_nat n :: 'a word) = n"
  by (simp add: unsigned_of_nat take_bit_nat_eq_self_iff)

lemma unat_lt_32: "unat (w :: u32) < 2 ^ 32"
  using unsigned_less[where ?'a = nat, of w] by simp

lemma unat_word_saturating_sub:
  "unat (word_saturating_sub a b) = unat a - unat b"
  by (auto simp: word_saturating_sub_def unat_sub word_less_nat_alt word_le_nat_alt)

lemma unat_u16_or_max:
  "n < 2 ^ 16 \<Longrightarrow> unat (u16_or_max n) = n"
  by (simp add: u16_or_max_def unsigned_of_nat take_bit_nat_eq_self_iff)

lemma unat_u32_or_max:
  "n < 2 ^ 32 \<Longrightarrow> unat (u32_or_max n) = n"
  by (simp add: u32_or_max_def unsigned_of_nat take_bit_nat_eq_self_iff)

section \<open>Results\<close>

text \<open>The \<^verbatim>\<open>?\<close> operator on a plain \<^verbatim>\<open>Result\<close>, and \<^verbatim>\<open>map_err\<close>.\<close>

definition and_then :: "'e + 'a \<Rightarrow> ('a \<Rightarrow> 'e + 'b) \<Rightarrow> 'e + 'b" where
  "and_then m f = (case m of Inl e \<Rightarrow> Inl e | Inr a \<Rightarrow> f a)"

definition map_err :: "('e \<Rightarrow> 'f) \<Rightarrow> 'e + 'a \<Rightarrow> 'f + 'a" where
  "map_err h m = (case m of Inl e \<Rightarrow> Inl (h e) | Inr a \<Rightarrow> Inr a)"

lemma and_then_simps [simp]:
  "and_then (Inl e) f = Inl e" "and_then (Inr a) f = f a"
  by (simp_all add: and_then_def)

lemma map_err_simps [simp]:
  "map_err h (Inl e) = Inl (h e)" "map_err h (Inr a) = Inr a"
  by (simp_all add: map_err_def)

section \<open>Big-endian bytes\<close>

text \<open>
  \<^verbatim>\<open>to_be_bytes\<close> and \<^verbatim>\<open>from_be_bytes\<close>, for a value of \<open>n\<close> bytes.
\<close>

fun be_bytes :: "nat \<Rightarrow> 'a::len word \<Rightarrow> bytes" where
  "be_bytes 0 w = []"
| "be_bytes (Suc n) w = ucast (drop_bit (8 * n) w) # be_bytes n w"

definition from_be :: "bytes \<Rightarrow> 'a::len word" where
  "from_be bs = foldl (\<lambda>acc b. push_bit 8 acc OR ucast b) 0 bs"

lemma length_be_bytes [simp]: "length (be_bytes n w) = n"
  by (induction n) auto

lemma be_bytes_2: "be_bytes 2 w = [ucast (drop_bit 8 w), ucast w]"
  by (simp add: numeral_2_eq_2)

lemma split_take_bit:
  fixes w :: "'a::len word"
  shows "take_bit (8 * Suc n) w
    = push_bit (8 * n) (ucast (ucast (drop_bit (8 * n) w) :: u8)) OR take_bit (8 * n) w"
proof (rule bit_word_eqI)
  fix i assume i: "i < LENGTH('a)"
  show "bit (take_bit (8 * Suc n) w) i =
    bit (push_bit (8 * n) (ucast (ucast (drop_bit (8 * n) w) :: u8)) OR take_bit (8 * n) w) i"
    using i by (auto simp: bit_simps)
qed

lemma foldl_be_bytes:
  fixes w :: "'a::len word"
  shows "foldl (\<lambda>acc b. push_bit 8 acc OR ucast b) a (be_bytes n w)
    = push_bit (8 * n) a OR take_bit (8 * n) w"
proof (induction n arbitrary: a)
  case 0
  then show ?case by simp
next
  case (Suc n)
  show ?case
    unfolding split_take_bit
    by (simp add: Suc push_bit_or add.commute or.assoc)
qed

lemma from_be_be_bytes: "from_be (be_bytes n w) = take_bit (8 * n) w"
  unfolding from_be_def foldl_be_bytes by simp

lemma from_be_be_bytes_full:
  fixes w :: "'a::len word"
  shows "LENGTH('a) \<le> 8 * n \<Longrightarrow> from_be (be_bytes n w) = w"
  by (simp add: from_be_be_bytes take_bit_word_eq_self)

section \<open>Lists\<close>

lemma take_append_exact: "length xs = n \<Longrightarrow> take n (xs @ ys) = xs"
  by simp

lemma slice_middle:
  "take (length bs) (drop (length pre) (pre @ bs @ post)) = bs"
  by simp

lemma sum_list_map_zero_iff:
  fixes f :: "'a \<Rightarrow> nat"
  shows "sum_list (map f xs) = 0 \<longleftrightarrow> (\<forall>x \<in> set xs. f x = 0)"
  by (induction xs) auto

lemma strict_sorted_remdups_adj:
  fixes xs :: "'a::linorder list"
  shows "sorted xs \<Longrightarrow> sorted_wrt (<) (remdups_adj xs)"
proof (induction xs rule: remdups_adj.induct)
  case (3 x y xs)
  show ?case
  proof (cases "x = y")
    case False
    then have "\<forall>z \<in> set (y # xs). x < z" using 3(3) by fastforce
    then show ?thesis using 3 False by simp
  qed (use 3 in simp)
qed simp_all

end
