(* ===== verification/Wire.thy ===== *)
theory Wire
  imports Prelude
begin

text \<open>
  \<^verbatim>\<open>bedrock-raknet/src/wire.rs\<close>: the cursor every RakNet decoder reads through and the
  buffer every encoder appends to.

  A decoder is a state transformer on the reader that may fail: type \<open>('e, 'a) rd\<close>.  A
  failed read hands the reader back too, as \<^verbatim>\<open>&mut self\<close> does, so that what a failure
  leaves behind can be stated.  An encoder maps the bytes written so far to the bytes
  written after it.

  The locale \<open>wire_codec\<close> is the interface between the two: the encoder only appends, and
  the decoder, placed in front of what the encoder wrote, yields the value and stops right
  behind it.  Every encoder/decoder pair of the crate is an interpretation.
\<close>

section \<open>The reader\<close>

record decode_error =
  needed :: nat
  available :: nat

record reader =
  buf :: bytes
  pos :: nat

type_synonym ('e, 'a) rd = "reader \<Rightarrow> ('e + 'a) \<times> reader"

definition new_reader :: "bytes \<Rightarrow> reader" where
  "new_reader b = \<lparr>buf = b, pos = 0\<rparr>"

definition remaining :: "reader \<Rightarrow> nat" where
  "remaining r = length (buf r) - pos r"

text \<open>Sequencing with \<^verbatim>\<open>?\<close>: the first error ends the decoder.\<close>

definition rd_return :: "'a \<Rightarrow> ('e, 'a) rd" where
  "rd_return a r = (Inr a, r)"

definition rd_fail :: "'e \<Rightarrow> ('e, 'a) rd" where
  "rd_fail e r = (Inl e, r)"

definition rd_bind :: "('e, 'a) rd \<Rightarrow> ('a \<Rightarrow> ('e, 'b) rd) \<Rightarrow> ('e, 'b) rd" where
  "rd_bind m f r = (case m r of (Inl e, r') \<Rightarrow> (Inl e, r') | (Inr a, r') \<Rightarrow> f a r')"

text \<open>\<^verbatim>\<open>?\<close> across error types goes through \<^verbatim>\<open>From\<close>.\<close>

definition rd_err :: "('e \<Rightarrow> 'f) \<Rightarrow> ('e, 'a) rd \<Rightarrow> ('f, 'a) rd" where
  "rd_err h m r = (case m r of (x, r') \<Rightarrow> (map_err h x, r'))"

definition read_bytes :: "nat \<Rightarrow> (decode_error, bytes) rd" where
  "read_bytes n r =
     (let short = \<lparr>needed = n, available = remaining r\<rparr> in
      case checked_add (pos r) n of
        None \<Rightarrow> (Inl short, r)
      | Some e \<Rightarrow>
          if e \<le> length (buf r)
          then (Inr (take n (drop (pos r) (buf r))), r\<lparr>pos := e\<rparr>)
          else (Inl short, r))"

text \<open>
  \<^verbatim>\<open>array::<N>\<close> copies the borrowed slice into an array of the same length, so as a list of
  bytes it is the slice.
\<close>

definition read_array :: "nat \<Rightarrow> (decode_error, bytes) rd" where
  "read_array n = read_bytes n"

definition read_u8 :: "(decode_error, u8) rd" where
  "read_u8 = rd_bind (read_array 1) (\<lambda>b. rd_return (b ! 0))"

definition read_u16 :: "(decode_error, u16) rd" where
  "read_u16 = rd_bind (read_array 2) (\<lambda>b. rd_return (from_be b))"

definition read_u32 :: "(decode_error, u32) rd" where
  "read_u32 = rd_bind (read_array 4) (\<lambda>b. rd_return (from_be b))"

definition read_i64 :: "(decode_error, i64) rd" where
  "read_i64 = rd_bind (read_array 8) (\<lambda>b. rd_return (from_be b))"

definition read_u24 :: "(decode_error, u32) rd" where
  "read_u24 = rd_bind (read_array 3) (\<lambda>b. rd_return
     (ucast (b ! 0) OR push_bit 8 (ucast (b ! 1)) OR push_bit 16 (ucast (b ! 2))))"

section \<open>The writer\<close>

type_synonym writer = bytes

definition new_writer :: writer where
  "new_writer = []"

definition write_u8 :: "u8 \<Rightarrow> writer \<Rightarrow> writer" where
  "write_u8 v w = w @ [v]"

definition write_u32 :: "u32 \<Rightarrow> writer \<Rightarrow> writer" where
  "write_u32 v w = w @ be_bytes 4 v"

definition write_i64 :: "i64 \<Rightarrow> writer \<Rightarrow> writer" where
  "write_i64 v w = w @ be_bytes 8 v"

definition write_u16 :: "u16 \<Rightarrow> writer \<Rightarrow> writer" where
  "write_u16 v w = w @ be_bytes 2 v"

definition write_u24 :: "u32 \<Rightarrow> writer \<Rightarrow> writer" where
  "write_u24 v w = w @ [ucast v, ucast (drop_bit 8 v), ucast (drop_bit 16 v)]"

definition write_bytes :: "bytes \<Rightarrow> writer \<Rightarrow> writer" where
  "write_bytes v w = w @ v"

definition write_zeros :: "nat \<Rightarrow> writer \<Rightarrow> writer" where
  "write_zeros n w = w @ replicate n 0"

section \<open>Decoders stay inside their buffer\<close>

text \<open>
  A decoder is safe when, from any cursor inside the buffer, it leaves the buffer alone and
  the cursor inside it, never moving back.
\<close>

definition safe :: "('e, 'a) rd \<Rightarrow> bool" where
  "safe m \<longleftrightarrow> (\<forall>r. pos r \<le> length (buf r) \<longrightarrow>
     buf (snd (m r)) = buf r \<and> pos r \<le> pos (snd (m r))
     \<and> pos (snd (m r)) \<le> length (buf r))"

lemma safe_return [reader_safe, intro, simp]: "safe (rd_return a)"
  by (simp add: safe_def rd_return_def)

lemma safe_fail [reader_safe, intro, simp]: "safe (rd_fail e)"
  by (simp add: safe_def rd_fail_def)

lemma safe_bind [reader_safe, intro]:
  assumes "safe m" "\<And>a. safe (f a)"
  shows "safe (rd_bind m f)"
  unfolding safe_def
proof (intro allI impI)
  fix r :: reader assume r: "pos r \<le> length (buf r)"
  obtain x r' where m: "m r = (x, r')" by fastforce
  from assms(1) r m have r': "buf r' = buf r" "pos r \<le> pos r'" "pos r' \<le> length (buf r)"
    unfolding safe_def by (metis snd_conv)+
  show "buf (snd (rd_bind m f r)) = buf r \<and> pos r \<le> pos (snd (rd_bind m f r))
    \<and> pos (snd (rd_bind m f r)) \<le> length (buf r)"
  proof (cases x)
    case (Inl e)
    with m r' show ?thesis by (simp add: rd_bind_def)
  next
    case (Inr a)
    have "buf (snd (f a r')) = buf r' \<and> pos r' \<le> pos (snd (f a r'))
      \<and> pos (snd (f a r')) \<le> length (buf r')"
      using assms(2)[of a, unfolded safe_def, rule_format, of r'] r' by simp
    with m Inr r' show ?thesis by (simp add: rd_bind_def)
  qed
qed

lemma safe_err [reader_safe, intro]: "safe m \<Longrightarrow> safe (rd_err h m)"
  by (simp add: safe_def rd_err_def split_beta)

lemma safe_read_bytes [reader_safe, intro, simp]: "safe (read_bytes n)"
  by (auto simp: safe_def read_bytes_def checked_add_def Let_def)

lemma safe_primitives [reader_safe, intro, simp]:
  "safe (read_array n)" "safe read_u8" "safe read_u16" "safe read_u32" "safe read_i64"
  "safe read_u24"
  unfolding read_array_def read_u8_def read_u16_def read_u32_def read_i64_def read_u24_def
  by (intro safe_bind safe_read_bytes safe_return)+

lemma safe_if [reader_safe, intro]:
  "(c \<Longrightarrow> safe m) \<Longrightarrow> (\<not> c \<Longrightarrow> safe n) \<Longrightarrow> safe (if c then m else n)"
  by simp

lemma safeD:
  assumes "safe m" "m r = (x, r')" "pos r \<le> length (buf r)"
  shows "buf r' = buf r" "pos r \<le> pos r'" "pos r' \<le> length (buf r)"
  using assms unfolding safe_def by (metis snd_conv)+

section \<open>24-bit values\<close>

definition is_u24 :: "u32 \<Rightarrow> bool" where
  "is_u24 v \<longleftrightarrow> unat v < 2 ^ 24"

lemma take_bit_is_u24: "is_u24 v \<Longrightarrow> take_bit 24 v = v"
  by (metis is_u24_def take_bit_nat_eq_self_iff unsigned_take_bit_eq word_unat_eq_iff)

lemma take_bit_u24: "is_u24 (take_bit 24 v)"
  using take_bit_nat_less_exp[of 24 "unat v"] by (simp add: is_u24_def unsigned_take_bit_eq)

section \<open>What a successful read did\<close>

text \<open>Inversion of a successful decoder, one equivalence per construct.\<close>

lemma rd_bind_Inr:
  "rd_bind m f r = (Inr b, r'') \<longleftrightarrow> (\<exists>a r'. m r = (Inr a, r') \<and> f a r' = (Inr b, r''))"
  by (auto simp: rd_bind_def split: prod.splits sum.splits)

lemma rd_err_Inr: "rd_err h m r = (Inr a, r') \<longleftrightarrow> m r = (Inr a, r')"
  by (auto simp: rd_err_def map_err_def split: prod.splits sum.splits)

lemma rd_return_Inr: "rd_return a r = (Inr b, r') \<longleftrightarrow> a = b \<and> r' = r"
  by (auto simp: rd_return_def)

lemma rd_fail_Inr: "rd_fail e r = (Inr b, r') \<longleftrightarrow> False"
  by (simp add: rd_fail_def)

lemma read_bytes_Inr:
  "read_bytes n r = (Inr bs, r') \<longleftrightarrow> pos r + n \<le> usize_max \<and> pos r + n \<le> length (buf r)
     \<and> bs = take n (drop (pos r) (buf r)) \<and> r' = r\<lparr>pos := pos r + n\<rparr>"
  by (auto simp: read_bytes_def checked_add_def Let_def)

definition advanced :: "nat \<Rightarrow> reader \<Rightarrow> reader \<Rightarrow> bool" where
  "advanced n r r' \<longleftrightarrow> r' = r\<lparr>pos := pos r + n\<rparr> \<and> pos r + n \<le> length (buf r)"

lemma read_prim_advanced:
  "read_u8 r = (Inr v8, r') \<Longrightarrow> advanced 1 r r'"
  "read_u16 r = (Inr v16, r') \<Longrightarrow> advanced 2 r r'"
  "read_u24 r = (Inr v32, r') \<Longrightarrow> advanced 3 r r'"
  "read_u32 r = (Inr v32, r') \<Longrightarrow> advanced 4 r r'"
  "read_i64 r = (Inr v64, r') \<Longrightarrow> advanced 8 r r'"
  "read_array n r = (Inr bs, r') \<Longrightarrow> advanced n r r' \<and> length bs = n"
  "read_bytes n r = (Inr bs, r') \<Longrightarrow> advanced n r r' \<and> length bs = n"
  by (auto simp: read_u8_def read_u16_def read_u24_def read_u32_def read_i64_def read_array_def
      rd_bind_Inr rd_return_Inr read_bytes_Inr advanced_def)

lemmas rd_Inr = rd_bind_Inr rd_err_Inr rd_return_Inr rd_fail_Inr

lemma read_u24_bound: "read_u24 r = (Inr v, r') \<Longrightarrow> is_u24 v"
proof -
  assume "read_u24 r = (Inr v, r')"
  then obtain b0 b1 b2 :: u8 where v: "v = ucast b0 OR push_bit 8 (ucast b1) OR push_bit 16 (ucast b2)"
    by (auto simp: read_u24_def rd_Inr)
  have "take_bit 24 v = v"
    unfolding v by (rule bit_word_eqI) (auto simp: bit_simps dest: bit_imp_le_length)
  then show ?thesis by (metis take_bit_u24)
qed

text \<open>
  \<open>eats m Q\<close>: whenever \<open>m\<close> succeeds it moved the cursor by some \<open>n\<close> and \<open>Q n\<close> holds of
  its value.  The rules follow the structure of a decoder.
\<close>

definition eats :: "('e, 'a) rd \<Rightarrow> (nat \<Rightarrow> 'a \<Rightarrow> bool) \<Rightarrow> bool" where
  "eats m Q \<longleftrightarrow> (\<forall>r a r'. pos r \<le> length (buf r) \<longrightarrow> m r = (Inr a, r')
     \<longrightarrow> (\<exists>n. advanced n r r' \<and> Q n a))"

lemma eatsD:
  "eats m Q \<Longrightarrow> m r = (Inr a, r') \<Longrightarrow> pos r \<le> length (buf r) \<Longrightarrow> \<exists>n. advanced n r r' \<and> Q n a"
  unfolding eats_def by blast

lemma eats_return: "Q 0 a \<Longrightarrow> eats (rd_return a) Q"
  by (auto simp: eats_def rd_return_def advanced_def intro!: exI[of _ 0])

lemma eats_fail: "eats (rd_fail e) Q"
  by (simp add: eats_def rd_fail_def)

lemma eats_err: "eats m Q \<Longrightarrow> eats (rd_err h m) Q"
  by (simp add: eats_def rd_err_Inr)

lemma eats_if: "(c \<Longrightarrow> eats m Q) \<Longrightarrow> (\<not> c \<Longrightarrow> eats n Q) \<Longrightarrow> eats (if c then m else n) Q"
  by simp

lemma eats_weaken: "eats m Q \<Longrightarrow> (\<And>n a. Q n a \<Longrightarrow> R n a) \<Longrightarrow> eats m R"
  unfolding eats_def by blast

lemma advanced_trans: "advanced n r r' \<Longrightarrow> advanced k r' r'' \<Longrightarrow> advanced (n + k) r r''"
  by (auto simp: advanced_def add.assoc)

lemma eats_bind:
  assumes "eats m Q" "\<And>n a. Q n a \<Longrightarrow> eats (f a) (\<lambda>k b. R (n + k) b)"
  shows "eats (rd_bind m f) R"
  unfolding eats_def rd_bind_Inr
proof (intro allI impI, elim exE conjE)
  fix r b r'' a r'
  assume r: "pos r \<le> length (buf r)" and m: "m r = (Inr a, r')" and f: "f a r' = (Inr b, r'')"
  from eatsD[OF assms(1) m r] obtain n where n: "advanced n r r'" "Q n a" by blast
  then have "pos r' \<le> length (buf r')" by (simp add: advanced_def)
  from eatsD[OF assms(2)[OF n(2)] f this] obtain k where k: "advanced k r' r''" "R (n + k) b"
    by blast
  show "\<exists>n. advanced n r r'' \<and> R n b"
    using advanced_trans[OF n(1) k(1)] k(2) by blast
qed

lemma eats_prims:
  "eats read_u8 (\<lambda>n v. n = 1)" "eats read_u16 (\<lambda>n v. n = 2)"
  "eats read_u24 (\<lambda>n v. n = 3 \<and> is_u24 v)" "eats read_u32 (\<lambda>n v. n = 4)"
  "eats read_i64 (\<lambda>n v. n = 8)" "eats (read_array k) (\<lambda>n v. n = k \<and> length v = k)"
  "eats (read_bytes k) (\<lambda>n v. n = k \<and> length v = k)"
  by (auto simp: eats_def dest: read_prim_advanced read_u24_bound)

section \<open>Decoders read back what was written\<close>

text \<open>
  \<open>reads m bs v\<close>: wherever the bytes \<open>bs\<close> stand in a buffer, the decoder placed in front of
  them yields \<open>v\<close> and stops right behind them.  The bound on the length is the bound every
  slice of a Rust program has.
\<close>

definition reads :: "('e, 'a) rd \<Rightarrow> bytes \<Rightarrow> 'a \<Rightarrow> bool" where
  "reads m bs v \<longleftrightarrow> (\<forall>pre post. length (pre @ bs @ post) \<le> usize_max \<longrightarrow>
     m \<lparr>buf = pre @ bs @ post, pos = length pre\<rparr>
       = (Inr v, \<lparr>buf = pre @ bs @ post, pos = length pre + length bs\<rparr>))"

lemma readsD:
  assumes "reads m bs v" "length (pre @ bs @ post) \<le> usize_max"
  shows "m \<lparr>buf = pre @ bs @ post, pos = length pre\<rparr>
    = (Inr v, \<lparr>buf = pre @ bs @ post, pos = length pre + length bs\<rparr>)"
  using assms unfolding reads_def by blast

lemma reads_return [codec_reads, intro, simp]: "reads (rd_return v) [] v"
  by (simp add: reads_def rd_return_def)

lemma reads_bind [codec_reads]:
  assumes "reads m bs v" "reads (f v) cs w"
  shows "reads (rd_bind m f) (bs @ cs) w"
  unfolding reads_def
proof (intro allI impI)
  fix pre post assume len: "length (pre @ (bs @ cs) @ post) \<le> usize_max"
  have "m \<lparr>buf = pre @ bs @ (cs @ post), pos = length pre\<rparr>
    = (Inr v, \<lparr>buf = pre @ bs @ (cs @ post), pos = length pre + length bs\<rparr>)"
    using readsD[OF assms(1), of pre "cs @ post"] len by simp
  moreover have "f v \<lparr>buf = (pre @ bs) @ cs @ post, pos = length (pre @ bs)\<rparr>
    = (Inr w, \<lparr>buf = (pre @ bs) @ cs @ post, pos = length (pre @ bs) + length cs\<rparr>)"
    using readsD[OF assms(2), of "pre @ bs" post] len by simp
  ultimately show "rd_bind m f \<lparr>buf = pre @ (bs @ cs) @ post, pos = length pre\<rparr>
    = (Inr w, \<lparr>buf = pre @ (bs @ cs) @ post, pos = length pre + length (bs @ cs)\<rparr>)"
    by (simp add: rd_bind_def add.assoc)
qed

lemma reads_err [codec_reads]: "reads m bs v \<Longrightarrow> reads (rd_err h m) bs v"
  by (auto simp: reads_def rd_err_def)

lemma reads_bindI:
  "reads m bs v \<Longrightarrow> reads (f v) cs w \<Longrightarrow> xs = bs @ cs \<Longrightarrow> reads (rd_bind m f) xs w"
  using reads_bind by metis

lemma reads_bind_nil:
  assumes "reads m bs v" "reads (f v) [] w"
  shows "reads (rd_bind m f) bs w"
  using reads_bind[of m bs v f "[]" w] assms by simp

lemma reads_bytes [codec_reads]: "length bs = n \<Longrightarrow> reads (read_bytes n) bs bs"
  by (auto simp: reads_def read_bytes_def checked_add_def Let_def)

lemma reads_array [codec_reads]: "length bs = n \<Longrightarrow> reads (read_array n) bs bs"
  by (simp add: read_array_def reads_bytes)

lemma reads_u8 [codec_reads]: "reads read_u8 [v] v"
  unfolding read_u8_def by (rule reads_bind_nil[OF reads_array]) auto

lemma reads_u16 [codec_reads]: "reads read_u16 (be_bytes 2 v) v"
  unfolding read_u16_def
  by (rule reads_bind_nil[OF reads_array]) (auto simp: from_be_be_bytes_full)

lemma reads_u32 [codec_reads]: "reads read_u32 (be_bytes 4 v) v"
  unfolding read_u32_def
  by (rule reads_bind_nil[OF reads_array]) (auto simp: from_be_be_bytes_full)

lemma reads_i64 [codec_reads]: "reads read_i64 (be_bytes 8 v) v"
  unfolding read_i64_def
  by (rule reads_bind_nil[OF reads_array]) (auto simp: from_be_be_bytes_full)

lemma u24_bytes_low_bits:
  fixes v :: u32
  shows "ucast (ucast v :: u8) OR push_bit 8 (ucast (ucast (drop_bit 8 v) :: u8))
    OR push_bit 16 (ucast (ucast (drop_bit 16 v) :: u8)) = take_bit 24 v"
proof (rule bit_word_eqI)
  fix i :: nat assume i: "i < LENGTH(32)"
  consider "i < 8" | "8 \<le> i" "i < 16" | "16 \<le> i" "i < 24" | "24 \<le> i" by linarith
  then show "bit (ucast (ucast v :: u8) OR push_bit 8 (ucast (ucast (drop_bit 8 v) :: u8))
    OR push_bit 16 (ucast (ucast (drop_bit 16 v) :: u8)) :: u32) i = bit (take_bit 24 v) i"
    using i by cases (auto simp: bit_simps)
qed

lemma reads_u24_take_bit:
  "reads read_u24 [ucast v, ucast (drop_bit 8 v), ucast (drop_bit 16 v)] (take_bit 24 v)"
  unfolding read_u24_def
  by (rule reads_bind_nil[OF reads_array]) (auto simp: u24_bytes_low_bits)

lemma reads_u24 [codec_reads]:
  "is_u24 v \<Longrightarrow> reads read_u24 [ucast v, ucast (drop_bit 8 v), ucast (drop_bit 16 v)] v"
  using reads_u24_take_bit[of v] by (simp add: take_bit_is_u24)

section \<open>The codec interface\<close>

locale wire_codec =
  fixes put :: "'a \<Rightarrow> writer \<Rightarrow> writer"
    and get :: "('e, 'a) rd"
    and ok :: "'a \<Rightarrow> bool"
  assumes put_append: "put v w = w @ put v []"
    and get_put: "ok v \<Longrightarrow> reads get (put v []) v"
    and get_safe: "safe get"
begin

lemma decode_buffer:
  assumes "ok v" "length (put v []) \<le> usize_max"
  shows "get (new_reader (put v []))
    = (Inr v, \<lparr>buf = put v [], pos = length (put v [])\<rparr>)"
  using readsD[OF get_put[OF assms(1)], of "[]" "[]"] assms(2) by (simp add: new_reader_def)

lemma decode_in_place:
  assumes "ok v" "length (w @ put v [] @ post) \<le> usize_max"
  shows "get \<lparr>buf = put v w @ post, pos = length w\<rparr>
    = (Inr v, \<lparr>buf = put v w @ post, pos = length (put v w)\<rparr>)"
  using readsD[OF get_put[OF assms(1)], of w post] assms(2) put_append[of v w] by simp

text \<open>No encoding is a prefix of another: what follows a value cannot change it.\<close>

lemma framing_unambiguous:
  assumes "ok v" "ok v'" "put v [] @ xs = put v' [] @ ys" "length (put v [] @ xs) \<le> usize_max"
  shows "v = v' \<and> xs = ys"
proof -
  have 1: "get \<lparr>buf = put v [] @ xs, pos = 0\<rparr>
    = (Inr v, \<lparr>buf = put v [] @ xs, pos = length (put v [])\<rparr>)"
    using readsD[OF get_put[OF assms(1)], of "[]" xs] assms(4) by simp
  have 2: "get \<lparr>buf = put v' [] @ ys, pos = 0\<rparr>
    = (Inr v', \<lparr>buf = put v' [] @ ys, pos = length (put v' [])\<rparr>)"
    using readsD[OF get_put[OF assms(2)], of "[]" ys] assms(3,4) by simp
  from 1 2 assms(3) show ?thesis by simp
qed

end

lemma reads_singleton_u24_append:
  "is_u24 v \<Longrightarrow> reads read_u24 (write_u24 v []) v"
  by (simp add: write_u24_def reads_u24)

interpretation u8c: wire_codec write_u8 read_u8 "\<lambda>_. True"
  by unfold_locales (simp_all add: write_u8_def reads_u8)

interpretation u16c: wire_codec write_u16 read_u16 "\<lambda>_. True"
  by unfold_locales (simp_all add: write_u16_def reads_u16)

interpretation u32c: wire_codec write_u32 read_u32 "\<lambda>_. True"
  by unfold_locales (simp_all add: write_u32_def reads_u32)

interpretation i64c: wire_codec write_i64 read_i64 "\<lambda>_. True"
  by unfold_locales (simp_all add: write_i64_def reads_i64)

interpretation u24c: wire_codec write_u24 read_u24 is_u24
  by unfold_locales (simp_all add: write_u24_def reads_u24)

lemmas writer_defs = new_writer_def write_u8_def write_u16_def write_u24_def write_u32_def
  write_i64_def write_bytes_def write_zeros_def

end
