(* ===== verification/GameBytes.thy ===== *)
theory GameBytes
  imports Wire
begin

text \<open>
  \<^verbatim>\<open>bedrock-protocol/src/bytes.rs\<close>: the cursor and the buffer of the game protocol, little-endian
  with varints.

  The program has a second reader type here, of the same two fields as the transport's; the model
  uses the one record for both.  A \<^verbatim>\<open>f32\<close> is its 32-bit pattern, which is all that reading and
  writing it looks at; an \<^verbatim>\<open>i32\<close> is the 32-bit word that holds it.
\<close>

type_synonym i32 = "32 word"
type_synonym f32 = "32 word"

definition max_varint_bytes :: nat where
  "max_varint_bytes = 5"

datatype game_error =
    UnexpectedEnd nat nat
  | VarintTooLong

section \<open>Little-endian bytes\<close>

definition le_bytes :: "nat \<Rightarrow> 'a::len word \<Rightarrow> bytes" where
  "le_bytes n w = rev (be_bytes n w)"

definition from_le :: "bytes \<Rightarrow> 'a::len word" where
  "from_le bs = from_be (rev bs)"

lemma length_le_bytes [simp]: "length (le_bytes n w) = n"
  by (simp add: le_bytes_def)

lemma from_le_le_bytes:
  fixes w :: "'a::len word"
  shows "LENGTH('a) \<le> 8 * n \<Longrightarrow> from_le (le_bytes n w) = w"
  by (simp add: le_bytes_def from_le_def from_be_be_bytes_full)

section \<open>The reader\<close>

type_synonym game_reader = reader

definition gr_new :: "bytes \<Rightarrow> game_reader" where
  "gr_new b = \<lparr>buf = b, pos = 0\<rparr>"

definition gr_remaining :: "game_reader \<Rightarrow> nat" where
  "gr_remaining r = length (buf r) - pos r"

definition gr_is_empty :: "game_reader \<Rightarrow> bool" where
  "gr_is_empty r \<longleftrightarrow> gr_remaining r = 0"

definition gr_bytes :: "nat \<Rightarrow> (game_error, bytes) rd" where
  "gr_bytes n r =
     (let short = UnexpectedEnd n (gr_remaining r) in
      case checked_add (pos r) n of
        None \<Rightarrow> (Inl short, r)
      | Some e \<Rightarrow>
          if e \<le> length (buf r)
          then (Inr (take n (drop (pos r) (buf r))), r\<lparr>pos := e\<rparr>)
          else (Inl short, r))"

definition gr_array :: "nat \<Rightarrow> (game_error, bytes) rd" where
  "gr_array n = gr_bytes n"

definition gr_u8 :: "(game_error, u8) rd" where
  "gr_u8 = rd_bind (gr_array 1) (\<lambda>b. rd_return (b ! 0))"

definition gr_u16 :: "(game_error, u16) rd" where
  "gr_u16 = rd_bind (gr_array 2) (\<lambda>b. rd_return (from_le b))"

definition gr_f32 :: "(game_error, f32) rd" where
  "gr_f32 = rd_bind (gr_array 4) (\<lambda>b. rd_return (from_le b))"

definition gr_u32 :: "(game_error, u32) rd" where
  "gr_u32 = rd_bind (gr_array 4) (\<lambda>b. rd_return (from_le b))"

definition gr_u32_be :: "(game_error, u32) rd" where
  "gr_u32_be = rd_bind (gr_array 4) (\<lambda>b. rd_return (from_be b))"

text \<open>
  The loop \<^verbatim>\<open>for byte_index in 0..n\<close> of both varint readers: \<open>k\<close> iterations are left, the next is
  number \<open>i\<close>.  The shift drops what does not fit the word, as \<^verbatim>\<open><<\<close> does.
\<close>

fun varint_loop :: "nat \<Rightarrow> nat \<Rightarrow> 'a::len word \<Rightarrow> (game_error, 'a word) rd" where
  "varint_loop 0 i v = rd_fail VarintTooLong"
| "varint_loop (Suc k) i v =
     rd_bind gr_u8 (\<lambda>byte.
       let v = v OR push_bit (i * 7) (ucast (byte AND 0x7f)) in
       if byte AND 0x80 = 0 then rd_return v else varint_loop k (i + 1) v)"

definition gr_varint :: "(game_error, u32) rd" where
  "gr_varint = varint_loop max_varint_bytes 0 0"

definition gr_varint64 :: "(game_error, u64) rd" where
  "gr_varint64 = varint_loop 10 0 0"

definition gr_zigzag32 :: "(game_error, i32) rd" where
  "gr_zigzag32 = rd_bind gr_varint (\<lambda>raw. rd_return (drop_bit 1 raw XOR (- (raw AND 1))))"

definition gr_zigzag64 :: "(game_error, i64) rd" where
  "gr_zigzag64 = rd_bind gr_varint64 (\<lambda>raw. rd_return (drop_bit 1 raw XOR (- (raw AND 1))))"

definition gr_prefixed :: "(game_error, bytes) rd" where
  "gr_prefixed = rd_bind gr_varint (\<lambda>len. gr_bytes (unat len))"

section \<open>The writer\<close>

type_synonym game_writer = bytes

definition gw_new :: game_writer where
  "gw_new = []"

definition gw_u8 :: "u8 \<Rightarrow> game_writer \<Rightarrow> game_writer" where
  "gw_u8 v w = w @ [v]"

definition gw_u16 :: "u16 \<Rightarrow> game_writer \<Rightarrow> game_writer" where
  "gw_u16 v w = w @ le_bytes 2 v"

definition gw_f32 :: "f32 \<Rightarrow> game_writer \<Rightarrow> game_writer" where
  "gw_f32 v w = w @ le_bytes 4 v"

definition gw_u32 :: "u32 \<Rightarrow> game_writer \<Rightarrow> game_writer" where
  "gw_u32 v w = w @ le_bytes 4 v"

definition gw_u64 :: "u64 \<Rightarrow> game_writer \<Rightarrow> game_writer" where
  "gw_u64 v w = w @ le_bytes 8 v"

definition gw_u32_be :: "u32 \<Rightarrow> game_writer \<Rightarrow> game_writer" where
  "gw_u32_be v w = w @ be_bytes 4 v"

text \<open>The loop of both varint writers.\<close>

function put_varint :: "'a::len word \<Rightarrow> game_writer \<Rightarrow> game_writer" where
  "put_varint v w =
     (let byte = (ucast (v AND 0x7f) :: u8);
          v = drop_bit 7 v
      in if v = 0 then w @ [byte] else put_varint v (w @ [byte OR 0x80]))"
  by pat_completeness auto

lemma drop_bit_less:
  fixes v :: "'a::len word"
  assumes "drop_bit 7 v \<noteq> 0"
  shows "unat (drop_bit 7 v) < unat v"
proof -
  have "unat v \<noteq> 0" using assms by (metis drop_bit_of_0 unat_eq_zero)
  moreover have "unat (drop_bit 7 v) = unat v div 2 ^ 7" by (simp only: unat_drop_bit_eq drop_bit_nat_def)
  ultimately show ?thesis by simp
qed

termination put_varint
  by (relation "measure (\<lambda>(v, w). unat v)") (auto simp: drop_bit_less)

declare put_varint.simps [simp del]

definition gw_varint :: "u32 \<Rightarrow> game_writer \<Rightarrow> game_writer" where
  "gw_varint v w = put_varint v w"

definition gw_varint64 :: "u64 \<Rightarrow> game_writer \<Rightarrow> game_writer" where
  "gw_varint64 v w = put_varint v w"

text \<open>\<^verbatim>\<open>v >> 31\<close> on a signed integer copies the sign.\<close>

definition gw_zigzag32 :: "i32 \<Rightarrow> game_writer \<Rightarrow> game_writer" where
  "gw_zigzag32 v w = gw_varint (push_bit 1 v XOR signed_drop_bit 31 v) w"

definition gw_zigzag64 :: "i64 \<Rightarrow> game_writer \<Rightarrow> game_writer" where
  "gw_zigzag64 v w = gw_varint64 (push_bit 1 v XOR signed_drop_bit 63 v) w"

definition gw_vec3 :: "f32 \<Rightarrow> f32 \<Rightarrow> f32 \<Rightarrow> game_writer \<Rightarrow> game_writer" where
  "gw_vec3 x y z w = gw_f32 z (gw_f32 y (gw_f32 x w))"

definition gw_bytes :: "bytes \<Rightarrow> game_writer \<Rightarrow> game_writer" where
  "gw_bytes v w = w @ v"

definition gw_prefixed :: "bytes \<Rightarrow> game_writer \<Rightarrow> game_writer" where
  "gw_prefixed v w = gw_bytes v (gw_varint (u32_or_max (length v)) w)"

definition gw_len :: "game_writer \<Rightarrow> nat" where
  "gw_len w = length w"

definition gw_is_empty :: "game_writer \<Rightarrow> bool" where
  "gw_is_empty w \<longleftrightarrow> w = []"

section \<open>Reads and writes of fixed width\<close>

definition to_game :: "decode_error \<Rightarrow> game_error" where
  "to_game e = UnexpectedEnd (needed e) (available e)"

lemma gr_bytes_wire: "gr_bytes n = rd_err to_game (read_bytes n)"
  by (rule ext) (simp add: gr_bytes_def read_bytes_def rd_err_def map_err_def to_game_def gr_remaining_def
      remaining_def Let_def split: option.splits)

lemma reads_gr_bytes [codec_reads]: "length bs = n \<Longrightarrow> reads (gr_bytes n) bs bs"
  by (simp add: gr_bytes_wire reads_err reads_bytes)

lemma reads_gr_array [codec_reads]: "length bs = n \<Longrightarrow> reads (gr_array n) bs bs"
  by (simp add: gr_array_def reads_gr_bytes)

lemma reads_gr_fixed [codec_reads]:
  "reads gr_u8 [v8] v8" "reads gr_u16 (le_bytes 2 v16) v16" "reads gr_f32 (le_bytes 4 v32) v32"
  "reads gr_u32 (le_bytes 4 v32) v32" "reads gr_u32_be (be_bytes 4 v32) v32"
  unfolding gr_u8_def gr_u16_def gr_f32_def gr_u32_def gr_u32_be_def
  by (rule reads_bind_nil[OF reads_gr_array]; simp add: from_le_le_bytes from_be_be_bytes_full)+

lemma safe_gr_bytes [reader_safe, simp]: "safe (gr_bytes n)"
  by (simp add: gr_bytes_wire safe_err)

lemma safe_gr_fixed [reader_safe, simp]: "safe (gr_array n)" "safe gr_u8" "safe gr_u16" "safe gr_f32" "safe gr_u32"
  "safe gr_u32_be"
  unfolding gr_array_def gr_u8_def gr_u16_def gr_f32_def gr_u32_def gr_u32_be_def
  by (intro safe_bind safe_gr_bytes safe_return)+

lemma eats_gr_bytes: "eats (gr_bytes k) (\<lambda>n v. n = k \<and> length v = k)"
  by (simp add: gr_bytes_wire eats_err eats_prims)

lemma eats_gr_u8: "eats gr_u8 (\<lambda>n v. n = 1)"
  unfolding gr_u8_def gr_array_def
  by (rule eats_bind[OF eats_gr_bytes]) (auto intro: eats_return)

section \<open>Varints\<close>

lemma put_varint_append: "put_varint v w = w @ put_varint v []"
proof (induction "unat v" arbitrary: v w rule: less_induct)
  case less
  show ?case
  proof (cases "drop_bit 7 v = 0")
    case False
    have "put_varint (drop_bit 7 v) x = x @ put_varint (drop_bit 7 v) []" for x
      using less[OF drop_bit_less[OF False]] .
    from this[of "w @ [ucast (v AND 0x7f) OR 0x80]"] this[of "[ucast (v AND 0x7f) OR 0x80]"] show ?thesis
      by (simp add: put_varint.simps[of v w] put_varint.simps[of v "[]"] Let_def)
  qed (simp add: put_varint.simps[of v])
qed

lemma mask_7f: "(0x7f :: 'a::len word) = mask 7"
  by (simp add: mask_eq_exp_minus_1)

lemma bit_0x80: "bit (0x80 :: u8) i \<longleftrightarrow> i = 7"
proof -
  have "(0x80 :: u8) = 2 ^ 7" by simp
  then have "bit (0x80 :: u8) i = bit (2 ^ 7 :: u8) i" by (simp only:)
  then show ?thesis by (auto simp only: bit_exp_iff possible_bit_word) simp
qed

text \<open>The two halves of a varint byte: seven bits of the value and the flag that more follow.\<close>

lemma varint_byte:
  fixes v :: "'a::len word"
  defines "b \<equiv> ucast (v AND 0x7f) :: u8"
  shows "b AND 0x80 = 0" "(b OR 0x80) AND 0x80 \<noteq> 0" "b AND 0x7f = b" "(b OR 0x80) AND 0x7f = b"
    "LENGTH('a) \<ge> 8 \<Longrightarrow> (ucast b :: 'a word) = v AND 0x7f"
proof -
  have b: "bit b i \<longleftrightarrow> i < 7 \<and> bit v i" for i
    by (auto simp: b_def mask_7f bit_simps dest: bit_imp_le_length)
  have f: "bit (b AND 0x80) n = bit (0 :: u8) n" "bit ((b OR 0x80) AND 0x7f) n = bit b n" for n
    using bit_0x80[of n] b[of n] by (auto simp: bit_and_iff bit_or_iff mask_7f bit_mask_iff)
  show "b AND 0x80 = 0" "(b OR 0x80) AND 0x7f = b" by (rule bit_word_eqI, rule f)+
  have "bit ((b OR 0x80) AND 0x80) 7" using bit_0x80[of 7] by (simp add: bit_and_iff bit_or_iff)
  then show "(b OR 0x80) AND 0x80 \<noteq> 0" by (rule contrapos_pn) (simp only: bit_0_eq bot_apply bot_bool_def not_False_eq_True)
  show "b AND 0x7f = b" by (rule bit_word_eqI) (auto simp: mask_7f bit_simps b)
  show "LENGTH('a) \<ge> 8 \<Longrightarrow> (ucast b :: 'a word) = v AND 0x7f"
    by (rule bit_word_eqI) (auto simp: mask_7f bit_simps b)
qed

lemma varint_step:
  fixes v acc :: "'a::len word"
  shows "(acc OR push_bit (i * 7) (v AND 0x7f)) OR push_bit (Suc i * 7) (drop_bit 7 v) = acc OR push_bit (i * 7) v"
proof -
  have m: "(0x7f :: 'a word) = mask 7" by (simp add: mask_eq_exp_minus_1)
  show ?thesis
  proof (rule bit_word_eqI)
    fix n :: nat assume n: "n < LENGTH('a)"
    show "bit ((acc OR push_bit (i * 7) (v AND 0x7f)) OR push_bit (Suc i * 7) (drop_bit 7 v)) n
      = bit (acc OR push_bit (i * 7) v) n"
    proof (cases "i * 7 + 7 \<le> n")
      case True
      then have "7 + (n - (7 + i * 7)) = n - i * 7" by simp
      then show ?thesis using n True by (auto simp: m bit_simps)
    next
      case False
      then show ?thesis using n by (auto simp: m bit_simps)
    qed
  qed
qed

lemma reads_varint_loop:
  fixes v acc :: "'a::len word"
  assumes "unat v < 2 ^ (7 * k)" "8 \<le> LENGTH('a)" "0 < k"
  shows "reads (varint_loop k i acc) (put_varint v []) (acc OR push_bit (i * 7) v)"
  using assms
proof (induction k arbitrary: v i acc)
  case (Suc k)
  let ?b = "ucast (v AND 0x7f) :: u8"
  note b = varint_byte[of v]
  have hd: "push_bit (i * 7) (ucast ?b) = push_bit (i * 7) (v AND 0x7f)" using b(5) Suc.prems(2) by simp
  show ?case
  proof (cases "drop_bit 7 v = 0")
    case True
    then have "acc OR push_bit (i * 7) (v AND 0x7f) = acc OR push_bit (i * 7) v"
      using varint_step[of acc i v] by simp
    moreover have "put_varint v [] = [?b]" using True by (simp add: put_varint.simps[of v])
    ultimately show ?thesis
      using b(1,3) hd by (auto simp: Let_def intro!: reads_bind_nil[OF reads_gr_fixed(1)])
  next
    case False
    have less: "unat (drop_bit 7 v) < 2 ^ (7 * k)"
      using Suc.prems(1) by (simp only: unat_drop_bit_eq drop_bit_nat_def) (simp add: power_add less_mult_imp_div_less mult.commute)
    have "0 < k"
    proof (rule ccontr)
      assume "\<not> 0 < k"
      with less have "unat (drop_bit 7 v) = 0" by simp
      then show False using False by (simp only: unat_eq_zero)
    qed
    from Suc.IH[OF less Suc.prems(2) this, of "Suc i" "acc OR push_bit (i * 7) (v AND 0x7f)"]
    have rest: "reads (varint_loop k (Suc i) (acc OR push_bit (i * 7) (v AND 0x7f))) (put_varint (drop_bit 7 v) [])
        (acc OR push_bit (i * 7) v)"
      by (simp only: varint_step)
    have "put_varint v [] = [?b OR 0x80] @ put_varint (drop_bit 7 v) []"
      using False put_varint_append[of "drop_bit 7 v" "[?b OR 0x80]"] by (simp add: put_varint.simps[of v])
    then show ?thesis
      using b(2,4) hd rest by (auto simp: Let_def intro!: reads_bindI[OF reads_gr_fixed(1)])
  qed
qed simp

lemma length_put_varint:
  assumes "unat v < 2 ^ (7 * k)" "0 < k"
  shows "1 \<le> length (put_varint v []) \<and> length (put_varint v []) \<le> k"
  using assms
proof (induction k arbitrary: v)
  case (Suc k)
  show ?case
  proof (cases "drop_bit 7 v = 0")
    case False
    have less: "unat (drop_bit 7 v) < 2 ^ (7 * k)"
      using Suc.prems(1) by (simp only: unat_drop_bit_eq drop_bit_nat_def) (simp add: power_add less_mult_imp_div_less mult.commute)
    moreover have "0 < k"
    proof (rule ccontr)
      assume "\<not> 0 < k"
      with less have "unat (drop_bit 7 v) = 0" by simp
      then show False using False by (simp only: unat_eq_zero)
    qed
    ultimately show ?thesis
      using Suc.IH[of "drop_bit 7 v"] False put_varint_append[of "drop_bit 7 v" "[x]" for x]
      by (simp add: put_varint.simps[of v])
  qed (simp add: put_varint.simps[of v])
qed simp

lemma reads_varint [codec_reads]: "reads gr_varint (gw_varint v []) v"
  using reads_varint_loop[of v 5 0 0] unat_lt_32[of v]
  by (simp add: gr_varint_def gw_varint_def max_varint_bytes_def)

lemma reads_varint64 [codec_reads]: "reads gr_varint64 (gw_varint64 v []) v"
  using reads_varint_loop[of v 10 0 0] unsigned_less[where ?'a = nat, of v]
  by (simp add: gr_varint64_def gw_varint64_def)

lemma gw_varint_append [codec_append]: "gw_varint v w = w @ gw_varint v []" "gw_varint64 u w = w @ gw_varint64 u []"
  unfolding gw_varint_def gw_varint64_def by (rule put_varint_append)+

lemma length_gw_varint: "1 \<le> length (gw_varint v [])" "length (gw_varint v []) \<le> 5"
  using length_put_varint[of v 5] unat_lt_32[of v] by (simp_all add: gw_varint_def)

lemma safe_varint_loop [reader_safe, simp]: "safe (varint_loop k i v)"
  by (induction k arbitrary: i v) (auto simp: Let_def intro!: safe_bind)

lemma safe_varints [reader_safe, simp]: "safe gr_varint" "safe gr_varint64" "safe gr_zigzag32" "safe gr_zigzag64"
  "safe gr_prefixed"
  by (auto simp: gr_varint_def gr_varint64_def gr_zigzag32_def gr_zigzag64_def gr_prefixed_def intro!: safe_bind)

lemma eats_varint_loop: "eats (varint_loop k i v) (\<lambda>n _. 1 \<le> n \<and> n \<le> k)"
proof (induction k arbitrary: i v)
  case 0
  show ?case by (simp add: eats_fail)
next
  case (Suc k)
  show ?case
    by (simp, rule eats_bind[OF eats_gr_u8])
      (auto simp: Let_def intro!: eats_return eats_weaken[OF Suc])
qed

lemma eats_varint: "eats gr_varint (\<lambda>n _. 1 \<le> n \<and> n \<le> 5)"
  using eats_varint_loop[of 5 0 0] by (simp add: gr_varint_def max_varint_bytes_def)

lemma eats_prefixed: "eats gr_prefixed (\<lambda>n b. 1 \<le> n \<and> length b < n)"
  unfolding gr_prefixed_def
  by (rule eats_bind[OF eats_varint]) (auto intro!: eats_weaken[OF eats_gr_bytes])

section \<open>Zigzag\<close>

lemma zigzag_inverse:
  fixes v :: "'a::len word"
  assumes "LENGTH('a) = Suc k"
  defines "z \<equiv> push_bit 1 v XOR signed_drop_bit k v"
  shows "drop_bit 1 z XOR (- (z AND 1)) = v"
proof (rule bit_word_eqI)
  fix n assume n: "n < LENGTH('a)"
  have bits: "bit z m \<longleftrightarrow> m < LENGTH('a) \<and> ((1 \<le> m \<and> bit v (m - 1)) \<noteq> bit v k)" for m
  proof -
    have a: "bit (push_bit 1 v) m \<longleftrightarrow> m < LENGTH('a) \<and> 1 \<le> m \<and> bit v (m - 1)"
      by (auto simp only: bit_push_bit_iff possible_bit_word)
    have b: "bit (signed_drop_bit k v) m \<longleftrightarrow> bit v k" if "m < LENGTH('a)"
      using that assms(1) by (cases m) (simp_all add: bit_signed_drop_bit_iff)
    show ?thesis
      unfolding z_def bit_xor_iff a
      using b bit_imp_le_length[of "signed_drop_bit k v" m] by auto
  qed
  have "z AND 1 = (if bit v k then 1 else 0)"
    by (rule bit_word_eqI) (auto simp: bit_and_iff bit_1_iff bits)
  then have neg: "bit (- (z AND 1)) n \<longleftrightarrow> bit v k" using n by simp
  have "bit (drop_bit 1 z) n \<longleftrightarrow> bit z (Suc n)" by (simp add: bit_simps)
  also have "\<dots> \<longleftrightarrow> n < k \<and> (bit v n \<noteq> bit v k)" using bits[of "Suc n"] assms(1) by auto
  finally show "bit (drop_bit 1 z XOR (- (z AND 1))) n = bit v n"
    using neg n assms(1) by (auto simp: bit_xor_iff less_Suc_eq)
qed

lemma reads_zigzag32 [codec_reads]: "reads gr_zigzag32 (gw_zigzag32 v []) v"
  unfolding gr_zigzag32_def gw_zigzag32_def
  by (rule reads_bind_nil[OF reads_varint]) (use zigzag_inverse[of 31 v] in \<open>simp only: len_num1 len_bit0 len_bit1; simp\<close>)

lemma reads_zigzag64 [codec_reads]: "reads gr_zigzag64 (gw_zigzag64 v []) v"
  unfolding gr_zigzag64_def gw_zigzag64_def
  by (rule reads_bind_nil[OF reads_varint64]) (use zigzag_inverse[of 63 v] in \<open>simp only: len_num1 len_bit0 len_bit1; simp\<close>)

lemma reads_prefixed [codec_reads]: "length b < 2 ^ 32 \<Longrightarrow> reads gr_prefixed (gw_prefixed b []) b"
  unfolding gr_prefixed_def gw_prefixed_def gw_bytes_def
  by (rule reads_bind[OF reads_varint]) (simp add: unat_u32_or_max reads_gr_bytes)

lemma gw_append [codec_append]:
  "gw_zigzag32 v w = w @ gw_zigzag32 v []" "gw_zigzag64 u w = w @ gw_zigzag64 u []"
  "gw_prefixed b w = w @ gw_prefixed b []"
  unfolding gw_zigzag32_def gw_zigzag64_def gw_prefixed_def gw_bytes_def
  by (rule gw_varint_append(1), rule gw_varint_append(2)) (metis append.assoc gw_varint_append(1))

interpretation varintc: wire_codec gw_varint gr_varint "\<lambda>_. True"
  by unfold_locales (auto intro: gw_varint_append reads_varint)

interpretation varint64c: wire_codec gw_varint64 gr_varint64 "\<lambda>_. True"
  by unfold_locales (auto intro: gw_varint_append reads_varint64)

interpretation zigzagc: wire_codec gw_zigzag32 gr_zigzag32 "\<lambda>_. True"
  by unfold_locales (auto intro: gw_append reads_zigzag32)

interpretation zigzag64c: wire_codec gw_zigzag64 gr_zigzag64 "\<lambda>_. True"
  by unfold_locales (auto intro: gw_append reads_zigzag64)

interpretation prefixedc: wire_codec gw_prefixed gr_prefixed "\<lambda>b. length b < 2 ^ 32"
  by unfold_locales (auto intro: gw_append reads_prefixed)

lemmas game_writer_defs = gw_new_def gw_u8_def gw_u16_def gw_f32_def gw_u32_def gw_u64_def gw_u32_be_def gw_vec3_def
  gw_bytes_def

section \<open>Round trip\<close>

text \<open>Every variable-length integer the game protocol writes, signed or not, at 32 and at 64 bits,
  reads back as itself wherever it stands in a packet; it takes one to five bytes (ten at 64 bits),
  and no read takes more, whatever the bytes.\<close>

lemma varint_round_trip:
  "reads gr_varint (gw_varint v32 []) v32 \<and> reads gr_varint64 (gw_varint64 v64 []) v64
   \<and> reads gr_zigzag32 (gw_zigzag32 s32 []) s32 \<and> reads gr_zigzag64 (gw_zigzag64 s64 []) s64
   \<and> 1 \<le> length (gw_varint v32 []) \<and> length (gw_varint v32 []) \<le> 5
   \<and> length (gw_varint64 v64 []) \<le> 10
   \<and> eats gr_varint (\<lambda>n _. 1 \<le> n \<and> n \<le> 5) \<and> eats gr_varint64 (\<lambda>n _. 1 \<le> n \<and> n \<le> 10)"
  using length_gw_varint[of v32] eats_varint_loop[of 10 0 0] length_put_varint[of v64 10]
    unsigned_less[where ?'a = nat, of v64]
    reads_varint64[of v64] eats_varint
  by (simp add: reads_varint reads_zigzag32 reads_zigzag64 gr_varint64_def gw_varint64_def)

end
