(* ===== verification/Batch.thy ===== *)
theory Batch
  imports GameBytes
begin

text \<open>
  \<^verbatim>\<open>bedrock-protocol/src/batch.rs\<close>: how game packets are framed inside one RakNet payload, before
  and after compression has been settled.
\<close>

definition batch_marker :: u8 where
  "batch_marker = 0xfe"

datatype compression_method = MethodZLib | MethodSnappy | MethodNone

fun method_byte :: "compression_method \<Rightarrow> u8" where
  "method_byte MethodZLib = 0x00"
| "method_byte MethodSnappy = 0x01"
| "method_byte MethodNone = 0xff"

definition method_from_byte :: "u8 \<Rightarrow> compression_method option" where
  "method_from_byte byte =
     (if byte = 0x00 then Some MethodZLib
      else if byte = 0x01 then Some MethodSnappy
      else if byte = 0xff then Some MethodNone
      else None)"

definition id_bits :: u32 where "id_bits = 0x3ff"
definition sender_shift :: nat where "sender_shift = 10"
definition target_shift :: nat where "target_shift = 12"
definition subclient_bits :: u32 where "subclient_bits = 0x3"

record packet =
  pk_id :: u32
  pk_sender :: u8
  pk_target :: u8
  pk_body :: bytes

definition new_packet :: "u32 \<Rightarrow> bytes \<Rightarrow> packet" where
  "new_packet i body = \<lparr>pk_id = i, pk_sender = 0, pk_target = 0, pk_body = body\<rparr>"

definition packet_header :: "packet \<Rightarrow> u32" where
  "packet_header p =
     (pk_id p AND id_bits)
     OR push_bit sender_shift (ucast (pk_sender p) AND subclient_bits)
     OR push_bit target_shift (ucast (pk_target p) AND subclient_bits)"

definition put_packet :: "packet \<Rightarrow> game_writer \<Rightarrow> game_writer" where
  "put_packet p out = gw_prefixed (gw_bytes (pk_body p) (gw_varint (packet_header p) gw_new)) out"

definition encode_batch :: "packet list \<Rightarrow> bytes" where
  "encode_batch packets = fold put_packet packets (gw_u8 batch_marker gw_new)"

definition encode_batch_with_method :: "packet list \<Rightarrow> bytes" where
  "encode_batch_with_method packets =
     (let body = encode_batch packets
      in gw_bytes (drop 1 body) (gw_u8 (method_byte MethodNone) (gw_u8 batch_marker gw_new)))"

text \<open>One turn of the loop of \<^verbatim>\<open>decode_packets\<close>, after the length prefix.\<close>

definition get_packet :: "bytes \<Rightarrow> game_error + packet" where
  "get_packet inner = fst (
     rd_bind gr_varint (\<lambda>header.
     rd_bind (\<lambda>r. gr_bytes (gr_remaining r) r) (\<lambda>body.
       rd_return \<lparr>pk_id = header AND id_bits,
         pk_sender = ucast (drop_bit sender_shift header AND subclient_bits),
         pk_target = ucast (drop_bit target_shift header AND subclient_bits),
         pk_body = body\<rparr>)) (gr_new inner))"

function decode_packets :: "packet list \<Rightarrow> game_reader \<Rightarrow> game_error + packet list" where
  "decode_packets packets r =
     (if gr_is_empty r then Inr packets
      else
        (case gr_prefixed r of
           (Inl e, r') \<Rightarrow> Inl e
         | (Inr inner, r') \<Rightarrow>
             (case get_packet inner of
                Inl e \<Rightarrow> Inl e
              | Inr p \<Rightarrow> decode_packets (packets @ [p]) r')))"
  by pat_completeness auto

lemma prefixed_progress:
  assumes "gr_prefixed r = (Inr b, r')" "\<not> gr_is_empty r"
  shows "gr_remaining r' < gr_remaining r"
proof -
  have "pos r \<le> length (buf r)" using assms(2) by (simp add: gr_is_empty_def gr_remaining_def)
  from eatsD[OF eats_prefixed assms(1) this] show ?thesis
    by (auto simp: advanced_def gr_remaining_def)
qed

termination decode_packets
  by (relation "measure (\<lambda>(ps, r). gr_remaining r)") (auto simp: prefixed_progress[OF sym])

declare decode_packets.simps [simp del]

definition decode_batch :: "bytes \<Rightarrow> game_error + packet list" where
  "decode_batch b =
     (case gr_u8 (gr_new b) of
        (Inl e, r) \<Rightarrow> Inl e
      | (Inr m, r) \<Rightarrow> if m \<noteq> batch_marker then Inl (UnexpectedEnd 1 0) else decode_packets [] r)"

definition decode_batch_with_method :: "bytes \<Rightarrow> game_error + (compression_method \<times> packet list)" where
  "decode_batch_with_method b =
     (case gr_u8 (gr_new b) of
        (Inl e, r) \<Rightarrow> Inl e
      | (Inr m, r) \<Rightarrow>
          if m \<noteq> batch_marker then Inl (UnexpectedEnd 1 0)
          else (case gr_u8 r of
                  (Inl e, r) \<Rightarrow> Inl e
                | (Inr byte, r) \<Rightarrow>
                    (case method_from_byte byte of
                       None \<Rightarrow> Inl (UnexpectedEnd 1 0)
                     | Some compression_method \<Rightarrow>
                         if compression_method \<noteq> MethodNone then Inr (compression_method, [])
                         else and_then (decode_packets [] r) (\<lambda>ps. Inr (compression_method, ps)))))"

section \<open>Headers\<close>

definition packet_ok :: "packet \<Rightarrow> bool" where
  "packet_ok p \<longleftrightarrow> unat (pk_id p) < 1024 \<and> unat (pk_sender p) < 4 \<and> unat (pk_target p) < 4
     \<and> length (pk_body p) + 5 < 2 ^ 32"

lemma id_bits_mask: "id_bits = mask 10" "subclient_bits = mask 2"
  by (simp_all add: id_bits_def subclient_bits_def mask_eq_exp_minus_1)

lemma take_bit_small:
  fixes w :: "'a::len word"
  shows "unat w < 2 ^ n \<Longrightarrow> w AND mask n = w"
  unfolding take_bit_eq_mask[symmetric]
  by (metis take_bit_nat_eq_self_iff unsigned_take_bit_eq word_unat_eq_iff)

lemma header_fields:
  fixes i :: u32 and a b :: u32
  defines "h \<equiv> (i AND mask 10) OR push_bit 10 (a AND mask 2) OR push_bit 12 (b AND mask 2)"
  shows "h AND mask 10 = i AND mask 10" "drop_bit 10 h AND mask 2 = a AND mask 2"
    "drop_bit 12 h AND mask 2 = b AND mask 2"
  unfolding h_def by (rule bit_word_eqI; auto simp: bit_simps)+

lemma ucast_sub:
  fixes s :: u8
  assumes "unat s < 4"
  shows "ucast (ucast s AND (mask 2 :: u32)) = s"
proof -
  have "s AND mask 2 = s" by (rule take_bit_small) (use assms in simp)
  moreover have "ucast (ucast s AND (mask 2 :: u32)) = s AND mask 2"
    by (rule bit_word_eqI) (auto simp: bit_simps)
  ultimately show ?thesis by simp
qed

lemma get_packet_put:
  assumes "packet_ok p" "length (gw_varint (packet_header p) [] @ pk_body p) \<le> usize_max"
  shows "get_packet (gw_varint (packet_header p) [] @ pk_body p) = Inr p"
proof -
  let ?h = "packet_header p"
  have v: "gr_varint (gr_new (gw_varint ?h [] @ pk_body p))
    = (Inr ?h, \<lparr>buf = gw_varint ?h [] @ pk_body p, pos = length (gw_varint ?h [])\<rparr>)"
    using readsD[OF reads_varint, of "[]" ?h "pk_body p"] assms(2) by (simp add: gr_new_def)
  have "?h AND id_bits = pk_id p"
    "ucast (drop_bit sender_shift ?h AND subclient_bits) = pk_sender p"
    "ucast (drop_bit target_shift ?h AND subclient_bits) = pk_target p"
    using assms(1) header_fields[of "pk_id p" "ucast (pk_sender p)" "ucast (pk_target p)"]
      take_bit_small[of "pk_id p" 10] ucast_sub[of "pk_sender p"] ucast_sub[of "pk_target p"]
    by (simp_all add: packet_ok_def packet_header_def id_bits_mask sender_shift_def target_shift_def)
  moreover have "gr_bytes (gr_remaining r) r = (Inr (pk_body p), r\<lparr>pos := length (buf r)\<rparr>)"
    if "r = \<lparr>buf = gw_varint ?h [] @ pk_body p, pos = length (gw_varint ?h [])\<rparr>" for r
    using assms(2) that by (simp add: gr_bytes_def gr_remaining_def checked_add_def)
  ultimately show ?thesis by (simp add: get_packet_def rd_bind_def v rd_return_def)
qed

section \<open>Batches\<close>

definition packet_bytes :: "packet \<Rightarrow> bytes" where
  "packet_bytes p = gw_prefixed (gw_varint (packet_header p) [] @ pk_body p) []"

lemma put_packet_append: "put_packet p w = w @ packet_bytes p"
  unfolding put_packet_def packet_bytes_def gw_bytes_def gw_new_def by (rule gw_append(3))

lemma fold_put_packet: "fold put_packet ps w = w @ concat (map packet_bytes ps)"
  by (induction ps arbitrary: w) (simp_all add: put_packet_append)

lemma encode_batch_bytes:
  "encode_batch ps = batch_marker # concat (map packet_bytes ps)"
  "encode_batch_with_method ps = batch_marker # 0xff # concat (map packet_bytes ps)"
  by (simp_all add: encode_batch_def encode_batch_with_method_def fold_put_packet game_writer_defs)

lemma decode_packets_written:
  assumes "list_all packet_ok ps" "length (pre @ concat (map packet_bytes ps)) \<le> usize_max"
  shows "decode_packets acc \<lparr>buf = pre @ concat (map packet_bytes ps), pos = length pre\<rparr> = Inr (acc @ ps)"
  using assms
proof (induction ps arbitrary: pre acc)
  case Nil
  then show ?case by (simp add: decode_packets.simps gr_is_empty_def gr_remaining_def)
next
  case (Cons p ps)
  let ?inner = "gw_varint (packet_header p) [] @ pk_body p"
  let ?rest = "concat (map packet_bytes ps)"
  let ?buf = "pre @ packet_bytes p @ ?rest"
  have ok: "packet_ok p" using Cons.prems(1) by simp
  have inner: "length ?inner < 2 ^ 32"
    using ok length_gw_varint(2)[of "packet_header p"] by (simp add: packet_ok_def)
  have "gr_prefixed \<lparr>buf = ?buf, pos = length pre\<rparr> = (Inr ?inner, \<lparr>buf = ?buf, pos = length pre + length (packet_bytes p)\<rparr>)"
  proof -
    have "length (pre @ gw_prefixed ?inner [] @ ?rest) \<le> usize_max"
      using Cons.prems(2) by (simp add: packet_bytes_def[of p])
    then show ?thesis using readsD[OF reads_prefixed[OF inner], of pre ?rest] by (simp only: packet_bytes_def[of p])
  qed
  moreover have "0 < length (packet_bytes p)"
    using length_gw_varint(1)[of "u32_or_max (length ?inner)"]
    unfolding packet_bytes_def gw_prefixed_def gw_bytes_def length_append by linarith
  then have "\<not> gr_is_empty \<lparr>buf = ?buf, pos = length pre\<rparr>" by (auto simp: gr_is_empty_def gr_remaining_def)
  moreover have "get_packet ?inner = Inr p"
    using get_packet_put[OF ok] inner by (simp add: usize_max_def)
  ultimately show ?case
    using Cons.IH[of "pre @ packet_bytes p" "acc @ [p]"] Cons.prems
    by (simp add: decode_packets.simps[of acc] add.assoc)
qed

lemma method_from_0xff: "method_from_byte 0xff = Some MethodNone"
  by (simp add: method_from_byte_def)

lemma batch_reads_back:
  assumes "list_all packet_ok ps" "length (encode_batch_with_method ps) \<le> usize_max"
  shows "decode_batch (encode_batch ps) = Inr ps
    \<and> decode_batch_with_method (encode_batch_with_method ps) = Inr (MethodNone, ps)"
proof -
  let ?body = "concat (map packet_bytes ps)"
  have u8: "gr_u8 (gr_new (x # xs)) = (Inr x, \<lparr>buf = x # xs, pos = 1\<rparr>)" if "length (x # xs) \<le> usize_max" for x xs
    using readsD[OF reads_gr_fixed(1)[of x], of "[]" xs] that by (simp add: gr_new_def)
  have len: "length (batch_marker # ?body) \<le> usize_max" "length (batch_marker # 0xff # ?body) \<le> usize_max"
    using assms(2) by (simp_all add: encode_batch_bytes)
  have "gr_u8 \<lparr>buf = batch_marker # 0xff # ?body, pos = 1\<rparr> = (Inr 0xff, \<lparr>buf = batch_marker # 0xff # ?body, pos = Suc (Suc 0)\<rparr>)"
    using readsD[OF reads_gr_fixed(1)[of "0xff"], of "[batch_marker]" ?body] len(2) by simp
  then show ?thesis
    using decode_packets_written[OF assms(1), of "[batch_marker]" "[]"] len u8[OF len(1)] u8[OF len(2)]
      decode_packets_written[OF assms(1), of "[batch_marker, 0xff]" "[]"]
    by (simp add: decode_batch_def decode_batch_with_method_def encode_batch_bytes method_from_0xff)
qed

section \<open>How long the decoding takes\<close>

text \<open>The loop of \<^verbatim>\<open>decode_packets\<close>, stopped after so many turns.\<close>

fun decode_turns :: "nat \<Rightarrow> packet list \<Rightarrow> game_reader \<Rightarrow> (game_error + packet list) option" where
  "decode_turns 0 packets r = None"
| "decode_turns (Suc n) packets r =
     (if gr_is_empty r then Some (Inr packets)
      else
        (case gr_prefixed r of
           (Inl e, r') \<Rightarrow> Some (Inl e)
         | (Inr inner, r') \<Rightarrow>
             (case get_packet inner of
                Inl e \<Rightarrow> Some (Inl e)
              | Inr p \<Rightarrow> decode_turns n (packets @ [p]) r')))"

lemma get_packet_within:
  assumes "get_packet inner = Inr p"
  shows "length (pk_body p) < length inner \<and> unat (pk_id p) < 1024 \<and> unat (pk_sender p) < 4 \<and> unat (pk_target p) < 4"
proof -
  obtain header body r r' where h: "gr_varint (gr_new inner) = (Inr header, r)" "gr_bytes (gr_remaining r) r = (Inr body, r')"
    and p: "p = \<lparr>pk_id = header AND id_bits, pk_sender = ucast (drop_bit sender_shift header AND subclient_bits),
         pk_target = ucast (drop_bit target_shift header AND subclient_bits), pk_body = body\<rparr>"
    using assms by (auto simp: get_packet_def rd_bind_def rd_return_def split: prod.splits sum.splits)
  obtain n where n: "r = \<lparr>buf = inner, pos = n\<rparr>" "1 \<le> n" "n \<le> length inner"
    using eatsD[OF eats_varint h(1)] by (auto simp: gr_new_def advanced_def)
  have "length body = gr_remaining r"
    using eatsD[OF eats_gr_bytes h(2)] n by (simp add: advanced_def gr_remaining_def)
  then have body: "length (pk_body p) < length inner" using n by (simp add: p gr_remaining_def)
  have mask: "unat (w AND mask k) < 2 ^ k" for w :: u32 and k
    by (simp flip: take_bit_eq_mask add: unsigned_take_bit_eq)
  have sub: "unat (ucast (w AND mask 2) :: u8) < 4" for w :: u32
    using mask[of w 2] by (simp add: unsigned_ucast_eq take_bit_nat_eq_self order.strict_trans2)
  show ?thesis using body mask[of header 10] sub by (simp add: p id_bits_mask)
qed

lemma prefixed_takes:
  assumes "gr_prefixed r = (Inr inner, r')" "pos r \<le> length (buf r)"
  shows "length inner + 1 + gr_remaining r' \<le> gr_remaining r \<and> pos r' \<le> length (buf r')"
  using eatsD[OF eats_prefixed assms] by (auto simp: advanced_def gr_remaining_def)

text \<open>A packet costs two bytes beside its body: the length and the header.\<close>

definition batch_weight :: "packet list \<Rightarrow> nat" where
  "batch_weight ps = sum_list (map (\<lambda>p. length (pk_body p) + 2) ps)"

definition fields_fit :: "packet \<Rightarrow> bool" where
  "fields_fit p \<longleftrightarrow> unat (pk_id p) < 1024 \<and> unat (pk_sender p) < 4 \<and> unat (pk_target p) < 4"

lemma decode_packets_within:
  assumes "decode_packets acc r = Inr ps" "pos r \<le> length (buf r)"
  shows "\<exists>new. ps = acc @ new \<and> batch_weight new \<le> gr_remaining r \<and> list_all fields_fit new"
  using assms
proof (induction acc r rule: decode_packets.induct)
  case (1 acc r)
  show ?case
  proof (cases "gr_is_empty r")
    case True
    then show ?thesis using 1(2) by (simp add: decode_packets.simps[of acc] batch_weight_def)
  next
    case False
    then obtain inner r' p where s: "gr_prefixed r = (Inr inner, r')" "get_packet inner = Inr p"
      "decode_packets (acc @ [p]) r' = Inr ps"
      using 1(2) by (auto simp: decode_packets.simps[of acc] split: prod.splits sum.splits)
    note t = prefixed_takes[OF s(1) 1(3)]
    obtain new where "ps = (acc @ [p]) @ new" "batch_weight new \<le> gr_remaining r'" "list_all fields_fit new"
      using 1(1)[OF False s(1)[symmetric] refl s(2,3)] t by blast
    then show ?thesis
      using t get_packet_within[OF s(2)]
      by (intro exI[of _ "p # new"]) (auto simp: batch_weight_def fields_fit_def list_all_iff)
  qed
qed

lemma decode_turns_enough:
  assumes "pos r \<le> length (buf r)" "gr_remaining r div 2 < n"
  shows "decode_turns n acc r = Some (decode_packets acc r)"
  using assms
proof (induction n arbitrary: acc r)
  case (Suc n)
  have "gr_remaining r' div 2 < n" if "gr_prefixed r = (Inr inner, r')" "get_packet inner = Inr p" for inner r' p
  proof -
    have "2 + gr_remaining r' \<le> gr_remaining r"
      using prefixed_takes[OF that(1) Suc.prems(1)] get_packet_within[OF that(2)] by linarith
    then show ?thesis using Suc.prems(2) by linarith
  qed
  then show ?case
    using Suc prefixed_takes[OF _ Suc.prems(1)]
    by (auto simp: decode_packets.simps[of acc] split: prod.splits sum.splits)
qed simp

text \<open>C37: Decoding a batch ends, whatever the bytes and whatever lengths they declare: the loop is over, with the
  packets or with an error, after at most one turn for every two bytes, and one; and the packets it yields
  weigh no more than the bytes that came, with identifiers of ten bits and split-screen fields of two.\<close>

theorem batch_decoding_ends:
  "decode_turns (length b div 2 + 1) [] (gr_new b) = Some (decode_packets [] (gr_new b))
    \<and> (case decode_batch b of
         Inl _ \<Rightarrow> True
       | Inr ps \<Rightarrow> batch_weight ps < length b \<and> list_all fields_fit ps)"
proof -
  have "batch_weight ps < length b \<and> list_all fields_fit ps" if d: "decode_batch b = Inr ps" for ps
  proof -
    obtain m r where u: "gr_u8 (gr_new b) = (Inr m, r)" "decode_packets [] r = Inr ps"
      using d by (auto simp: decode_batch_def split: prod.splits sum.splits if_splits)
    have "r = \<lparr>buf = b, pos = 1\<rparr> \<and> 1 \<le> length b"
      using eatsD[OF eats_gr_u8 u(1)] by (auto simp: gr_new_def advanced_def)
    then show ?thesis using decode_packets_within[OF u(2)] by (auto simp: gr_remaining_def)
  qed
  moreover have "decode_turns (length b div 2 + 1) [] (gr_new b) = Some (decode_packets [] (gr_new b))"
    by (rule decode_turns_enough) (simp_all add: gr_new_def gr_remaining_def)
  ultimately show ?thesis by (simp split: sum.splits)
qed

text \<open>C36: A batch decodes to the packets that were put into it, in order and with their split-screen
  fields, in the framing used before compression is settled and in the one used after, which
  declares no compression.\<close>

theorem batch_round_trip:
  assumes "list_all packet_ok ps" "length (encode_batch_with_method ps) \<le> usize_max"
  shows "decode_batch (encode_batch ps) = Inr ps
    \<and> decode_batch_with_method (encode_batch_with_method ps) = Inr (MethodNone, ps)"
  using batch_reads_back[OF assms] .

lemma batch_round_trip_witness:
  "decode_batch (encode_batch [\<lparr>pk_id = 193, pk_sender = 1, pk_target = 2, pk_body = [0, 0, 3, 233]\<rparr>])
     = Inr [\<lparr>pk_id = 193, pk_sender = 1, pk_target = 2, pk_body = [0, 0, 3, 233]\<rparr>]"
proof -
  let ?p = "\<lparr>pk_id = 193, pk_sender = 1, pk_target = 2, pk_body = [0, 0, 3, 233]\<rparr>"
  have "length (gw_prefixed b []) \<le> 5 + length b" for b
    using length_gw_varint(2) by (simp add: gw_prefixed_def gw_bytes_def)
  from order_trans[OF this[of "gw_varint (packet_header ?p) [] @ pk_body ?p"]] have "length (packet_bytes ?p) \<le> 14"
    using length_gw_varint(2)[of "packet_header ?p"] by (simp add: packet_bytes_def)
  then have "length (encode_batch_with_method [?p]) \<le> usize_max"
    by (simp add: encode_batch_bytes usize_max_def)
  then show ?thesis using batch_round_trip[of "[?p]"] by (simp add: packet_ok_def)
qed

end
