(* ===== verification/Float32.thy ===== *)
theory Float32
  imports GameBytes
begin

text \<open>
  The \<^verbatim>\<open>f32\<close> operations the server uses: addition and subtraction, conversion from and to \<^verbatim>\<open>i32\<close>,
  and \<^verbatim>\<open>floor\<close>, on the IEEE 754 bit pattern.

  Every finite \<^verbatim>\<open>f32\<close> is a multiple of \<open>2 ^ -149\<close>, so its value is an integer number of such
  units; an operation computes on the units exactly and rounds once, to nearest, ties to even.
  \<^verbatim>\<open>as i32\<close> truncates, saturates, and maps \<^verbatim>\<open>NaN\<close> to zero.
\<close>

section \<open>The pattern\<close>

definition f32_negative :: "f32 \<Rightarrow> bool" where
  "f32_negative w \<longleftrightarrow> 2 ^ 31 \<le> unat w"

definition f32_exponent :: "f32 \<Rightarrow> nat" where
  "f32_exponent w = unat w div 2 ^ 23 mod 2 ^ 8"

definition f32_fraction :: "f32 \<Rightarrow> nat" where
  "f32_fraction w = unat w mod 2 ^ 23"

definition f32_is_nan :: "f32 \<Rightarrow> bool" where
  "f32_is_nan w \<longleftrightarrow> f32_exponent w = 255 \<and> f32_fraction w \<noteq> 0"

definition f32_is_infinite :: "f32 \<Rightarrow> bool" where
  "f32_is_infinite w \<longleftrightarrow> f32_exponent w = 255 \<and> f32_fraction w = 0"

definition f32_finite :: "f32 \<Rightarrow> bool" where
  "f32_finite w \<longleftrightarrow> f32_exponent w \<noteq> 255"

text \<open>The value of a finite number, in units of \<open>2 ^ -149\<close>.\<close>

definition f32_units :: "f32 \<Rightarrow> int" where
  "f32_units w =
     (let magnitude = (if f32_exponent w = 0 then int (f32_fraction w)
                       else int (2 ^ 23 + f32_fraction w) * 2 ^ (f32_exponent w - 1))
      in if f32_negative w then - magnitude else magnitude)"

definition f32_one :: int where
  "f32_one = 2 ^ 149"

definition f32_nan :: f32 where "f32_nan = 0x7fc00000"
definition f32_infinity :: "bool \<Rightarrow> f32" where "f32_infinity neg = (if neg then 0xff800000 else 0x7f800000)"

section \<open>Rounding\<close>

fun bit_length :: "nat \<Rightarrow> nat" where
  "bit_length n = (if n = 0 then 0 else Suc (bit_length (n div 2)))"

declare bit_length.simps [simp del]

text \<open>
  The pattern of a magnitude: with \<open>k\<close> bits to drop and \<open>q\<close> the rounded rest, exponent and fraction
  together are \<open>k * 2 ^ 23 + q\<close>, also when the rounding carries into the exponent; past the largest
  finite number it is infinity.
\<close>

definition f32_round_magnitude :: "nat \<Rightarrow> nat" where
  "f32_round_magnitude a =
     (let k = bit_length a - 24;
          q = a div 2 ^ k;
          r = a mod 2 ^ k;
          up = (k > 0 \<and> (2 ^ (k - 1) < r \<or> 2 ^ (k - 1) = r \<and> odd q));
          p = k * 2 ^ 23 + (if up then q + 1 else q)
      in min p (255 * 2 ^ 23))"

definition f32_of_units :: "bool \<Rightarrow> int \<Rightarrow> f32" where
  "f32_of_units neg_zero u =
     (let p = f32_round_magnitude (nat \<bar>u\<bar>)
      in of_nat (if u < 0 \<or> u = 0 \<and> neg_zero then p + 2 ^ 31 else p))"

section \<open>Operations\<close>

definition f32_neg :: "f32 \<Rightarrow> f32" where
  "f32_neg x = x XOR 0x80000000"

definition f32_add :: "f32 \<Rightarrow> f32 \<Rightarrow> f32" where
  "f32_add x y =
     (if f32_is_nan x \<or> f32_is_nan y then f32_nan
      else if f32_is_infinite x
      then (if f32_is_infinite y \<and> f32_negative x \<noteq> f32_negative y then f32_nan else x)
      else if f32_is_infinite y then y
      else f32_of_units (f32_negative x \<and> f32_negative y) (f32_units x + f32_units y))"

definition f32_sub :: "f32 \<Rightarrow> f32 \<Rightarrow> f32" where
  "f32_sub x y = f32_add x (f32_neg y)"

text \<open>An \<^verbatim>\<open>i32\<close> is an integer here.\<close>

definition f32_of_int :: "int \<Rightarrow> f32" where
  "f32_of_int n = f32_of_units False (n * f32_one)"

definition f32_floor :: "f32 \<Rightarrow> f32" where
  "f32_floor x =
     (if \<not> f32_finite x then x
      else f32_of_units (f32_negative x) ((f32_units x div f32_one) * f32_one))"

definition i32_saturate :: "int \<Rightarrow> int" where
  "i32_saturate n = max (- (2 ^ 31)) (min (2 ^ 31 - 1) n)"

definition f32_to_int :: "f32 \<Rightarrow> int" where
  "f32_to_int x =
     (if f32_is_nan x then 0
      else if f32_is_infinite x then (if f32_negative x then - (2 ^ 31) else 2 ^ 31 - 1)
      else i32_saturate (sgn (f32_units x) * (\<bar>f32_units x\<bar> div f32_one)))"

definition i32_ok :: "int \<Rightarrow> bool" where
  "i32_ok n \<longleftrightarrow> - (2 ^ 31) \<le> n \<and> n < 2 ^ 31"

lemma f32_to_int_ok: "i32_ok (f32_to_int x)"
  by (auto simp: f32_to_int_def i32_ok_def i32_saturate_def)

lemmas f32_eval = f32_of_int_def f32_of_units_def f32_one_def f32_round_magnitude_def Let_def bit_length.simps
  f32_add_def f32_sub_def f32_neg_def f32_units_def f32_is_nan_def f32_is_infinite_def f32_finite_def
  f32_negative_def f32_exponent_def f32_fraction_def f32_to_int_def f32_floor_def i32_saturate_def

text \<open>A check of the definitions against known patterns: \<open>80 + 1.62\<close>, and flooring on both sides.\<close>

lemma f32_samples:
  "f32_of_int 80 = 0x42a00000"
  "f32_add (f32_of_int 80) 0x3fcf5c29 = 0x42a33d71"
  "f32_to_int (f32_sub 0x42a33d71 0x3fcf5c29) = 80"
  "f32_to_int (f32_floor 0xbf000000) = -1"
  "f32_to_int (f32_floor 0x41a80000) = 21"
  by (simp_all add: f32_eval)

end
