(* ===== verification/Address.thy ===== *)
theory Address
  imports Wire
begin

text \<open>
  \<^verbatim>\<open>bedrock-raknet/src/address.rs\<close>: socket addresses on the wire.  An IPv4 address is
  written with its octets complemented; an IPv6 address is written as the placeholder
  \<^verbatim>\<open>255.255.255.255:0\<close>.

  \<^verbatim>\<open>SocketAddr\<close> is the standard library's type: a version 4 address is four octets and a
  port, a version 6 address the 128 address bits, a port, a flow label and a scope.
\<close>

datatype ip_addr = IpV4 u8 u8 u8 u8 | IpV6 "128 word"

datatype socket_addr =
    SockV4 u8 u8 u8 u8 u16
  | SockV6 "128 word" u16 u32 u32

fun addr_ip :: "socket_addr \<Rightarrow> ip_addr" where
  "addr_ip (SockV4 a b c d p) = IpV4 a b c d"
| "addr_ip (SockV6 a p f s) = IpV6 a"

fun addr_port :: "socket_addr \<Rightarrow> u16" where
  "addr_port (SockV4 a b c d p) = p"
| "addr_port (SockV6 a p f s) = p"

definition ipv4_len :: nat where
  "ipv4_len = 7"

definition version_ipv4 :: u8 where
  "version_ipv4 = 4"

datatype address_error =
    AddrTruncated decode_error
  | UnsupportedVersion u8

definition unassigned :: socket_addr where
  "unassigned = SockV4 255 255 255 255 0"

fun is_unspecified :: "ip_addr \<Rightarrow> bool" where
  "is_unspecified (IpV4 a b c d) \<longleftrightarrow> a = 0 \<and> b = 0 \<and> c = 0 \<and> d = 0"
| "is_unspecified (IpV6 a) \<longleftrightarrow> a = 0"

fun is_broadcast :: "ip_addr \<Rightarrow> bool" where
  "is_broadcast (IpV4 a b c d) \<longleftrightarrow> a = 255 \<and> b = 255 \<and> c = 255 \<and> d = 255"
| "is_broadcast (IpV6 a) \<longleftrightarrow> False"

definition is_empty_slot :: "socket_addr \<Rightarrow> bool" where
  "is_empty_slot addr \<longleftrightarrow> addr_port addr = 0 \<and>
     (case addr_ip addr of
        IpV4 a b c d \<Rightarrow> is_unspecified (IpV4 a b c d) \<or> is_broadcast (IpV4 a b c d)
      | IpV6 a \<Rightarrow> is_unspecified (IpV6 a))"

text \<open>The address an encoder really writes: IPv6 falls back to the placeholder.\<close>

fun addr_as_v4 :: "socket_addr \<Rightarrow> socket_addr" where
  "addr_as_v4 (SockV4 a b c d p) = SockV4 a b c d p"
| "addr_as_v4 (SockV6 a p f s) = SockV4 255 255 255 255 0"

definition write_addr :: "socket_addr \<Rightarrow> writer \<Rightarrow> writer" where
  "write_addr addr w =
     (case addr_as_v4 addr of
        SockV4 a b c d p \<Rightarrow>
          (let w = write_u8 version_ipv4 w;
               w = fold (\<lambda>octet w. write_u8 (NOT octet) w) [a, b, c, d] w
           in write_u16 p w)
      | SockV6 a p f s \<Rightarrow> w)"

definition read_addr_inner :: "bool \<Rightarrow> (address_error, socket_addr) rd" where
  "read_addr_inner complement =
     rd_bind (rd_err AddrTruncated read_u8) (\<lambda>version.
       if version \<noteq> version_ipv4 then rd_fail (UnsupportedVersion version)
       else rd_bind (rd_err AddrTruncated (read_array 4)) (\<lambda>octets.
         let octets = (if complement then map (\<lambda>octet. NOT octet) octets else octets) in
         rd_bind (rd_err AddrTruncated read_u16) (\<lambda>port.
           rd_return (SockV4 (octets ! 0) (octets ! 1) (octets ! 2) (octets ! 3) port))))"

definition read_addr :: "(address_error, socket_addr) rd" where
  "read_addr = read_addr_inner True"

definition read_addr_raw :: "(address_error, socket_addr) rd" where
  "read_addr_raw = read_addr_inner False"

section \<open>Properties\<close>

fun is_v4 :: "socket_addr \<Rightarrow> bool" where
  "is_v4 (SockV4 a b c d p) = True"
| "is_v4 (SockV6 a p f s) = False"

lemma addr_as_v4_id: "is_v4 addr \<Longrightarrow> addr_as_v4 addr = addr"
  by (cases addr) auto

lemma write_addr_v4:
  "write_addr (SockV4 a b c d p) w = w @ [4, NOT a, NOT b, NOT c, NOT d] @ be_bytes 2 p"
  by (simp add: write_addr_def writer_defs version_ipv4_def Let_def)

lemma write_addr_v6: "write_addr (SockV6 a p f s) w = write_addr unassigned w"
  by (simp add: write_addr_def unassigned_def)

lemma write_addr_append [codec_append]: "write_addr addr w = w @ write_addr addr []"
  by (cases addr) (simp_all add: write_addr_v6 unassigned_def write_addr_v4)

lemma length_write_addr [simp]: "length (write_addr addr w) = length w + ipv4_len"
  by (cases addr) (simp_all add: write_addr_v6 unassigned_def write_addr_v4 ipv4_len_def)

lemma safe_read_addr_inner [reader_safe, simp]: "safe (read_addr_inner b)"
  unfolding read_addr_inner_def Let_def by (intro safe_bind safe_if safe_err safe_primitives
    safe_return safe_fail)

lemma safe_read_addr [reader_safe, simp]: "safe read_addr" "safe read_addr_raw"
  by (simp_all add: read_addr_def read_addr_raw_def)

lemma reads_addr_inner:
  "reads (read_addr_inner cmpl) ([4, a, b, c, d] @ be_bytes 2 p)
     (if cmpl then SockV4 (NOT a) (NOT b) (NOT c) (NOT d) p else SockV4 a b c d p)"
proof -
  let ?os = "if cmpl then map (\<lambda>octet. NOT octet) [a, b, c, d] else [a, b, c, d]"
  have port: "reads (rd_bind (rd_err AddrTruncated read_u16) (\<lambda>port.
      rd_return (SockV4 (?os ! 0) (?os ! 1) (?os ! 2) (?os ! 3) port))) (be_bytes 2 p)
    (if cmpl then SockV4 (NOT a) (NOT b) (NOT c) (NOT d) p else SockV4 a b c d p)"
    by (rule reads_bind_nil[OF reads_err[OF reads_u16]]) simp
  show ?thesis
    unfolding read_addr_inner_def
    by (rule reads_bindI[OF reads_err[OF reads_u8[of 4]]],
        simp only: version_ipv4_def refl not_True_eq_False if_False Let_def,
        rule reads_bindI[OF reads_err[OF reads_array[of "[a, b, c, d]"]]])
      (use port in simp_all)
qed

text \<open>A written address reads back as the address the writer put on the wire.\<close>

lemma reads_addr_v4: "reads read_addr (write_addr (SockV4 a b c d p) []) (SockV4 a b c d p)"
  using reads_addr_inner[of True "NOT a" "NOT b" "NOT c" "NOT d" p]
  by (simp add: write_addr_v4 read_addr_def)

lemma reads_addr [codec_reads]: "reads read_addr (write_addr addr []) (addr_as_v4 addr)"
  using reads_addr_v4[of 255 255 255 255 0]
  by (cases addr) (simp_all add: reads_addr_v4 write_addr_v6 unassigned_def)

interpretation addrc: wire_codec write_addr read_addr is_v4
proof unfold_locales
  show "write_addr v w = w @ write_addr v []" for v w by (rule write_addr_append)
  show "reads read_addr (write_addr v []) v" if "is_v4 v" for v
    using reads_addr[of v] that by (simp add: addr_as_v4_id)
  show "safe read_addr" by simp
qed

end
