(* ===== verification/Offline.thy ===== *)
theory Offline
  imports Address
begin

text \<open>
  \<^verbatim>\<open>bedrock-raknet/src/offline.rs\<close> and \<^verbatim>\<open>connect.rs\<close>, with the constants of \<^verbatim>\<open>lib.rs\<close>: the
  packets exchanged before a connection exists (ping and pong, MTU negotiation).

  A \<^verbatim>\<open>String\<close> is the list of its UTF-8 bytes; \<open>utf8_valid\<close> is what \<^verbatim>\<open>str::from_utf8\<close> accepts.
\<close>

definition default_port_v4 :: u16 where "default_port_v4 = 19132"
definition default_port_v6 :: u16 where "default_port_v6 = 19133"

definition udp_ip_overhead :: nat where "udp_ip_overhead = 28"
definition max_mtu :: nat where "max_mtu = 1492"

definition magic :: bytes where
  "magic = [0x00, 0xff, 0xff, 0x00, 0xfe, 0xfe, 0xfe, 0xfe, 0xfd, 0xfd, 0xfd, 0xfd, 0x12, 0x34, 0x56, 0x78]"

lemma length_magic [simp]: "length magic = 16"
  by (simp add: magic_def)

section \<open>UTF-8\<close>

definition utf8_tail :: "u8 \<Rightarrow> bool" where
  "utf8_tail b \<longleftrightarrow> 0x80 \<le> b \<and> b \<le> 0xBF"

text \<open>
  The bytes a character may consist of: no overlong form, no surrogate, nothing above
  \<^verbatim>\<open>U+10FFFF\<close>.  \<open>utf8_width\<close> is the number of bytes after the first and the range of the
  second.
\<close>

definition utf8_width :: "u8 \<Rightarrow> (nat \<times> u8 \<times> u8) option" where
  "utf8_width b =
     (if b \<le> 0x7F then Some (0, 0x80, 0xBF)
      else if 0xC2 \<le> b \<and> b \<le> 0xDF then Some (1, 0x80, 0xBF)
      else if b = 0xE0 then Some (2, 0xA0, 0xBF)
      else if b = 0xED then Some (2, 0x80, 0x9F)
      else if 0xE1 \<le> b \<and> b \<le> 0xEF then Some (2, 0x80, 0xBF)
      else if b = 0xF0 then Some (3, 0x90, 0xBF)
      else if 0xF1 \<le> b \<and> b \<le> 0xF3 then Some (3, 0x80, 0xBF)
      else if b = 0xF4 then Some (3, 0x80, 0x8F)
      else None)"

function utf8_valid :: "bytes \<Rightarrow> bool" where
  "utf8_valid [] = True"
| "utf8_valid (b # bs) =
     (case utf8_width b of
        None \<Rightarrow> False
      | Some (n, lo, hi) \<Rightarrow>
          n \<le> length bs \<and> (n = 0 \<or> lo \<le> hd bs \<and> hd bs \<le> hi)
          \<and> list_all utf8_tail (take n bs) \<and> utf8_valid (drop n bs))"
  by pat_completeness auto
termination utf8_valid
  by (relation "measure length") auto

section \<open>Ping and pong\<close>

definition id_unconnected_ping :: u8 where "id_unconnected_ping = 0x01"
definition id_unconnected_pong :: u8 where "id_unconnected_pong = 0x1c"

datatype offline_error =
    OfflineTruncated decode_error
  | OfflineUnexpectedId u8 u8
  | OfflineBadMagic
  | InvalidUtf8

definition encode_unconnected_ping :: "i64 \<Rightarrow> i64 \<Rightarrow> bytes" where
  "encode_unconnected_ping time client_guid =
     (let w = write_u8 id_unconnected_ping new_writer;
          w = write_i64 time w;
          w = write_bytes magic w
      in write_i64 client_guid w)"

record unconnected_pong =
  up_time :: i64
  up_server_guid :: i64
  up_advertisement :: bytes

definition decode_unconnected_pong :: "bytes \<Rightarrow> offline_error + unconnected_pong" where
  "decode_unconnected_pong b = fst (
     rd_bind (rd_err OfflineTruncated read_u8) (\<lambda>i.
     if i \<noteq> id_unconnected_pong then rd_fail (OfflineUnexpectedId id_unconnected_pong i)
     else
     rd_bind (rd_err OfflineTruncated read_i64) (\<lambda>time.
     rd_bind (rd_err OfflineTruncated read_i64) (\<lambda>guid.
     rd_bind (rd_err OfflineTruncated (read_array 16)) (\<lambda>m.
     if m \<noteq> magic then rd_fail OfflineBadMagic
     else
     rd_bind (rd_err OfflineTruncated read_u16) (\<lambda>len.
     rd_bind (rd_err OfflineTruncated (read_bytes (unat len))) (\<lambda>adv.
     if \<not> utf8_valid adv then rd_fail InvalidUtf8
     else rd_return \<lparr>up_time = time, up_server_guid = guid, up_advertisement = adv\<rparr>))))))
     (new_reader b))"

section \<open>Opening a connection\<close>

definition id_open_connection_request_1 :: u8 where "id_open_connection_request_1 = 0x05"
definition id_open_connection_reply_1 :: u8 where "id_open_connection_reply_1 = 0x06"
definition id_open_connection_request_2 :: u8 where "id_open_connection_request_2 = 0x07"
definition id_open_connection_reply_2 :: u8 where "id_open_connection_reply_2 = 0x08"
definition id_incompatible_protocol_version :: u8 where "id_incompatible_protocol_version = 0x19"
definition protocol_version :: u8 where "protocol_version = 11"

lemmas offline_ids = id_unconnected_ping_def id_unconnected_pong_def id_open_connection_request_1_def
  id_open_connection_reply_1_def id_open_connection_request_2_def id_open_connection_reply_2_def
  id_incompatible_protocol_version_def

datatype connect_error =
    ConnectTruncated decode_error
  | ConnectUnexpectedId u8 u8
  | ConnectBadMagic
  | ConnectAddress address_error

definition connect_expect :: "u8 \<Rightarrow> (connect_error, unit) rd" where
  "connect_expect i =
     rd_bind (rd_err ConnectTruncated read_u8) (\<lambda>found.
     if found \<noteq> i then rd_fail (ConnectUnexpectedId i found)
     else rd_bind (rd_err ConnectTruncated (read_array 16)) (\<lambda>m.
       if m \<noteq> magic then rd_fail ConnectBadMagic else rd_return ()))"

definition encode_request_1 :: "nat \<Rightarrow> bytes option" where
  "encode_request_1 mtu =
     (let fixed = 1 + length magic + 1 in
      if mtu < fixed then None
      else Some (write_zeros (mtu - fixed) (write_u8 protocol_version
             (write_bytes magic (write_u8 id_open_connection_request_1 new_writer)))))"

record reply1 =
  r1_server_guid :: i64
  r1_cookie :: "u32 option"
  r1_mtu :: u16

definition decode_reply_1 :: "bytes \<Rightarrow> connect_error + reply1" where
  "decode_reply_1 b = fst (
     rd_bind (connect_expect id_open_connection_reply_1) (\<lambda>_.
     rd_bind (rd_err ConnectTruncated read_i64) (\<lambda>guid.
     rd_bind (rd_err ConnectTruncated read_u8) (\<lambda>secure.
     rd_bind (if secure \<noteq> 0
              then rd_bind (rd_err ConnectTruncated read_u32) (\<lambda>c. rd_return (Some c))
              else rd_return None) (\<lambda>cookie.
     rd_bind (rd_err ConnectTruncated read_u16) (\<lambda>mtu.
       rd_return \<lparr>r1_server_guid = guid, r1_cookie = cookie, r1_mtu = mtu\<rparr>)))))
     (new_reader b))"

definition encode_request_2 :: "socket_addr \<Rightarrow> u16 \<Rightarrow> i64 \<Rightarrow> u32 option \<Rightarrow> bytes" where
  "encode_request_2 server mtu client_guid cookie =
     (let w = write_bytes magic (write_u8 id_open_connection_request_2 new_writer);
          w = (case cookie of None \<Rightarrow> w | Some cookie \<Rightarrow> write_u8 0 (write_u32 cookie w));
          w = write_addr server w
      in write_i64 client_guid (write_u16 mtu w))"

record reply2 =
  r2_server_guid :: i64
  r2_client_addr :: socket_addr
  r2_mtu :: u16
  r2_encryption_enabled :: bool

definition decode_reply_2 :: "bytes \<Rightarrow> connect_error + reply2" where
  "decode_reply_2 b = fst (
     rd_bind (connect_expect id_open_connection_reply_2) (\<lambda>_.
     rd_bind (rd_err ConnectTruncated read_i64) (\<lambda>guid.
     rd_bind (rd_err ConnectAddress read_addr) (\<lambda>client.
     rd_bind (rd_err ConnectTruncated read_u16) (\<lambda>mtu.
     rd_bind (rd_err ConnectTruncated read_u8) (\<lambda>enc.
       rd_return \<lparr>r2_server_guid = guid, r2_client_addr = client, r2_mtu = mtu,
         r2_encryption_enabled = (enc \<noteq> 0)\<rparr>)))))
     (new_reader b))"

record incompatible_protocol_version =
  ip_server_protocol :: u8
  ip_server_guid :: i64

definition decode_incompatible :: "bytes \<Rightarrow> connect_error + incompatible_protocol_version" where
  "decode_incompatible b = fst (
     rd_bind (rd_err ConnectTruncated read_u8) (\<lambda>found.
     if found \<noteq> id_incompatible_protocol_version
     then rd_fail (ConnectUnexpectedId id_incompatible_protocol_version found)
     else rd_bind (rd_err ConnectTruncated read_u8) (\<lambda>protocol.
     rd_bind (rd_err ConnectTruncated (read_array 16)) (\<lambda>m.
     if m \<noteq> magic then rd_fail ConnectBadMagic
     else rd_bind (rd_err ConnectTruncated read_i64) (\<lambda>guid.
       rd_return \<lparr>ip_server_protocol = protocol, ip_server_guid = guid\<rparr>))))
     (new_reader b))"

definition mtu_ladder :: "nat list" where
  "mtu_ladder = [max_mtu, 1200, 576]"

definition mtu_payload_limit :: "u16 \<Rightarrow> nat" where
  "mtu_payload_limit advertised_mtu = unat advertised_mtu - udp_ip_overhead"

section \<open>Round trips\<close>

lemma reads_decode:
  "reads m b v \<Longrightarrow> length b \<le> usize_max \<Longrightarrow> fst (m (new_reader b)) = Inr v"
  using readsD[of m b v "[]" "[]"] by (simp add: new_reader_def)

lemma reads_connect_expect: "reads (connect_expect i) (i # magic) ()"
proof -
  have "reads (connect_expect i) ([i] @ magic) ()"
    unfolding connect_expect_def
    by (rule reads_bind[OF reads_err[OF reads_u8]])
      (simp add: reads_bind_nil[OF reads_err[OF reads_array[of magic 16]]])
  then show ?thesis by simp
qed

lemma decode_pong_written:
  assumes "utf8_valid adv" "length adv < 2 ^ 16"
  shows "decode_unconnected_pong (id_unconnected_pong # be_bytes 8 time @ be_bytes 8 guid @ magic
      @ be_bytes 2 (of_nat (length adv) :: u16) @ adv)
    = Inr \<lparr>up_time = time, up_server_guid = guid, up_advertisement = adv\<rparr>"
proof -
  have len: "unat (of_nat (length adv) :: u16) = length adv" using assms(2) by (simp add: unat_of_nat_small)
  have m: "reads (read_array 16) magic magic" by (rule reads_array) simp
  have "reads (rd_bind (rd_err OfflineTruncated read_u8) (\<lambda>i.
     if i \<noteq> id_unconnected_pong then rd_fail (OfflineUnexpectedId id_unconnected_pong i)
     else
     rd_bind (rd_err OfflineTruncated read_i64) (\<lambda>time.
     rd_bind (rd_err OfflineTruncated read_i64) (\<lambda>guid.
     rd_bind (rd_err OfflineTruncated (read_array 16)) (\<lambda>m.
     if m \<noteq> magic then rd_fail OfflineBadMagic
     else
     rd_bind (rd_err OfflineTruncated read_u16) (\<lambda>len.
     rd_bind (rd_err OfflineTruncated (read_bytes (unat len))) (\<lambda>adv.
     if \<not> utf8_valid adv then rd_fail InvalidUtf8
     else rd_return \<lparr>up_time = time, up_server_guid = guid, up_advertisement = adv\<rparr>)))))))
    ([id_unconnected_pong] @ be_bytes 8 time @ be_bytes 8 guid @ magic
      @ be_bytes 2 (of_nat (length adv) :: u16) @ adv)
    \<lparr>up_time = time, up_server_guid = guid, up_advertisement = adv\<rparr>"
    by (rule reads_bind[OF reads_err[OF reads_u8]], simp only: refl not_True_eq_False if_False,
        rule reads_bind[OF reads_err[OF reads_i64]], rule reads_bind[OF reads_err[OF reads_i64]],
        rule reads_bind[OF reads_err[OF m]], simp only: refl not_True_eq_False if_False,
        rule reads_bind[OF reads_err[OF reads_u16]],
        rule reads_bind_nil[OF reads_err[OF reads_bytes]])
      (simp_all add: len assms(1))
  from reads_decode[OF this] show ?thesis
    using assms(2) by (simp add: decode_unconnected_pong_def usize_max_def)
qed

lemma decode_reply_1_written:
  "decode_reply_1 (id_open_connection_reply_1 # magic @ be_bytes 8 guid @ [0] @ be_bytes 2 mtu)
     = Inr \<lparr>r1_server_guid = guid, r1_cookie = None, r1_mtu = mtu\<rparr>"
proof -
  have "reads (rd_bind (connect_expect id_open_connection_reply_1) (\<lambda>_.
     rd_bind (rd_err ConnectTruncated read_i64) (\<lambda>guid.
     rd_bind (rd_err ConnectTruncated read_u8) (\<lambda>secure.
     rd_bind (if secure \<noteq> 0
              then rd_bind (rd_err ConnectTruncated read_u32) (\<lambda>c. rd_return (Some c))
              else rd_return None) (\<lambda>cookie.
     rd_bind (rd_err ConnectTruncated read_u16) (\<lambda>mtu.
       rd_return \<lparr>r1_server_guid = guid, r1_cookie = cookie, r1_mtu = mtu\<rparr>))))))
    ((id_open_connection_reply_1 # magic) @ be_bytes 8 guid @ [0] @ [] @ be_bytes 2 mtu)
    \<lparr>r1_server_guid = guid, r1_cookie = None, r1_mtu = mtu\<rparr>"
    by (rule reads_bind[OF reads_connect_expect], rule reads_bind[OF reads_err[OF reads_i64]],
        rule reads_bind[OF reads_err[OF reads_u8]],
        simp only: refl not_True_eq_False if_False, rule reads_bind[OF reads_return],
        rule reads_bind_nil[OF reads_err[OF reads_u16]]) (rule reads_return)
  from reads_decode[OF this] show ?thesis by (simp add: decode_reply_1_def usize_max_def)
qed

lemma decode_reply_2_written:
  "decode_reply_2 (id_open_connection_reply_2 # magic @ be_bytes 8 guid @ write_addr client []
      @ be_bytes 2 mtu @ [0])
     = Inr \<lparr>r2_server_guid = guid, r2_client_addr = addr_as_v4 client, r2_mtu = mtu,
         r2_encryption_enabled = False\<rparr>"
proof -
  have "reads (rd_bind (connect_expect id_open_connection_reply_2) (\<lambda>_.
     rd_bind (rd_err ConnectTruncated read_i64) (\<lambda>guid.
     rd_bind (rd_err ConnectAddress read_addr) (\<lambda>client.
     rd_bind (rd_err ConnectTruncated read_u16) (\<lambda>mtu.
     rd_bind (rd_err ConnectTruncated read_u8) (\<lambda>enc.
       rd_return \<lparr>r2_server_guid = guid, r2_client_addr = client, r2_mtu = mtu,
         r2_encryption_enabled = (enc \<noteq> 0)\<rparr>))))))
    ((id_open_connection_reply_2 # magic) @ be_bytes 8 guid @ write_addr client [] @ be_bytes 2 mtu @ [0])
    \<lparr>r2_server_guid = guid, r2_client_addr = addr_as_v4 client, r2_mtu = mtu,
         r2_encryption_enabled = False\<rparr>"
    by (rule reads_bind[OF reads_connect_expect], rule reads_bind[OF reads_err[OF reads_i64]],
        rule reads_bind[OF reads_err[OF reads_addr]], rule reads_bind[OF reads_err[OF reads_u16]],
        rule reads_bind_nil[OF reads_err[OF reads_u8]]) simp
  from reads_decode[OF this] show ?thesis
    by (simp add: decode_reply_2_def usize_max_def ipv4_len_def)
qed

lemma decode_incompatible_written:
  "decode_incompatible (id_incompatible_protocol_version # p # magic @ be_bytes 8 guid)
     = Inr \<lparr>ip_server_protocol = p, ip_server_guid = guid\<rparr>"
proof -
  have m: "reads (read_array 16) magic magic" by (rule reads_array) simp
  have "reads (rd_bind (rd_err ConnectTruncated read_u8) (\<lambda>found.
     if found \<noteq> id_incompatible_protocol_version
     then rd_fail (ConnectUnexpectedId id_incompatible_protocol_version found)
     else rd_bind (rd_err ConnectTruncated read_u8) (\<lambda>protocol.
     rd_bind (rd_err ConnectTruncated (read_array 16)) (\<lambda>m.
     if m \<noteq> magic then rd_fail ConnectBadMagic
     else rd_bind (rd_err ConnectTruncated read_i64) (\<lambda>guid.
       rd_return \<lparr>ip_server_protocol = protocol, ip_server_guid = guid\<rparr>)))))
    ([id_incompatible_protocol_version] @ [p] @ magic @ be_bytes 8 guid)
    \<lparr>ip_server_protocol = p, ip_server_guid = guid\<rparr>"
    by (rule reads_bind[OF reads_err[OF reads_u8]], simp only: refl not_True_eq_False if_False,
        rule reads_bind[OF reads_err[OF reads_u8]], rule reads_bind[OF reads_err[OF m]],
        simp only: refl not_True_eq_False if_False, rule reads_bind_nil[OF reads_err[OF reads_i64]])
      (rule reads_return)
  from reads_decode[OF this] show ?thesis by (simp add: decode_incompatible_def usize_max_def)
qed

end
