(* ===== verification/GamePackets.thy ===== *)
theory GamePackets
  imports Batch Float32 Offline
begin

text \<open>
  The packets of the game protocol up to the world: \<^verbatim>\<open>version.rs\<close>, \<^verbatim>\<open>handshake.rs\<close>,
  \<^verbatim>\<open>login.rs\<close>, \<^verbatim>\<open>play_status.rs\<close>, \<^verbatim>\<open>resource_packs.rs\<close>, \<^verbatim>\<open>chunk_radius.rs\<close>,
  \<^verbatim>\<open>player.rs\<close> and \<^verbatim>\<open>registries.rs\<close> of \<^verbatim>\<open>bedrock-protocol\<close>.

  A string is the list of its UTF-8 bytes; \<open>ascii\<close> turns a literal into it.
\<close>

definition ascii :: "string \<Rightarrow> bytes" where
  "ascii s = map of_char s"

text \<open>A decoder applied to a whole body.\<close>

definition run_reader :: "(game_error, 'a) rd \<Rightarrow> bytes \<Rightarrow> game_error + 'a" where
  "run_reader m body = fst (m (gr_new body))"

definition game_protocol_version :: u32 where "game_protocol_version = 1001"
definition minecraft_version :: bytes where "minecraft_version = ascii ''1.26.30''"

section \<open>Compression and encryption\<close>

definition id_request_network_settings :: u32 where "id_request_network_settings = 193"
definition id_network_settings :: u32 where "id_network_settings = 143"

datatype compression = ZLib | Snappy | NoCompression

fun compression_value :: "compression \<Rightarrow> u16" where
  "compression_value ZLib = 0"
| "compression_value Snappy = 1"
| "compression_value NoCompression = 2"

definition compression_from_value :: "u16 \<Rightarrow> compression option" where
  "compression_from_value v =
     (if v = 0 then Some ZLib else if v = 1 then Some Snappy else if v = 2 then Some NoCompression else None)"

record request_network_settings =
  rn_client_protocol :: u32

definition decode_request_network_settings :: "bytes \<Rightarrow> game_error + request_network_settings" where
  "decode_request_network_settings body =
     run_reader (rd_bind gr_u32_be (\<lambda>p. rd_return \<lparr>rn_client_protocol = p\<rparr>)) body"

definition encode_request_network_settings :: "request_network_settings \<Rightarrow> bytes" where
  "encode_request_network_settings s = gw_u32_be (rn_client_protocol s) gw_new"

record network_settings =
  compression_threshold :: u16
  ns_compression :: compression
  client_throttle_enabled :: bool
  client_throttle_threshold :: u8
  client_throttle_scalar :: f32

definition uncompressed :: network_settings where
  "uncompressed = \<lparr>compression_threshold = 0, ns_compression = NoCompression, client_throttle_enabled = False,
     client_throttle_threshold = 0, client_throttle_scalar = 0\<rparr>"

definition encode_network_settings :: "network_settings \<Rightarrow> bytes" where
  "encode_network_settings s =
     (let w = gw_u16 (compression_threshold s) gw_new;
          w = gw_u16 (compression_value (ns_compression s)) w;
          w = gw_u8 (if client_throttle_enabled s then 1 else 0) w;
          w = gw_u8 (client_throttle_threshold s) w
      in gw_f32 (client_throttle_scalar s) w)"

definition decode_network_settings :: "bytes \<Rightarrow> game_error + network_settings" where
  "decode_network_settings body = run_reader (
     rd_bind gr_u16 (\<lambda>threshold.
     rd_bind gr_u16 (\<lambda>c.
     rd_bind gr_u8 (\<lambda>enabled.
     rd_bind gr_u8 (\<lambda>throttle.
     rd_bind gr_f32 (\<lambda>scalar.
       rd_return \<lparr>compression_threshold = threshold,
         ns_compression = (case compression_from_value c of None \<Rightarrow> NoCompression | Some c \<Rightarrow> c),
         client_throttle_enabled = (enabled \<noteq> 0), client_throttle_threshold = throttle,
         client_throttle_scalar = scalar\<rparr>)))))) body"

definition network_settings_packet :: "network_settings \<Rightarrow> packet" where
  "network_settings_packet s = new_packet id_network_settings (encode_network_settings s)"

definition id_server_to_client_handshake :: u32 where "id_server_to_client_handshake = 3"
definition id_client_to_server_handshake :: u32 where "id_client_to_server_handshake = 4"

definition server_to_client_handshake :: "bytes \<Rightarrow> packet" where
  "server_to_client_handshake token = new_packet id_server_to_client_handshake (gw_prefixed token gw_new)"

definition decode_handshake_token :: "bytes \<Rightarrow> game_error + bytes" where
  "decode_handshake_token body = run_reader (
     rd_bind gr_prefixed (\<lambda>b. if utf8_valid b then rd_return b else rd_fail (UnexpectedEnd 0 0))) body"

section \<open>Login\<close>

definition id_login :: u32 where "id_login = 1"

definition token_issuer :: bytes where
  "token_issuer = ascii ''https://authorization.franchise.minecraft-services.net/''"
definition token_audience :: bytes where
  "token_audience = ascii ''api://auth-minecraft-services/multiplayer''"

record login_limits =
  max_identity :: nat
  max_client_data :: nat

definition default_login_limits :: login_limits where
  "default_login_limits = \<lparr>max_identity = 64 * 1024, max_client_data = 2 * 1024 * 1024\<rparr>"

datatype login_error =
    Malformed game_error
  | TooLarge string nat nat
  | NotUtf8 string

record login =
  lg_client_protocol :: u32
  lg_identity :: bytes
  lg_client_data :: bytes

definition login_section :: "string \<Rightarrow> nat \<Rightarrow> (login_error, bytes) rd" where
  "login_section name limit =
     rd_bind (rd_err Malformed gr_u32) (\<lambda>declared.
     if unat declared > limit then rd_fail (TooLarge name (unat declared) limit)
     else rd_bind (rd_err Malformed (gr_bytes (unat declared))) (\<lambda>b.
       if utf8_valid b then rd_return b else rd_fail (NotUtf8 name)))"

definition decode_login :: "bytes \<Rightarrow> login_limits \<Rightarrow> login_error + login" where
  "decode_login body limits = fst (
     rd_bind (rd_err Malformed gr_u32_be) (\<lambda>client_protocol.
     rd_bind (rd_err Malformed gr_prefixed) (\<lambda>blob r.
       rd_bind (login_section ''identity'' (max_identity limits)) (\<lambda>identity.
       rd_bind (login_section ''client data'' (max_client_data limits)) (\<lambda>client_data.
         rd_return \<lparr>lg_client_protocol = client_protocol, lg_identity = identity, lg_client_data = client_data\<rparr>))
       (gr_new blob))) (gr_new body))"

section \<open>The verdict on a login\<close>

definition id_play_status :: u32 where "id_play_status = 2"

datatype status =
    LoginSuccess | ClientOutdated | ServerOutdated | PlayerSpawn | InvalidTenant
  | EducationToVanilla | VanillaToEducation | ServerFullForSubClient

fun status_value :: "status \<Rightarrow> u32" where
  "status_value LoginSuccess = 0"
| "status_value ClientOutdated = 1"
| "status_value ServerOutdated = 2"
| "status_value PlayerSpawn = 3"
| "status_value InvalidTenant = 4"
| "status_value EducationToVanilla = 5"
| "status_value VanillaToEducation = 6"
| "status_value ServerFullForSubClient = 7"

definition status_from_value :: "i32 \<Rightarrow> status option" where
  "status_from_value v =
     (if v = 0 then Some LoginSuccess
      else if v = 1 then Some ClientOutdated
      else if v = 2 then Some ServerOutdated
      else if v = 3 then Some PlayerSpawn
      else if v = 4 then Some InvalidTenant
      else if v = 5 then Some EducationToVanilla
      else if v = 6 then Some VanillaToEducation
      else if v = 7 then Some ServerFullForSubClient
      else None)"

definition for_version_mismatch :: "u32 \<Rightarrow> u32 \<Rightarrow> status option" where
  "for_version_mismatch client server =
     (if client = server then None
      else if client < server then Some ClientOutdated
      else Some ServerOutdated)"

definition encode_status :: "status \<Rightarrow> bytes" where
  "encode_status s = gw_u32_be (status_value s) gw_new"

definition decode_status :: "bytes \<Rightarrow> game_error + status option" where
  "decode_status body = run_reader (rd_bind gr_u32_be (\<lambda>v. rd_return (status_from_value v))) body"

definition status_packet :: "status \<Rightarrow> packet" where
  "status_packet s = new_packet id_play_status (encode_status s)"

section \<open>Resource packs\<close>

definition id_resource_packs_info :: u32 where "id_resource_packs_info = 6"
definition id_resource_pack_stack :: u32 where "id_resource_pack_stack = 7"
definition id_resource_pack_client_response :: u32 where "id_resource_pack_client_response = 8"

datatype response = Refused | SendPacks | HaveAllPacks | Completed

definition response_from_value :: "u8 \<Rightarrow> response option" where
  "response_from_value v =
     (if v = 1 then Some Refused else if v = 2 then Some SendPacks
      else if v = 3 then Some HaveAllPacks else if v = 4 then Some Completed else None)"

definition decode_response :: "bytes \<Rightarrow> game_error + response option" where
  "decode_response body = run_reader (rd_bind gr_u8 (\<lambda>v. rd_return (response_from_value v))) body"

definition packs_info_empty :: packet where
  "packs_info_empty =
     (let w = gw_u8 0 (gw_u8 0 (gw_u8 0 (gw_u8 0 gw_new)));
          w = gw_prefixed [] (gw_u64 0 (gw_u64 0 w));
          w = gw_u16 0 w
      in new_packet id_resource_packs_info w)"

definition pack_stack_empty :: "bytes \<Rightarrow> packet" where
  "pack_stack_empty base_game_version =
     (let w = gw_u8 0 gw_new;
          w = gw_varint 0 w;
          w = gw_prefixed base_game_version w;
          w = gw_u8 0 (gw_u32 0 w);
          w = gw_u8 0 w
      in new_packet id_resource_pack_stack w)"

section \<open>View distance and the player\<close>

definition id_request_chunk_radius :: u32 where "id_request_chunk_radius = 69"
definition id_chunk_radius_updated :: u32 where "id_chunk_radius_updated = 70"
definition id_serverbound_loading_screen :: u32 where "id_serverbound_loading_screen = 312"

record radius_request =
  rq_radius :: i32
  rq_max_radius :: u8

definition decode_radius_request :: "bytes \<Rightarrow> game_error + radius_request" where
  "decode_radius_request body = run_reader (
     rd_bind gr_zigzag32 (\<lambda>radius. rd_bind gr_u8 (\<lambda>mx.
       rd_return \<lparr>rq_radius = radius, rq_max_radius = mx\<rparr>))) body"

definition granted_packet :: "i32 \<Rightarrow> packet" where
  "granted_packet radius = new_packet id_chunk_radius_updated (gw_zigzag32 radius gw_new)"

text \<open>\<^verbatim>\<open>radius.clamp(1, server_max.max(1))\<close>, on signed integers.\<close>

definition grant :: "radius_request \<Rightarrow> int \<Rightarrow> int" where
  "grant request server_max = max 1 (min (sint (rq_radius request)) (max server_max 1))"

definition id_player_auth_input :: u32 where "id_player_auth_input = 144"
definition id_set_local_player_as_initialized :: u32 where "id_set_local_player_as_initialized = 113"

text \<open>The \<^verbatim>\<open>f32\<close> nearest to \<open>1.62\<close>.\<close>

definition position_offset :: f32 where
  "position_offset = 0x3fcf5c29"

record auth_input =
  ai_pitch :: f32
  ai_yaw :: f32
  ai_x :: f32
  ai_y :: f32
  ai_z :: f32

definition feet_y :: "auth_input \<Rightarrow> f32" where
  "feet_y i = f32_sub (ai_y i) position_offset"

definition decode_auth_input :: "bytes \<Rightarrow> game_error + auth_input" where
  "decode_auth_input body = run_reader (
     rd_bind gr_f32 (\<lambda>pitch. rd_bind gr_f32 (\<lambda>yaw. rd_bind gr_f32 (\<lambda>x.
     rd_bind gr_f32 (\<lambda>y. rd_bind gr_f32 (\<lambda>z.
       rd_return \<lparr>ai_pitch = pitch, ai_yaw = yaw, ai_x = x, ai_y = y, ai_z = z\<rparr>)))))) body"

section \<open>Registries\<close>

definition id_available_actor_identifiers :: u32 where "id_available_actor_identifiers = 119"
definition id_biome_definition_list :: u32 where "id_biome_definition_list = 122"
definition id_item_registry :: u32 where "id_item_registry = 162"

definition empty_nbt :: bytes where "empty_nbt = [0x0a, 0x00, 0x00]"

definition empty_item_registry :: packet where
  "empty_item_registry = new_packet id_item_registry (gw_varint 0 gw_new)"

definition empty_actor_identifiers :: packet where
  "empty_actor_identifiers = new_packet id_available_actor_identifiers empty_nbt"

definition empty_biome_definitions :: packet where
  "empty_biome_definitions = new_packet id_biome_definition_list (gw_varint 0 (gw_varint 0 gw_new))"

definition all_empty_registries :: "packet list" where
  "all_empty_registries = [empty_item_registry, empty_actor_identifiers, empty_biome_definitions]"

section \<open>Round trips\<close>

lemma run_reader_reads: "reads m b v \<Longrightarrow> length b \<le> usize_max \<Longrightarrow> run_reader m b = Inr v"
  using readsD[of m b v "[]" "[]"] by (simp add: run_reader_def gr_new_def)

lemma compression_round_trip: "compression_from_value (compression_value c) = Some c"
  by (cases c) (simp_all add: compression_from_value_def)

lemma status_round_trip: "status_from_value (status_value s) = Some s"
  by (cases s) (simp_all add: status_from_value_def)

lemma network_settings_round_trip: "decode_network_settings (encode_network_settings s) = Inr s"
proof -
  let ?enc = "le_bytes 2 (compression_threshold s) @ le_bytes 2 (compression_value (ns_compression s))
    @ [if client_throttle_enabled s then 1 else 0] @ [client_throttle_threshold s] @ le_bytes 4 (client_throttle_scalar s)"
  have "reads (rd_bind gr_u16 (\<lambda>threshold. rd_bind gr_u16 (\<lambda>c. rd_bind gr_u8 (\<lambda>enabled.
     rd_bind gr_u8 (\<lambda>throttle. rd_bind gr_f32 (\<lambda>scalar.
       rd_return \<lparr>compression_threshold = threshold,
         ns_compression = (case compression_from_value c of None \<Rightarrow> NoCompression | Some c \<Rightarrow> c),
         client_throttle_enabled = (enabled \<noteq> 0), client_throttle_threshold = throttle,
         client_throttle_scalar = scalar\<rparr>)))))) ?enc s"
    by (rule reads_bind[OF reads_gr_fixed(2)], rule reads_bind[OF reads_gr_fixed(2)],
        rule reads_bind[OF reads_gr_fixed(1)], rule reads_bind[OF reads_gr_fixed(1)],
        rule reads_bind_nil[OF reads_gr_fixed(3)]) (cases s, simp add: compression_round_trip)
  from run_reader_reads[OF this] show ?thesis
    by (simp add: decode_network_settings_def encode_network_settings_def game_writer_defs Let_def usize_max_def)
qed

lemma handshake_token_round_trip:
  assumes "utf8_valid token" "length token < 2 ^ 32"
  shows "decode_handshake_token (pk_body (server_to_client_handshake token)) = Inr token"
proof -
  have "reads (rd_bind gr_prefixed (\<lambda>b. if utf8_valid b then rd_return b else rd_fail (UnexpectedEnd 0 0)))
    (gw_prefixed token []) token"
    by (rule reads_bind_nil[OF reads_prefixed[OF assms(2)]]) (simp add: assms(1))
  moreover have "length (gw_prefixed token []) \<le> 5 + length token"
    using length_gw_varint(2) by (simp add: gw_prefixed_def gw_bytes_def)
  ultimately show ?thesis
    using run_reader_reads assms(2)
    by (fastforce simp: decode_handshake_token_def server_to_client_handshake_def new_packet_def gw_new_def usize_max_def)
qed

lemma settings_request_reads:
  "decode_request_network_settings (encode_request_network_settings request) = Inr request"
proof -
  have eta: "\<lparr>rn_client_protocol = rn_client_protocol request\<rparr> = request" by (cases request) simp
  show ?thesis
    unfolding decode_request_network_settings_def
    by (rule run_reader_reads, simp only: encode_request_network_settings_def game_writer_defs append_Nil,
        rule reads_bind_nil[OF reads_gr_fixed(5)])
      (simp_all add: encode_request_network_settings_def game_writer_defs usize_max_def eta)
qed

text \<open>What the server says while a connection opens, the client reads back: the settings that
  decide compression, the handshake token and the verdict on the login; and what the client asked is
  read as it was written.\<close>

lemma opening_packets_round_trip:
  assumes "utf8_valid token" "length token < 2 ^ 32"
  shows "decode_network_settings (encode_network_settings settings) = Inr settings
    \<and> decode_request_network_settings (encode_request_network_settings request) = Inr request
    \<and> decode_handshake_token (pk_body (server_to_client_handshake token)) = Inr token
    \<and> decode_status (encode_status status) = Inr (Some status)"
proof -
  have "decode_status (encode_status status) = Inr (Some status)"
    unfolding decode_status_def
    by (rule run_reader_reads, simp only: encode_status_def game_writer_defs append_Nil,
        rule reads_bind_nil[OF reads_gr_fixed(5)])
      (simp_all add: encode_status_def game_writer_defs usize_max_def status_round_trip)
  then show ?thesis
    using network_settings_round_trip settings_request_reads handshake_token_round_trip[OF assms] by blast
qed

section \<open>The login body\<close>

text \<open>The layout a client sends.\<close>

definition login_blob :: "bytes \<Rightarrow> bytes \<Rightarrow> bytes" where
  "login_blob identity client_data =
     (le_bytes 4 (of_nat (length identity) :: u32) @ identity)
     @ le_bytes 4 (of_nat (length client_data) :: u32) @ client_data"

definition login_body :: "u32 \<Rightarrow> bytes \<Rightarrow> bytes \<Rightarrow> bytes" where
  "login_body p identity client_data = be_bytes 4 p @ gw_prefixed (login_blob identity client_data) []"

lemma reads_login_section:
  assumes "length b < 2 ^ 32" "length b \<le> limit" "utf8_valid b"
  shows "reads (login_section name limit) (le_bytes 4 (of_nat (length b) :: u32) @ b) b"
proof -
  have "unat (of_nat (length b) :: u32) = length b" using assms(1) by (simp add: unat_of_nat_small)
  then show ?thesis
    unfolding login_section_def using assms
    by (auto intro!: reads_bind[OF reads_err[OF reads_gr_fixed(4)]] reads_bind_nil[OF reads_err[OF reads_gr_bytes]])
qed

lemma login_section_Inr:
  assumes "login_section name limit r = (Inr b, r')"
  shows "length b \<le> limit \<and> utf8_valid b"
  using assms by (auto simp: login_section_def rd_Inr gr_bytes_wire read_bytes_Inr split: if_splits)

lemma fst_eq_Inr: "fst x = Inr a \<longleftrightarrow> (\<exists>r. x = (Inr a, r))"
  by (cases x) auto

lemma section_too_large:
  assumes "length b < 2 ^ 32" "limit < length b"
    "length (pre @ le_bytes 4 (of_nat (length b) :: u32) @ post) \<le> usize_max"
  shows "fst (login_section name limit \<lparr>buf = pre @ le_bytes 4 (of_nat (length b) :: u32) @ post, pos = length pre\<rparr>)
    = Inl (TooLarge name (length b) limit)"
proof -
  have "unat (of_nat (length b) :: u32) = length b" using assms(1) by (simp add: unat_of_nat_small)
  then show ?thesis
    using readsD[OF reads_gr_fixed(4), of pre "of_nat (length b)" post] assms
    by (simp add: login_section_def rd_bind_def rd_err_def rd_fail_def)
qed

lemma decode_login_blob:
  assumes "length (login_blob identity client_data) < 2 ^ 32"
  shows "decode_login (login_body p identity client_data) limits
    = fst (rd_bind (login_section ''identity'' (max_identity limits)) (\<lambda>identity.
        rd_bind (login_section ''client data'' (max_client_data limits)) (\<lambda>client_data.
          rd_return \<lparr>lg_client_protocol = p, lg_identity = identity, lg_client_data = client_data\<rparr>))
        (gr_new (login_blob identity client_data)))"
proof -
  let ?blob = "login_blob identity client_data" and ?body = "login_body p identity client_data"
  have body: "length ?body \<le> usize_max"
    using assms length_gw_varint(2)[of "u32_or_max (length ?blob)"]
    by (simp add: login_body_def gw_prefixed_def gw_bytes_def usize_max_def)
  have hd: "gr_u32_be (gr_new ?body) = (Inr p, \<lparr>buf = ?body, pos = 4\<rparr>)"
    using readsD[OF reads_gr_fixed(5)[of p], of "[]" "gw_prefixed ?blob []"] body by (simp add: gr_new_def login_body_def)
  have tl: "gr_prefixed \<lparr>buf = ?body, pos = 4\<rparr> = (Inr ?blob, \<lparr>buf = ?body, pos = length ?body\<rparr>)"
    using readsD[OF reads_prefixed[OF assms], of "be_bytes 4 p" "[]"] body by (simp add: login_body_def)
  show ?thesis
    by (simp add: decode_login_def rd_bind_def[of "rd_err Malformed gr_u32_be"] rd_bind_def[of "rd_err Malformed gr_prefixed"]
        rd_err_def[of Malformed gr_u32_be] rd_err_def[of Malformed gr_prefixed] hd tl)
qed

lemma login_body_reads:
  assumes "length identity < 2 ^ 30" "length client_data < 2 ^ 30" "utf8_valid identity" "utf8_valid client_data"
  shows "decode_login (login_body p identity client_data) limits =
      (if max_identity limits < length identity
       then Inl (TooLarge ''identity'' (length identity) (max_identity limits))
       else if max_client_data limits < length client_data
       then Inl (TooLarge ''client data'' (length client_data) (max_client_data limits))
       else Inr \<lparr>lg_client_protocol = p, lg_identity = identity, lg_client_data = client_data\<rparr>)"
proof -
  let ?blob = "login_blob identity client_data"
  have blob: "length ?blob < 2 ^ 32" using assms(1,2) by (simp add: login_blob_def)
  let ?i = "le_bytes 4 (of_nat (length identity) :: u32) @ identity"
  let ?c = "le_bytes 4 (of_nat (length client_data) :: u32) @ client_data"
  note bl = login_blob_def[of identity client_data]
  have u: "length ?blob \<le> usize_max" using blob by (simp add: usize_max_def)
  have first: "login_section ''identity'' (max_identity limits) (gr_new ?blob) = (Inr identity, \<lparr>buf = ?blob, pos = length ?i\<rparr>)"
    if "length identity \<le> max_identity limits"
    using readsD[OF reads_login_section[of identity "max_identity limits"], of "[]" ?c] that assms u
    by (simp add: gr_new_def bl)
  show "decode_login (login_body p identity client_data) limits =
      (if max_identity limits < length identity
       then Inl (TooLarge ''identity'' (length identity) (max_identity limits))
       else if max_client_data limits < length client_data
       then Inl (TooLarge ''client data'' (length client_data) (max_client_data limits))
       else Inr \<lparr>lg_client_protocol = p, lg_identity = identity, lg_client_data = client_data\<rparr>)"
    using section_too_large[of identity "max_identity limits" "[]" "identity @ ?c" "''identity''"] first u assms
      section_too_large[of client_data "max_client_data limits" ?i client_data "''client data''"]
      readsD[OF reads_login_section[of client_data "max_client_data limits" "''client data''"], of ?i "[]"]
    unfolding decode_login_blob[OF blob] rd_bind_def[of "login_section ''identity'' (max_identity limits)"]
      rd_bind_def[of "login_section ''client data'' (max_client_data limits)"]
    by (auto simp: gr_new_def bl rd_return_def split: prod.splits sum.splits)
qed

text \<open>C38: A login is read exactly: what comes out is valid UTF-8 within the limits whatever the bytes; and
  of a well-formed login the identity is refused when longer than its limit, then the client data
  when longer than its own, and otherwise all three fields are returned unchanged.\<close>

theorem login_read_exactly:
  assumes "length identity < 2 ^ 30" "length client_data < 2 ^ 30" "utf8_valid identity" "utf8_valid client_data"
  shows "(\<forall>body l. decode_login body limits = Inr l \<longrightarrow>
        length (lg_identity l) \<le> max_identity limits \<and> length (lg_client_data l) \<le> max_client_data limits
        \<and> utf8_valid (lg_identity l) \<and> utf8_valid (lg_client_data l))
    \<and> decode_login (login_body p identity client_data) limits =
      (if max_identity limits < length identity
       then Inl (TooLarge ''identity'' (length identity) (max_identity limits))
       else if max_client_data limits < length client_data
       then Inl (TooLarge ''client data'' (length client_data) (max_client_data limits))
       else Inr \<lparr>lg_client_protocol = p, lg_identity = identity, lg_client_data = client_data\<rparr>)"
proof -
  have "length (lg_identity l) \<le> max_identity limits \<and> length (lg_client_data l) \<le> max_client_data limits
      \<and> utf8_valid (lg_identity l) \<and> utf8_valid (lg_client_data l)" if "decode_login body limits = Inr l" for body l
    using that by (auto simp: decode_login_def fst_eq_Inr rd_Inr dest!: login_section_Inr)
  then show ?thesis using login_body_reads[OF assms] by blast
qed

lemma login_read_exactly_witness:
  "decode_login (login_body 1001 [0x7b] [0x7d, 0x7d]) \<lparr>max_identity = 1, max_client_data = 1\<rparr>
     = Inl (TooLarge ''client data'' 2 1)"
  using login_read_exactly[of "[0x7b]" "[0x7d, 0x7d]" "\<lparr>max_identity = 1, max_client_data = 1\<rparr>" 1001]
  by (simp add: utf8_width_def)

end
