(* ===== verification/Ordmap.thy ===== *)
theory Ordmap
  imports Prelude
begin

text \<open>
  \<^verbatim>\<open>BTreeMap\<close> and \<^verbatim>\<open>HashMap\<close> of \<^verbatim>\<open>std::collections\<close>, as far as the crates use them.

  \<^verbatim>\<open>BTreeMap\<close>: ordered by key, one value a
  key, iterated in key order.  The model is the list of entries in key order.

  \<^verbatim>\<open>HashMap\<close>: one value a key, iterated in no particular order.  The model is the list of
  entries, and whoever iterates over it says in which order.

  The locale \<open>finite_map\<close> states what the components rely on (what a lookup returns after an
  insertion or a removal, and that the entries agree with lookup) and derives the counting and
  summing facts their bounds need; \<open>ord_map\<close> extends it with sorted iteration.  Both are
  interpreted on the models below.
\<close>

section \<open>The interface\<close>

locale finite_map =
  fixes emp :: "'m"
    and get :: "'m \<Rightarrow> 'k \<Rightarrow> 'v option"
    and ins :: "'k \<Rightarrow> 'v \<Rightarrow> 'm \<Rightarrow> 'm"
    and del :: "'k \<Rightarrow> 'm \<Rightarrow> 'm"
    and entries :: "'m \<Rightarrow> ('k \<times> 'v) list"
    and invar :: "'m \<Rightarrow> bool"
  assumes invar_emp: "invar emp"
    and invar_ins: "invar m \<Longrightarrow> invar (ins k v m)"
    and invar_del: "invar m \<Longrightarrow> invar (del k m)"
    and get_emp: "get emp = Map.empty"
    and get_ins: "invar m \<Longrightarrow> get (ins k v m) = (get m)(k \<mapsto> v)"
    and get_del: "invar m \<Longrightarrow> get (del k m) = (get m)(k := None)"
    and entries_distinct: "invar m \<Longrightarrow> distinct (map fst (entries m))"
    and entries_get: "invar m \<Longrightarrow> map_of (entries m) = get m"
begin

lemma dom_entries: "invar m \<Longrightarrow> dom (get m) = fst ` set (entries m)"
  by (metis dom_map_of_conv_image_fst entries_get)

lemma finite_dom: "invar m \<Longrightarrow> finite (dom (get m))"
  by (simp add: dom_entries)

lemma length_entries: "invar m \<Longrightarrow> length (entries m) = card (dom (get m))"
  using entries_distinct[of m] distinct_card[of "map fst (entries m)"] dom_entries[of m] by simp

lemma in_entries_iff: "invar m \<Longrightarrow> (k, v) \<in> set (entries m) \<longleftrightarrow> get m k = Some v"
  by (metis entries_distinct entries_get map_of_eq_Some_iff)

lemma length_ins:
  "invar m \<Longrightarrow> length (entries (ins k v m))
     = (if get m k = None then Suc (length (entries m)) else length (entries m))"
  by (auto simp: length_entries invar_ins get_ins finite_dom card_insert_if domIff)

lemma length_ins_le: "invar m \<Longrightarrow> length (entries (ins k v m)) \<le> Suc (length (entries m))"
  by (simp add: length_ins)

lemma length_del:
  "invar m \<Longrightarrow> length (entries (del k m))
     = (if get m k = None then length (entries m) else length (entries m) - 1)"
  by (auto simp: length_entries invar_del get_del finite_dom card_Diff_singleton_if domIff
      simp flip: Diff_insert_absorb)

lemma sum_entries:
  assumes "invar m"
  shows "sum_list (map g (entries m)) = (\<Sum>k \<in> dom (get m). g (k, the (get m k)))"
proof -
  have inj: "inj_on fst (set (entries m))" and d: "distinct (entries m)"
    using entries_distinct[OF assms] by (simp_all add: distinct_map)
  have "sum_list (map g (entries m)) = (\<Sum>p \<in> set (entries m). g p)"
    using d by (simp add: sum_list_distinct_conv_sum_set)
  also have "\<dots> = (\<Sum>p \<in> set (entries m). g (fst p, the (get m (fst p))))"
  proof (rule sum.cong[OF refl])
    fix p assume "p \<in> set (entries m)"
    then show "g p = g (fst p, the (get m (fst p)))"
      using in_entries_iff[OF assms, of "fst p" "snd p"] by simp
  qed
  also have "\<dots> = (\<Sum>k \<in> fst ` set (entries m). g (k, the (get m k)))"
    using inj by (simp add: sum.reindex)
  finally show ?thesis by (simp add: dom_entries[OF assms])
qed

lemma sum_ins_fresh:
  fixes g :: "'k \<times> 'v \<Rightarrow> nat"
  assumes "invar m" "get m k = None"
  shows "sum_list (map g (entries (ins k v m))) = g (k, v) + sum_list (map g (entries m))"
proof -
  have "k \<notin> dom (get m)" using assms(2) by (simp add: domIff)
  moreover have "(\<Sum>j \<in> dom (get m). g (j, the (((get m)(k \<mapsto> v)) j)))
    = (\<Sum>j \<in> dom (get m). g (j, the (get m j)))"
    using \<open>k \<notin> dom (get m)\<close> by (intro sum.cong) auto
  ultimately show ?thesis
    using assms by (simp add: sum_entries invar_ins get_ins finite_dom)
qed

lemma sum_del:
  fixes g :: "'k \<times> 'v \<Rightarrow> nat"
  assumes "invar m" "get m k = Some v"
  shows "sum_list (map g (entries m)) = g (k, v) + sum_list (map g (entries (del k m)))"
proof -
  have k: "k \<in> dom (get m)" using assms(2) by (simp add: domIff)
  have "(\<Sum>j \<in> dom (get m) - {k}. g (j, the (((get m)(k := None)) j)))
    = (\<Sum>j \<in> dom (get m) - {k}. g (j, the (get m j)))"
    by (intro sum.cong) auto
  then show ?thesis
    using assms k by (simp add: sum_entries invar_del get_del finite_dom sum.remove[of _ k])
qed

lemma sum_ins_present:
  fixes g :: "'k \<times> 'v \<Rightarrow> nat"
  assumes "invar m" "get m k = Some u"
  shows "sum_list (map g (entries (ins k v m))) + g (k, u)
    = g (k, v) + sum_list (map g (entries m))"
proof -
  have k: "k \<in> dom (get m)" using assms(2) by (simp add: domIff)
  have d: "insert k (dom (get m)) = dom (get m)" using k by auto
  have "(\<Sum>j \<in> dom (get m) - {k}. g (j, the (((get m)(k \<mapsto> v)) j)))
    = (\<Sum>j \<in> dom (get m) - {k}. g (j, the (get m j)))"
    by (intro sum.cong) auto
  then show ?thesis
    using assms k d
    by (simp add: sum_entries invar_ins get_ins finite_dom sum.remove[of _ k])
qed

end

locale ord_map = finite_map emp get ins del entries invar
  for emp :: "'m" and get :: "'m \<Rightarrow> 'k::linorder \<Rightarrow> 'v option" and ins :: "'k \<Rightarrow> 'v \<Rightarrow> 'm \<Rightarrow> 'm"
    and del :: "'k \<Rightarrow> 'm \<Rightarrow> 'm" and entries :: "'m \<Rightarrow> ('k \<times> 'v) list" and invar :: "'m \<Rightarrow> bool" +
  assumes entries_sorted: "invar m \<Longrightarrow> sorted_wrt (<) (map fst (entries m))"
begin

text \<open>The entries are determined by the lookup function.\<close>

lemma entries_determined:
  assumes "invar m" "sorted_wrt (<) (map fst es)" "map_of es = get m"
  shows "entries m = es"
proof -
  have d: "distinct (map fst es)" using assms(2) strict_sorted_iff by blast
  have s: "set (map fst (entries m)) = set (map fst es)"
    using assms dom_entries[OF assms(1)] by (metis dom_map_of_conv_image_fst list.set_map)
  have keys: "map fst (entries m) = map fst es"
    using s entries_sorted[OF assms(1)] assms(2) strict_sorted_equal by blast
  show ?thesis
  proof (rule nth_equalityI)
    show len: "length (entries m) = length es" using keys by (metis length_map)
    fix i assume i: "i < length (entries m)"
    have k: "fst (entries m ! i) = fst (es ! i)"
      using keys i len by (metis nth_map)
    have "get m (fst (entries m ! i)) = Some (snd (entries m ! i))"
      using in_entries_iff[OF assms(1)] i by (metis nth_mem prod.collapse)
    moreover have "get m (fst (es ! i)) = Some (snd (es ! i))"
      using assms(3) d i len by (metis map_of_is_SomeI nth_mem prod.collapse)
    ultimately show "entries m ! i = es ! i"
      using k by (metis option.inject prod.collapse)
  qed
qed

end

section \<open>The model of BTreeMap\<close>

type_synonym ('k, 'v) btree = "('k \<times> 'v) list"

definition bt_new :: "('k, 'v) btree" where
  "bt_new = []"

definition bt_get :: "('k, 'v) btree \<Rightarrow> 'k \<Rightarrow> 'v option" where
  "bt_get m = map_of m"

fun bt_insert :: "'k::linorder \<Rightarrow> 'v \<Rightarrow> ('k, 'v) btree \<Rightarrow> ('k, 'v) btree" where
  "bt_insert k v [] = [(k, v)]"
| "bt_insert k v ((k', v') # m) =
     (if k < k' then (k, v) # (k', v') # m
      else if k = k' then (k, v) # m
      else (k', v') # bt_insert k v m)"

definition bt_remove :: "'k \<Rightarrow> ('k, 'v) btree \<Rightarrow> ('k, 'v) btree" where
  "bt_remove k m = filter (\<lambda>(k', _). k' \<noteq> k) m"

definition bt_entries :: "('k, 'v) btree \<Rightarrow> ('k \<times> 'v) list" where
  "bt_entries m = m"

definition bt_len :: "('k, 'v) btree \<Rightarrow> nat" where
  "bt_len m = length m"

definition bt_values :: "('k, 'v) btree \<Rightarrow> 'v list" where
  "bt_values m = map snd m"

definition bt_retain :: "('k \<Rightarrow> 'v \<Rightarrow> bool) \<Rightarrow> ('k, 'v) btree \<Rightarrow> ('k, 'v) btree" where
  "bt_retain p m = filter (\<lambda>(k, v). p k v) m"

text \<open>\<^verbatim>\<open>values_mut\<close>, every value replaced in place.\<close>

definition bt_map_values :: "('v \<Rightarrow> 'v) \<Rightarrow> ('k, 'v) btree \<Rightarrow> ('k, 'v) btree" where
  "bt_map_values f m = map (\<lambda>(k, v). (k, f v)) m"

text \<open>
  The keys of \<^verbatim>\<open>m.range(start..=end)\<close>.  The standard library documents that \<^verbatim>\<open>range\<close>
  panics when the start is greater than the end.
\<close>

definition bt_range_keys :: "'k::linorder \<Rightarrow> 'k \<Rightarrow> ('k, 'v) btree \<Rightarrow> 'k list option" where
  "bt_range_keys a b m =
     (if a > b then None else Some (filter (\<lambda>k. a \<le> k \<and> k \<le> b) (map fst m)))"

definition bt_ok :: "('k::linorder, 'v) btree \<Rightarrow> bool" where
  "bt_ok m \<longleftrightarrow> sorted_wrt (<) (map fst m)"

lemma keys_bt_insert: "fst ` set (bt_insert k v m) = insert k (fst ` set m)"
  by (induction k v m rule: bt_insert.induct) auto

lemma bt_ok_insert: "bt_ok m \<Longrightarrow> bt_ok (bt_insert k v m)"
proof (induction k v m rule: bt_insert.induct)
  case (1 k v)
  then show ?case by (simp add: bt_ok_def)
next
  case (2 k v k' v' m)
  have "\<forall>j \<in> fst ` set (bt_insert k v m). k' < j" if "k' < k"
    using that 2(2) by (auto simp: keys_bt_insert bt_ok_def)
  with 2 show ?case by (auto simp: bt_ok_def)
qed

lemma map_of_bt_insert: "bt_ok m \<Longrightarrow> map_of (bt_insert k v m) = (map_of m)(k \<mapsto> v)"
  by (induction k v m rule: bt_insert.induct) (auto simp: bt_ok_def fun_eq_iff)

lemma map_of_filter_key: "map_of (filter (\<lambda>(k', _). k' \<noteq> k) m) = (map_of m)(k := None)"
  by (induction m) (auto simp: fun_eq_iff)

lemma bt_ok_filter: "bt_ok m \<Longrightarrow> bt_ok (filter p m)"
  by (induction m) (auto simp: bt_ok_def)

interpretation bt: ord_map bt_new bt_get bt_insert bt_remove bt_entries bt_ok
proof unfold_locales
  show "bt_ok bt_new" by (simp add: bt_ok_def bt_new_def)
  show "bt_get bt_new = Map.empty" by (simp add: bt_get_def bt_new_def)
  fix m :: "('k::linorder, 'v) btree" and k v
  assume m: "bt_ok m"
  show "bt_ok (bt_insert k v m)" using m by (rule bt_ok_insert)
  show "bt_ok (bt_remove k m)" using m by (simp add: bt_remove_def bt_ok_filter)
  show "bt_get (bt_insert k v m) = (bt_get m)(k \<mapsto> v)"
    using m by (simp add: bt_get_def map_of_bt_insert)
  show "bt_get (bt_remove k m) = (bt_get m)(k := None)"
    by (simp add: bt_get_def bt_remove_def map_of_filter_key)
  show "sorted_wrt (<) (map fst (bt_entries m))" using m by (simp add: bt_entries_def bt_ok_def)
  then show "distinct (map fst (bt_entries m))" using strict_sorted_iff by blast
  show "map_of (bt_entries m) = bt_get m" by (simp add: bt_entries_def bt_get_def)
qed

lemmas bt_length = bt.length_ins[unfolded bt_entries_def] bt.length_del[unfolded bt_entries_def]

lemma bt_len_card: "bt_ok m \<Longrightarrow> bt_len m = card (dom (bt_get m))"
  using bt.length_entries[of m] by (simp add: bt_entries_def bt_len_def)

lemma bt_len_insert:
  "bt_ok m \<Longrightarrow> bt_len (bt_insert k v m) = (if bt_get m k = None then Suc (bt_len m) else bt_len m)"
  using bt.length_ins[of m k v] by (simp add: bt_entries_def bt_len_def)

lemma bt_len_remove:
  "bt_ok m \<Longrightarrow> bt_len (bt_remove k m) = (if bt_get m k = None then bt_len m else bt_len m - 1)"
  using bt.length_del[of m k] by (simp add: bt_entries_def bt_len_def)

lemma bt_get_retain:
  "bt_ok m \<Longrightarrow> bt_get (bt_retain p m) k
     = (case bt_get m k of None \<Rightarrow> None | Some v \<Rightarrow> if p k v then Some v else None)"
proof (induction m)
  case Nil
  then show ?case by (simp add: bt_get_def bt_retain_def)
next
  case (Cons x m)
  obtain k' v' where x: "x = (k', v')" by fastforce
  have ok: "bt_ok m" using Cons.prems by (simp add: bt_ok_def)
  have notin: "map_of m k' = None"
    using Cons.prems x by (auto simp: bt_ok_def map_of_eq_None_iff)
  then have "map_of (filter (\<lambda>(k, v). p k v) m) k' = None"
    by (auto simp: map_of_eq_None_iff)
  with Cons.IH[OF ok] x notin show ?case by (auto simp: bt_get_def bt_retain_def)
qed

lemma map_fst_bt_map_values: "map fst (bt_map_values f m) = map fst m"
  by (simp add: bt_map_values_def comp_def case_prod_unfold)

lemma bt_ok_map_values: "bt_ok (bt_map_values f m) = bt_ok m"
  by (simp add: bt_ok_def map_fst_bt_map_values)

lemma bt_len_map_values [simp]: "bt_len (bt_map_values f m) = bt_len m"
  by (simp add: bt_len_def bt_map_values_def)

lemma bt_get_map_values: "bt_get (bt_map_values f m) k = map_option f (bt_get m k)"
  by (induction m) (auto simp: bt_get_def bt_map_values_def)

lemma bt_values_map_values: "bt_values (bt_map_values f m) = map f (bt_values m)"
  by (simp add: bt_values_def bt_map_values_def comp_def case_prod_unfold)

lemma bt_values_get: "bt_ok m \<Longrightarrow> v \<in> set (bt_values m) \<longleftrightarrow> (\<exists>k. bt_get m k = Some v)"
  using bt.in_entries_iff[of m] by (force simp: bt_values_def bt_entries_def)

lemma bt_retain_le: "length (bt_retain p m) \<le> length m"
  by (simp add: bt_retain_def)

lemma bt_ok_retain: "bt_ok m \<Longrightarrow> bt_ok (bt_retain p m)"
  by (simp add: bt_retain_def bt_ok_filter)

lemma bt_ok_new [simp]: "bt_ok bt_new"
  by (rule bt.invar_emp)

lemma bt_new_simps [simp]: "bt_get bt_new k = None" "bt_len bt_new = 0" "bt_values bt_new = []"
  "dom (bt_get bt_new) = {}"
  by (simp_all add: bt_get_def bt_new_def bt_len_def bt_values_def)

text \<open>Two maps with the same lookups are the same map.\<close>

lemma bt_ext:
  assumes "bt_ok m" "bt_ok m'" "bt_get m = bt_get m'"
  shows "m = m'"
  using bt.entries_determined[of m m'] assms by (simp add: bt_entries_def bt_get_def bt_ok_def)

lemma bt_insert_twice: "bt_insert k v (bt_insert k u m) = bt_insert k v m"
  by (induction k u m rule: bt_insert.induct) auto

lemma bt_remove_insert: "bt_ok m \<Longrightarrow> bt_remove k (bt_insert k v m) = bt_remove k m"
  by (rule bt_ext) (simp_all add: bt.get_del bt.get_ins bt.invar_ins bt.invar_del)

lemma bt_remove_absent: "bt_ok m \<Longrightarrow> bt_get m k = None \<Longrightarrow> bt_remove k m = m"
  by (rule bt_ext) (auto simp: bt.get_del bt.invar_del)

text \<open>A map over the keys \<open>0, \<dots>, n - 1\<close> lists its values in index order.\<close>

lemma bt_dense_values:
  fixes m :: "(u32, 'v) btree"
  assumes "bt_ok m" "n < 2 ^ 32" "\<And>i. i < n \<Longrightarrow> bt_get m (of_nat i) = Some (f i)" "bt_len m = n"
  shows "bt_values m = map f [0..<n]"
proof -
  let ?es = "map (\<lambda>i. (of_nat i :: u32, f i)) [0..<n]"
  have lt: "(of_nat i :: u32) < of_nat j" if "i < j" "j < n" for i j
    using that assms(2) by (simp add: word_less_nat_alt unat_of_nat_small)
  have s: "sorted_wrt (<) (map fst ?es)"
    by (auto simp: sorted_wrt_iff_nth_less lt)
  have d: "distinct (map fst ?es)" using s strict_sorted_iff by blast
  have "set ?es \<subseteq> set m"
    using assms(3) by (auto simp: bt_get_def intro!: map_of_SomeD)
  moreover have "distinct ?es" using d distinct_map by blast
  then have "card (set ?es) = length ?es" by (rule distinct_card)
  then have "card (set ?es) = n" by simp
  moreover have "card (set m) = n" "finite (set m)"
    using bt.entries_distinct[OF assms(1)] assms(4)
    by (simp_all add: bt_entries_def bt_len_def distinct_map distinct_card)
  ultimately have "set ?es = set m" by (metis card_subset_eq)
  then have "map_of ?es = bt_get m"
    using d bt.entries_distinct[OF assms(1)]
    by (metis bt_entries_def bt_get_def map_of_inject_set)
  from bt.entries_determined[OF assms(1) s this] show ?thesis
    by (simp add: bt_entries_def bt_values_def comp_def)
qed

section \<open>The model of HashMap\<close>

type_synonym ('k, 'v) hash_map = "('k \<times> 'v) list"

definition hm_new :: "('k, 'v) hash_map" where
  "hm_new = []"

definition hm_get :: "('k, 'v) hash_map \<Rightarrow> 'k \<Rightarrow> 'v option" where
  "hm_get m = map_of m"

text \<open>An insertion keeps the place of a key that is there, as assigning through \<^verbatim>\<open>get_mut\<close> does.\<close>

fun hm_insert :: "'k \<Rightarrow> 'v \<Rightarrow> ('k, 'v) hash_map \<Rightarrow> ('k, 'v) hash_map" where
  "hm_insert k v [] = [(k, v)]"
| "hm_insert k v ((k', v') # m) = (if k = k' then (k, v) # m else (k', v') # hm_insert k v m)"

definition hm_remove :: "'k \<Rightarrow> ('k, 'v) hash_map \<Rightarrow> ('k, 'v) hash_map" where
  "hm_remove k m = filter (\<lambda>(k', _). k' \<noteq> k) m"

definition hm_entries :: "('k, 'v) hash_map \<Rightarrow> ('k \<times> 'v) list" where
  "hm_entries m = m"

definition hm_len :: "('k, 'v) hash_map \<Rightarrow> nat" where
  "hm_len m = length m"

definition hm_retain :: "('k \<Rightarrow> 'v \<Rightarrow> bool) \<Rightarrow> ('k, 'v) hash_map \<Rightarrow> ('k, 'v) hash_map" where
  "hm_retain p m = filter (\<lambda>(k, v). p k v) m"

definition hm_ok :: "('k, 'v) hash_map \<Rightarrow> bool" where
  "hm_ok m \<longleftrightarrow> distinct (map fst m)"

lemma keys_hm_insert: "fst ` set (hm_insert k v m) = insert k (fst ` set m)"
  by (induction k v m rule: hm_insert.induct) auto

lemma hm_ok_insert: "hm_ok m \<Longrightarrow> hm_ok (hm_insert k v m)"
proof (induction k v m rule: hm_insert.induct)
  case (2 k v k' v' m)
  have "k' \<notin> fst ` set (hm_insert k v m)" if "k \<noteq> k'"
    using 2(2) that by (simp add: keys_hm_insert hm_ok_def)
  then show ?case using 2 by (simp add: hm_ok_def)
qed (simp add: hm_ok_def)

lemma map_of_hm_insert: "map_of (hm_insert k v m) = (map_of m)(k \<mapsto> v)"
  by (induction k v m rule: hm_insert.induct) (auto simp: fun_eq_iff)

lemma hm_ok_filter: "hm_ok m \<Longrightarrow> hm_ok (filter p m)"
  by (simp add: hm_ok_def distinct_map_filter)

interpretation hm: finite_map hm_new hm_get hm_insert hm_remove hm_entries hm_ok
proof unfold_locales
  show "hm_ok hm_new" by (simp add: hm_ok_def hm_new_def)
  show "hm_get hm_new = Map.empty" by (simp add: hm_get_def hm_new_def)
  fix m :: "('k, 'v) hash_map" and k v
  assume m: "hm_ok m"
  show "hm_ok (hm_insert k v m)" using m by (rule hm_ok_insert)
  show "hm_ok (hm_remove k m)" using m by (simp add: hm_remove_def hm_ok_filter)
  show "hm_get (hm_insert k v m) = (hm_get m)(k \<mapsto> v)" by (simp add: hm_get_def map_of_hm_insert)
  show "hm_get (hm_remove k m) = (hm_get m)(k := None)"
    by (simp add: hm_get_def hm_remove_def map_of_filter_key)
  show "distinct (map fst (hm_entries m))" using m by (simp add: hm_entries_def hm_ok_def)
  show "map_of (hm_entries m) = hm_get m" by (simp add: hm_entries_def hm_get_def)
qed

lemma hm_len_insert:
  "hm_ok m \<Longrightarrow> hm_len (hm_insert k v m) = (if hm_get m k = None then Suc (hm_len m) else hm_len m)"
  using hm.length_ins[of m k v] by (simp add: hm_entries_def hm_len_def)

lemma hm_len_remove_le: "hm_len (hm_remove k m) \<le> hm_len m"
  by (simp add: hm_len_def hm_remove_def)

lemma hm_ok_retain: "hm_ok m \<Longrightarrow> hm_ok (hm_retain p m)"
  by (simp add: hm_retain_def hm_ok_filter)

lemma hm_get_retain:
  "hm_ok m \<Longrightarrow> hm_get (hm_retain p m) k
     = (case hm_get m k of None \<Rightarrow> None | Some v \<Rightarrow> if p k v then Some v else None)"
proof (induction m)
  case Nil
  then show ?case by (simp add: hm_get_def hm_retain_def)
next
  case (Cons x m)
  obtain k' v' where x: "x = (k', v')" by fastforce
  have ok: "hm_ok m" and "map_of m k' = None"
    using Cons.prems x by (auto simp: hm_ok_def map_of_eq_None_iff)
  moreover from this have "map_of (filter (\<lambda>(k, v). p k v) m) k' = None"
    by (auto simp: map_of_eq_None_iff)
  ultimately show ?case using Cons.IH[OF ok] x by (auto simp: hm_get_def hm_retain_def)
qed

end
