(* ===== verification/Blocks.thy ===== *)
theory Blocks
  imports GamePackets Ordmap "HOL-Library.List_Lexorder"
begin

text \<open>
  \<^verbatim>\<open>bedrock-blocks/src/lib.rs\<close>, what a block is, and \<^verbatim>\<open>bedrock-protocol/src/palette.rs\<close>, the
  number it has on the wire.  Names are byte strings, ordered as \<^verbatim>\<open>str::cmp\<close> orders them.

  \<open>block_store\<close> is the interface of everything that holds blocks at positions: a section, a column
  and the world provide it.
\<close>

datatype block_value = VBool bool | VInt i32 | VText bytes

record block =
  bl_name :: bytes
  bl_properties :: "(bytes \<times> block_value) list"

definition block_new :: "bytes \<Rightarrow> block" where
  "block_new name = \<lparr>bl_name = name, bl_properties = []\<rparr>"

text \<open>\<^verbatim>\<open>dedup_by\<close>: of neighbours with the same name the first stays.\<close>

fun dedup_names :: "(bytes \<times> block_value) list \<Rightarrow> (bytes \<times> block_value) list" where
  "dedup_names (a # b # ps) = (if fst a = fst b then dedup_names (a # ps) else a # dedup_names (b # ps))"
| "dedup_names ps = ps"

definition block_with_properties :: "bytes \<Rightarrow> (bytes \<times> block_value) list \<Rightarrow> block" where
  "block_with_properties name ps = \<lparr>bl_name = name, bl_properties = dedup_names (sort_key fst ps)\<rparr>"

definition block_property :: "block \<Rightarrow> bytes \<Rightarrow> block_value option" where
  "block_property b name = map_option snd (find (\<lambda>(key, _). key = name) (bl_properties b))"

definition air :: block where
  "air = block_new (ascii ''minecraft:air'')"

definition stone :: block where
  "stone = block_new (ascii ''minecraft:stone'')"

definition is_air :: "block \<Rightarrow> bool" where
  "is_air b \<longleftrightarrow> bl_name b = bl_name air"

section \<open>Runtime ids\<close>

definition runtime_id_air :: i32 where "runtime_id_air = 13094"
definition runtime_id_stone :: i32 where "runtime_id_stone = 2706"

definition block_runtime_id :: "block \<Rightarrow> i32 option" where
  "block_runtime_id b =
     (if bl_properties b \<noteq> [] then None
      else if bl_name b = ascii ''minecraft:air'' then Some runtime_id_air
      else if bl_name b = ascii ''minecraft:stone'' then Some runtime_id_stone
      else None)"

section \<open>A block described twice is one block\<close>

lemma dedup_names_facts:
  "sorted (map fst ps) \<Longrightarrow> sorted_wrt (<) (map fst (dedup_names ps))
     \<and> fst ` set (dedup_names ps) = fst ` set ps \<and> map_of (dedup_names ps) = map_of ps"
proof (induction ps rule: dedup_names.induct)
  case (1 a b ps)
  show ?case
  proof (cases "fst a = fst b")
    case True
    then have "map_of (a # b # ps) = map_of (a # ps)" by (cases a; cases b) (auto simp: fun_eq_iff)
    then show ?thesis using 1 True by auto
  next
    case False
    have lt: "\<forall>k \<in> fst ` set (b # ps). fst a < k"
      using 1(3) False by (fastforce simp: order.strict_iff_order)
    from 1(2)[OF False] 1(3) have ih: "sorted_wrt (<) (map fst (dedup_names (b # ps)))"
      "fst ` set (dedup_names (b # ps)) = fst ` set (b # ps)" "map_of (dedup_names (b # ps)) = map_of (b # ps)"
      by auto
    have "\<forall>k \<in> set (map fst (dedup_names (b # ps))). fst a < k" using lt ih(2) by (simp only: set_map)
    then have "sorted_wrt (<) (map fst (a # dedup_names (b # ps)))" using ih(1) by (simp only: list.map sorted_wrt.simps simp_thms)
    moreover have "map_of (a # dedup_names (b # ps)) = map_of (a # b # ps)"
      using ih(3) by (cases a) (simp only: map_of.simps)
    ultimately show ?thesis using False ih(2) by (simp only: dedup_names.simps if_False list.set image_insert simp_thms)
  qed
qed auto

lemma map_of_sort_key:
  fixes ps :: "('k::linorder \<times> 'v) list"
  shows "map_of (sort_key fst ps) k = map_of ps k"
proof -
  have "filter (\<lambda>p. fst p = k) (sort_key fst ps) = filter (\<lambda>p. fst p = k) ps"
    using sort_key_stable[of fst k ps] by simp
  moreover have "map_of qs k = map_of (filter (\<lambda>p. fst p = k) qs) k" for qs :: "('k \<times> 'v) list"
    by (induction qs) auto
  ultimately show ?thesis by metis
qed

lemma block_property_map_of: "block_property b name = map_of (bl_properties b) name"
proof -
  have "map_option snd (find (\<lambda>(key, _). key = name) ps) = map_of ps name" for ps :: "(bytes \<times> block_value) list"
    by (induction ps) auto
  then show ?thesis by (simp add: block_property_def)
qed

text \<open>However the properties of a block are listed, the block is the same: they end up strictly
  sorted by name, the first value given for a name is the one kept, and two lists that give every name
  the same first value make equal blocks.\<close>

lemma block_is_canonical:
  "sorted_wrt (<) (map fst (bl_properties (block_with_properties n ps)))
   \<and> (\<forall>k. block_property (block_with_properties n ps) k = map_of ps k)
   \<and> (map_of ps = map_of qs \<longrightarrow> block_with_properties n ps = block_with_properties n qs)"
proof -
  have sorted: "bt_ok (bl_properties (block_with_properties n rs))"
    and lookup: "map_of (bl_properties (block_with_properties n rs)) = map_of rs" for rs
    using dedup_names_facts[of "sort_key fst rs"]
    by (auto simp: block_with_properties_def bt_ok_def map_of_sort_key fun_eq_iff)
  have "block_with_properties n ps = block_with_properties n qs" if "map_of ps = map_of qs"
    using bt_ext[OF sorted[of ps] sorted[of qs]] lookup that
    by (simp add: bt_get_def) (simp add: block_with_properties_def)
  then show ?thesis using sorted[of ps] lookup[of ps] by (simp add: bt_ok_def block_property_map_of)
qed

section \<open>Where blocks are kept\<close>

fun put_all :: "('p \<Rightarrow> block \<Rightarrow> 's \<Rightarrow> 's option) \<Rightarrow> ('p \<times> block) list \<Rightarrow> 's \<Rightarrow> 's option" where
  "put_all put [] s = Some s"
| "put_all put ((p, b) # ws) s = Option.bind (put p b s) (put_all put ws)"

locale block_store =
  fixes get :: "'s \<Rightarrow> 'p \<Rightarrow> block option"
    and put :: "'p \<Rightarrow> block \<Rightarrow> 's \<Rightarrow> 's option"
    and inv :: "'s \<Rightarrow> bool"
  assumes put_inv: "inv s \<Longrightarrow> put p b s = Some s' \<Longrightarrow> inv s'"
    and put_get: "inv s \<Longrightarrow> put p b s = Some s' \<Longrightarrow> get s' = (get s)(p \<mapsto> b)"
    and put_inside: "inv s \<Longrightarrow> put p b s = Some s' \<Longrightarrow> get s p \<noteq> None"
begin

lemma put_all_inv: "inv s \<Longrightarrow> put_all put ws s = Some s' \<Longrightarrow> inv s'"
  proof (induction ws arbitrary: s)
  case (Cons w ws)
  then show ?case by (cases w) (auto simp: bind_eq_Some_conv intro: put_inv)
qed simp

text \<open>The last write to a position is what it holds; nothing else moved.\<close>

lemma get_put_all: "inv s \<Longrightarrow> put_all put ws s = Some s' \<Longrightarrow> get s' = get s ++ map_of (rev ws)"
proof (induction ws arbitrary: s)
  case (Cons w ws)
  obtain p b where w: "w = (p, b)" by fastforce
  then obtain s1 where s1: "put p b s = Some s1" "put_all put ws s1 = Some s'"
    using Cons.prems(2) by (auto simp: bind_eq_Some_conv)
  have "get s' = (get s)(p \<mapsto> b) ++ map_of (rev ws)"
    using Cons.IH[OF put_inv[OF Cons.prems(1) s1(1)] s1(2)] unfolding put_get[OF Cons.prems(1) s1(1)] .
  then show ?case by (auto simp: w map_add_def fun_eq_iff split: option.splits)
qed simp

lemma domain_fixed: "inv s \<Longrightarrow> put_all put ws s = Some s' \<Longrightarrow> dom (get s') = dom (get s)"
proof (induction ws arbitrary: s)
  case (Cons w ws)
  obtain p b where w: "w = (p, b)" by fastforce
  then obtain s1 where s1: "put p b s = Some s1" "put_all put ws s1 = Some s'"
    using Cons.prems(2) by (auto simp: bind_eq_Some_conv)
  have "dom (get s1) = dom (get s)"
    using put_get[OF Cons.prems(1) s1(1)] put_inside[OF Cons.prems(1) s1(1)] by auto
  then show ?case using Cons.IH[OF put_inv[OF Cons.prems(1) s1(1)] s1(2)] by simp
qed simp

text \<open>Only positions that hold a block can be written.\<close>

lemma put_all_inside: "inv s \<Longrightarrow> put_all put ws s = Some s' \<Longrightarrow> fst ` set ws \<subseteq> dom (get s)"
proof (induction ws arbitrary: s)
  case (Cons w ws)
  obtain p b where w: "w = (p, b)" by fastforce
  then obtain s1 where s1: "put p b s = Some s1" "put_all put ws s1 = Some s'"
    using Cons.prems(2) by (auto simp: bind_eq_Some_conv)
  have "dom (get s1) = dom (get s)" "p \<in> dom (get s)"
    using put_get[OF Cons.prems(1) s1(1)] put_inside[OF Cons.prems(1) s1(1)] by auto
  then show ?case using Cons.IH[OF put_inv[OF Cons.prems(1) s1(1)] s1(2)] by (simp add: w)
qed simp

end

end
