(* ===== verification/LevelChunk.thy ===== *)
theory LevelChunk
  imports Blocks
begin

text \<open>
  \<^verbatim>\<open>bedrock-protocol/src/level_chunk.rs\<close>: a column of the world on the wire.

  The reading side is the client's, which is not in the repository: \<open>client_subchunk\<close> and
  \<open>client_column\<close> state the format of a network subchunk (header, packed words, palette), and
  the properties say that what is written there reads back as the blocks intended.
\<close>

definition id_level_chunk :: u32 where "id_level_chunk = 58"
definition id_network_chunk_publisher_update :: u32 where "id_network_chunk_publisher_update = 121"
definition overworld_min_subchunk :: int where "overworld_min_subchunk = - 4"
definition overworld_max_subchunk :: int where "overworld_max_subchunk = 19"
definition overworld_subchunks :: nat where
  "overworld_subchunks = nat (overworld_max_subchunk - overworld_min_subchunk + 1)"
definition biome_plains :: i32 where "biome_plains = 1"
definition subchunk_height :: int where "subchunk_height = 16"
definition chunk_width :: int where "chunk_width = 16"
definition blocks_per_subchunk :: nat where
  "blocks_per_subchunk = nat (subchunk_height * chunk_width * chunk_width)"

definition write_uniform_biome :: "i32 \<Rightarrow> game_writer \<Rightarrow> game_writer" where
  "write_uniform_biome biome w = gw_zigzag32 biome (gw_u8 1 w)"

definition block_offset :: "nat \<Rightarrow> nat \<Rightarrow> nat \<Rightarrow> nat" where
  "block_offset x y z = push_bit 8 x OR push_bit 4 z OR y"

record subchunk =
  sb_palette :: "i32 list"
  sb_indices :: "u16 list option"

definition subchunk_uniform :: "i32 list \<Rightarrow> subchunk" where
  "subchunk_uniform palette = \<lparr>sb_palette = palette, sb_indices = None\<rparr>"

definition bits_per_block :: "nat \<Rightarrow> u8" where
  "bits_per_block n =
     (if n \<le> 1 then 0 else if n \<le> 2 then 1 else if n \<le> 4 then 2 else if n \<le> 8 then 3
      else if n \<le> 16 then 4 else if n \<le> 32 then 5 else if n \<le> 64 then 6
      else if n \<le> 256 then 8 else 16)"

definition write_uniform_storage :: "i32 option \<Rightarrow> game_writer \<Rightarrow> game_writer" where
  "write_uniform_storage runtime_id w =
     gw_zigzag32 (case runtime_id of Some i \<Rightarrow> i | None \<Rightarrow> runtime_id_air) (gw_u8 1 w)"

text \<open>The loop over the slots of one word; the break ends it.\<close>

fun pack_slots :: "u16 list \<Rightarrow> nat \<Rightarrow> nat \<Rightarrow> nat list \<Rightarrow> u32 \<Rightarrow> u32" where
  "pack_slots indices bits first [] packed = packed"
| "pack_slots indices bits first (slot # slots) packed =
     (let position = first + slot in
      if position \<ge> blocks_per_subchunk then packed
      else
        let index = (if position < length indices then ucast (indices ! position) else 0)
        in pack_slots indices bits first slots (packed OR push_bit (slot * bits) index))"

definition pack_word :: "u16 list \<Rightarrow> nat \<Rightarrow> nat \<Rightarrow> nat \<Rightarrow> u32" where
  "pack_word indices bits per_word word = pack_slots indices bits (word * per_word) [0..<per_word] 0"

definition write_subchunk :: "subchunk \<Rightarrow> game_writer \<Rightarrow> game_writer" where
  "write_subchunk s w =
     (let w = gw_u8 1 (gw_u8 8 w);
          uniform = (sb_indices s = None \<or> length (sb_palette s) \<le> 1)
      in if uniform
         then write_uniform_storage (case sb_palette s of [] \<Rightarrow> None | i # _ \<Rightarrow> Some i) w
         else
           let bits = bits_per_block (length (sb_palette s));
               indices = (case sb_indices s of Some indices \<Rightarrow> indices | None \<Rightarrow> []);
               w = gw_u8 (push_bit 1 bits OR 1) w;
               per_word = 32 div unat (max bits 1);
               words = div_ceil blocks_per_subchunk per_word;
               w = fold (\<lambda>word. gw_u32 (pack_word indices (unat bits) per_word word)) [0..<words] w;
               w = gw_zigzag32 (if length (sb_palette s) < 2 ^ 31 then of_nat (length (sb_palette s)) else 1) w
           in fold gw_zigzag32 (sb_palette s) w)"

definition column_payload :: "subchunk list \<Rightarrow> i32 \<Rightarrow> bytes" where
  "column_payload subchunks biome =
     (let w = fold write_subchunk subchunks gw_new;
          w = (write_uniform_biome biome ^^ overworld_subchunks) w
      in gw_u8 0 w)"

definition level_chunk :: "i32 \<Rightarrow> i32 \<Rightarrow> nat \<Rightarrow> bytes \<Rightarrow> packet" where
  "level_chunk chunk_x chunk_z subchunks payload =
     (let w = gw_zigzag32 chunk_z (gw_zigzag32 chunk_x gw_new);
          w = gw_zigzag32 0 w;
          w = gw_varint (if subchunks < 2 ^ 32 then of_nat subchunks else 0) w;
          w = gw_u8 0 w;
          w = gw_prefixed payload w
      in new_packet id_level_chunk w)"

definition publisher_update :: "i32 \<Rightarrow> i32 \<Rightarrow> i32 \<Rightarrow> u32 \<Rightarrow> packet" where
  "publisher_update x y z radius_blocks =
     (let w = gw_zigzag32 z (gw_zigzag32 y (gw_zigzag32 x gw_new));
          w = gw_varint radius_blocks w;
          w = gw_u32 0 w
      in new_packet id_network_chunk_publisher_update w)"

definition columns_around :: "int \<Rightarrow> int \<Rightarrow> int \<Rightarrow> (int \<times> int) list" where
  "columns_around centre_x centre_z radius =
     [(x, z). x \<leftarrow> [centre_x - radius..centre_x + radius], z \<leftarrow> [centre_z - radius..centre_z + radius]]"

section \<open>Packing\<close>

lemma blocks_4096: "blocks_per_subchunk = 4096"
  by (simp add: blocks_per_subchunk_def subchunk_height_def chunk_width_def)

definition index_or_zero :: "u16 list \<Rightarrow> nat \<Rightarrow> u32" where
  "index_or_zero indices p = (if p < length indices then ucast (indices ! p) else 0)"

lemma bit_pack_slots:
  assumes "sorted_wrt (<) slots"
  shows "bit (pack_slots indices bits first slots packed) n \<longleftrightarrow> bit packed n
    \<or> (\<exists>s \<in> set slots. first + s < 4096 \<and> bit (push_bit (s * bits) (index_or_zero indices (first + s))) n)"
  using assms
proof (induction slots arbitrary: packed)
  case (Cons s slots)
  show ?case
  proof (cases "first + s \<ge> 4096")
    case True
    then have "\<forall>s' \<in> set slots. \<not> first + s' < 4096" using Cons.prems by auto
    then show ?thesis using True by (auto simp: blocks_4096)
  next
    case False
    then show ?thesis using Cons by (auto simp: blocks_4096 Let_def index_or_zero_def bit_or_iff)
  qed
qed simp

lemma bit_above:
  fixes w :: "'a::len word"
  assumes "unat w < 2 ^ m" "m \<le> n"
  shows "\<not> bit w n"
proof
  assume "bit w n"
  moreover have "w AND mask m = w" using assms(1) by (rule take_bit_small)
  ultimately have "bit (w AND mask m) n" by simp
  then show False using assms(2) by (simp add: bit_and_iff bit_mask_iff)
qed

text \<open>A slot holds the index of its position, when every index fits the bits of a slot.\<close>

lemma unpack_slot:
  assumes "\<And>p. unat (index_or_zero indices p) < 2 ^ bits" "0 < bits" "s < per_word" "per_word * bits \<le> 32"
    "word * per_word + s < 4096"
  shows "drop_bit (s * bits) (pack_word indices bits per_word word) AND mask bits
    = index_or_zero indices (word * per_word + s)"
proof (rule bit_word_eqI)
  fix k :: nat assume k32: "k < LENGTH(32)"
  let ?i = "\<lambda>s. index_or_zero indices (word * per_word + s)"
  have high: "\<not> bit (?i s') m" if "bits \<le> m" for s' m using bit_above[OF assms(1) that] .
  have other: "\<not> bit (push_bit (s' * bits) (?i s')) (s * bits + k)" if "s' \<noteq> s" "k < bits" for s'
  proof (cases "s' < s")
    case True
    then have "(s' + 1) * bits \<le> s * bits" by (intro mult_le_mono1) simp
    then have "bits \<le> s * bits + k - s' * bits" by simp
    then show ?thesis using high by (simp add: bit_push_bit_iff)
  next
    case False
    then have "(s + 1) * bits \<le> s' * bits" using that(1) by (intro mult_le_mono1) simp
    then show ?thesis using that(2) by (simp add: bit_push_bit_iff)
  qed
  have "bit (pack_word indices bits per_word word) (s * bits + k) \<longleftrightarrow> bit (?i s) k" if k: "k < bits"
  proof -
    have "(s + 1) * bits \<le> per_word * bits" using assms(3) by (intro mult_le_mono1) simp
    then have "s * bits + k < 32" using k assms(4) by simp
    then have "bit (push_bit (s * bits) (?i s)) (s * bits + k) \<longleftrightarrow> bit (?i s) k" by (simp add: bit_push_bit_iff)
    moreover have "(\<exists>s' \<in> set [0..<per_word]. word * per_word + s' < 4096 \<and> bit (push_bit (s' * bits) (?i s')) (s * bits + k))
        \<longleftrightarrow> bit (push_bit (s * bits) (?i s)) (s * bits + k)"
    proof
      assume "\<exists>s' \<in> set [0..<per_word]. word * per_word + s' < 4096 \<and> bit (push_bit (s' * bits) (?i s')) (s * bits + k)"
      then obtain s' where "bit (push_bit (s' * bits) (?i s')) (s * bits + k)" by blast
      moreover from this have "s' = s" using other[OF _ k] by metis
      ultimately show "bit (push_bit (s * bits) (?i s)) (s * bits + k)" by simp
    next
      assume "bit (push_bit (s * bits) (?i s)) (s * bits + k)"
      moreover have "s \<in> set [0..<per_word]" using assms(3) by simp
      ultimately show "\<exists>s' \<in> set [0..<per_word]. word * per_word + s' < 4096 \<and> bit (push_bit (s' * bits) (?i s')) (s * bits + k)"
        using assms(5) by blast
    qed
    ultimately show ?thesis
      using bit_pack_slots[of "[0..<per_word]" indices bits "word * per_word" 0 "s * bits + k"]
      by (simp only: pack_word_def bit_0_eq bot_apply bot_bool_def sorted_wrt_upt simp_thms)
  qed
  then show "bit (drop_bit (s * bits) (pack_word indices bits per_word word) AND mask bits) k = bit (?i s) k"
    using high[of k] k32 by (cases "k < bits") (simp_all add: bit_and_iff bit_mask_iff bit_drop_bit_eq)
qed

section \<open>The client's side\<close>

fun rd_many :: "nat \<Rightarrow> ('e, 'a) rd \<Rightarrow> ('e, 'a list) rd" where
  "rd_many 0 m = rd_return []"
| "rd_many (Suc n) m = rd_bind m (\<lambda>v. rd_bind (rd_many n m) (\<lambda>vs. rd_return (v # vs)))"

text \<open>The runtime ids of the 4096 positions of a subchunk.\<close>

definition unpack_index :: "nat \<Rightarrow> u32 list \<Rightarrow> nat \<Rightarrow> nat" where
  "unpack_index bits words o' =
     (let per_word = 32 div bits
      in unat (drop_bit (o' mod per_word * bits) (words ! (o' div per_word)) AND mask bits))"

definition client_subchunk :: "(game_error, i32 list) rd" where
  "client_subchunk =
     rd_bind gr_u8 (\<lambda>version. rd_bind gr_u8 (\<lambda>layers. rd_bind gr_u8 (\<lambda>header.
       let bits = unat header div 2 in
       if bits = 0
       then rd_bind gr_zigzag32 (\<lambda>i. rd_return (replicate 4096 i))
       else
         rd_bind (rd_many (div_ceil 4096 (32 div bits)) gr_u32) (\<lambda>words.
         rd_bind gr_zigzag32 (\<lambda>n.
         rd_bind (rd_many (unat n) gr_zigzag32) (\<lambda>palette.
           rd_return (map (\<lambda>o'. palette ! unpack_index bits words o') [0..<4096])))))))"

definition client_biome :: "(game_error, i32) rd" where
  "client_biome = rd_bind gr_u8 (\<lambda>header. gr_zigzag32)"

text \<open>A column: its position, its subchunks from the bottom, a biome for each of the 24 sections.\<close>

definition client_column :: "nat \<Rightarrow> (game_error, i32 list list \<times> i32 list) rd" where
  "client_column n =
     rd_bind (rd_many n client_subchunk) (\<lambda>subchunks.
     rd_bind (rd_many 24 client_biome) (\<lambda>biomes.
     rd_bind gr_u8 (\<lambda>border_blocks. rd_return (subchunks, biomes))))"

definition client_level_chunk :: "(game_error, (i32 \<times> i32) \<times> i32 list list \<times> i32 list) rd" where
  "client_level_chunk =
     rd_bind gr_zigzag32 (\<lambda>x. rd_bind gr_zigzag32 (\<lambda>z. rd_bind gr_zigzag32 (\<lambda>dimension.
     rd_bind gr_varint (\<lambda>n. rd_bind gr_u8 (\<lambda>hashes. rd_bind gr_prefixed (\<lambda>payload r.
       (case run_reader (client_column (unat n)) payload of
          Inl e \<Rightarrow> (Inl e, r)
        | Inr c \<Rightarrow> (Inr ((x, z), c), r))))))))"

lemma reads_many:
  "(\<And>v. v \<in> set vs \<Longrightarrow> reads m (enc v) (f v)) \<Longrightarrow> reads (rd_many (length vs) m) (concat (map enc vs)) (map f vs)"
proof (induction vs)
  case (Cons v vs)
  then have v: "reads m (enc v) (f v)" and vs: "reads (rd_many (length vs) m) (concat (map enc vs)) (map f vs)" by auto
  show ?case
    using reads_bind[OF v reads_bind_nil[OF vs reads_return]] by simp
qed simp

section \<open>Round trips\<close>

text \<open>A subchunk as the server makes it: a full index array, every index naming an entry.\<close>

definition subchunk_ok :: "subchunk \<Rightarrow> bool" where
  "subchunk_ok s \<longleftrightarrow> length (sb_palette s) \<le> 2 ^ 16
     \<and> (case sb_indices s of None \<Rightarrow> True
        | Some indices \<Rightarrow> length indices = 4096 \<and> list_all (\<lambda>i. unat i < length (sb_palette s)) indices)"

definition subchunk_id :: "subchunk \<Rightarrow> nat \<Rightarrow> i32" where
  "subchunk_id s o' =
     (case sb_indices s of
        Some indices \<Rightarrow> if length (sb_palette s) \<le> 1 then hd (sb_palette s @ [runtime_id_air])
                        else sb_palette s ! unat (indices ! o')
      | None \<Rightarrow> hd (sb_palette s @ [runtime_id_air]))"

lemma bits_enough:
  assumes "2 \<le> n" "n \<le> 2 ^ 16"
  defines "b \<equiv> unat (bits_per_block n)"
  shows "0 < b" "b \<le> 16" "n \<le> 2 ^ b" "unat (push_bit 1 (bits_per_block n) OR 1) div 2 = b"
    "max (bits_per_block n) 1 = bits_per_block n"
  using assms by (auto simp: bits_per_block_def)

lemma fold_append:
  assumes "\<And>x w. x \<in> set xs \<Longrightarrow> f x w = w @ f x []"
  shows "fold f xs w = w @ concat (map (\<lambda>x. f x []) xs)"
  using assms
proof (induction xs arbitrary: w)
  case (Cons x xs)
  have "fold f (x # xs) w = fold f xs (f x w)" by simp
  also have "f x w = w @ f x []" by (rule Cons.prems) simp
  also have "fold f xs (w @ f x []) = (w @ f x []) @ concat (map (\<lambda>x. f x []) xs)"
    by (rule Cons.IH) (rule Cons.prems, simp)
  finally show ?case by simp
qed simp

lemma gw_u32_append: "gw_u32 v w = w @ gw_u32 v []"
  by (simp add: gw_u32_def)

lemma reads_gw_u32: "reads gr_u32 (gw_u32 v []) v"
  by (simp add: gw_u32_def reads_gr_fixed)

text \<open>What \<open>write_subchunk\<close> appends, in its two forms.\<close>

lemma write_subchunk_uniform:
  assumes "sb_indices s = None \<or> length (sb_palette s) \<le> 1"
  shows "write_subchunk s w = w @ [8] @ [1] @ [1] @ gw_zigzag32 (hd (sb_palette s @ [runtime_id_air])) []"
  using assms gw_append(1)[of _ "w @ [8, 1, 1]"]
  by (cases "sb_palette s") (auto simp: write_subchunk_def write_uniform_storage_def gw_u8_def Let_def)

lemma write_subchunk_packed:
  assumes "sb_indices s = Some indices" "2 \<le> length (sb_palette s)" "length (sb_palette s) \<le> 2 ^ 16"
  defines "bits \<equiv> unat (bits_per_block (length (sb_palette s)))"
  defines "words \<equiv> map (pack_word indices bits (32 div bits)) [0..<div_ceil 4096 (32 div bits)]"
  shows "write_subchunk s w = w @ [8] @ [1] @ [push_bit 1 (bits_per_block (length (sb_palette s))) OR 1]
    @ concat (map (\<lambda>v. gw_u32 v []) words) @ gw_zigzag32 (of_nat (length (sb_palette s))) []
    @ concat (map (\<lambda>i. gw_zigzag32 i []) (sb_palette s))"
proof -
  have m: "max (bits_per_block (length (sb_palette s))) 1 = bits_per_block (length (sb_palette s))"
    using bits_enough(5)[OF assms(2,3)] .
  have u: "fold (\<lambda>word. gw_u32 (pack_word indices bits (32 div bits) word)) ns v
    = v @ concat (map (\<lambda>v. gw_u32 v []) (map (pack_word indices bits (32 div bits)) ns))" for ns v
    by (subst fold_append) (rule gw_u32_append, simp add: comp_def)
  have z: "fold gw_zigzag32 ps v = v @ concat (map (\<lambda>i. gw_zigzag32 i []) ps)" for ps v
    by (rule fold_append) (rule gw_append(1))
  have n: "length (sb_palette s) < 2 ^ 31" "\<not> length (sb_palette s) \<le> 1" using assms(2,3) by auto
  have k: "unat (bits_per_block (length (sb_palette s))) = bits" by (simp add: bits_def)
  note a = gw_append(1)[of "of_nat (length (sb_palette s))"
      "(((w @ [8]) @ [1]) @ [push_bit 1 (bits_per_block (length (sb_palette s))) OR 1]) @ concat (map (\<lambda>v. gw_u32 v []) words)"]
  have "write_subchunk s w = gw_zigzag32 (of_nat (length (sb_palette s)))
      ((((w @ [8]) @ [1]) @ [push_bit 1 (bits_per_block (length (sb_palette s))) OR 1]) @ concat (map (\<lambda>v. gw_u32 v []) words))
    @ concat (map (\<lambda>i. gw_zigzag32 i []) (sb_palette s))"
    unfolding write_subchunk_def Let_def m blocks_4096 z gw_u8_def assms(1)
    using n by (simp only: option.distinct option.case simp_thms if_False if_True k u words_def)
  then show ?thesis unfolding a by (simp only: append.assoc)
qed

lemma unat_ucast_16: "unat (ucast (w :: u16) :: u32) = unat w"
proof -
  have "unat w < 2 ^ 16" using unsigned_less[where ?'a = nat, of w] by simp
  then show ?thesis by (simp add: unsigned_ucast_eq take_bit_nat_eq_self_iff)
qed

lemma div_below_ceil:
  assumes "0 < p" "i < n"
  shows "i div p < div_ceil n p"
proof -
  have "Suc (i div p) = (i + p) div p" using assms(1) by (simp add: div_add_self2)
  also have "\<dots> \<le> (n + p - 1) div p" using assms(2) by (intro div_le_mono) simp
  finally show ?thesis by (simp add: div_ceil_def)
qed

lemma unpacked_index:
  assumes "length indices = 4096" "list_all (\<lambda>i. unat i < n) indices" "2 \<le> n" "n \<le> 2 ^ 16" "o' < 4096"
  defines "bits \<equiv> unat (bits_per_block n)"
  defines "words \<equiv> map (pack_word indices bits (32 div bits)) [0..<div_ceil 4096 (32 div bits)]"
  shows "unpack_index bits words o' = unat (indices ! o')"
proof -
  let ?pw = "32 div bits"
  note be = bits_enough[OF assms(3,4), folded bits_def]
  have pw: "0 < ?pw" "?pw * bits \<le> 32" using be(1,2) by (simp_all add: div_greater_zero_iff)
  have small: "unat (index_or_zero indices p) < 2 ^ bits" for p
  proof (cases "p < length indices")
    case True
    then have "unat (indices ! p) < n" using assms(2) by (auto simp: list_all_length)
    then have "unat (indices ! p) < 2 ^ bits" using be(3) by simp
    then show ?thesis using True by (simp add: index_or_zero_def unat_ucast_16)
  qed (simp add: index_or_zero_def)
  have o: "o' div ?pw * ?pw + o' mod ?pw = o'" by (rule div_mult_mod_eq)
  have "o' div ?pw < div_ceil 4096 ?pw" using pw(1) assms(5) by (rule div_below_ceil)
  then have w: "words ! (o' div ?pw) = pack_word indices bits ?pw (o' div ?pw)" by (simp add: words_def)
  have "drop_bit (o' mod ?pw * bits) (pack_word indices bits ?pw (o' div ?pw)) AND mask bits = index_or_zero indices o'"
    using unpack_slot[OF small be(1), of "o' mod ?pw" ?pw "o' div ?pw"] pw o assms(5) by simp
  moreover have "unat (index_or_zero indices o') = unat (indices ! o')"
    using assms(1,5) by (simp add: index_or_zero_def unat_ucast_16)
  ultimately show ?thesis by (simp add: unpack_index_def Let_def w)
qed

lemma reads_subchunk:
  assumes "subchunk_ok s"
  shows "reads client_subchunk (write_subchunk s []) (map (subchunk_id s) [0..<4096])"
proof (cases "sb_indices s = None \<or> length (sb_palette s) \<le> 1")
  case True
  let ?id = "hd (sb_palette s @ [runtime_id_air])"
  have "map (subchunk_id s) [0..<4096] = map (\<lambda>_. ?id) [0..<4096]"
    using True by (intro map_cong) (auto simp: subchunk_id_def split: option.splits)
  then have ids: "map (subchunk_id s) [0..<4096] = replicate 4096 ?id" by (simp add: map_replicate_const)
  have "reads (rd_bind gr_zigzag32 (\<lambda>i. rd_return (replicate 4096 i))) (gw_zigzag32 ?id []) (replicate 4096 ?id)"
    by (rule reads_bind_nil[OF reads_zigzag32]) (rule reads_return)
  then have "reads client_subchunk ([8] @ [1] @ [1] @ gw_zigzag32 ?id []) (replicate 4096 ?id)"
    unfolding client_subchunk_def
    by (intro reads_bind[OF reads_gr_fixed(1)]) (simp add: Let_def)
  then show ?thesis using write_subchunk_uniform[OF True, of "[]"] ids by simp
next
  case False
  then obtain indices where i: "sb_indices s = Some indices" and two: "2 \<le> length (sb_palette s)" by auto
  have le: "length (sb_palette s) \<le> 2 ^ 16" and ix: "length indices = 4096"
    "list_all (\<lambda>i. unat i < length (sb_palette s)) indices"
    using assms i by (auto simp: subchunk_ok_def)
  let ?n = "length (sb_palette s)"
  let ?b = "unat (bits_per_block ?n)"
  let ?words = "map (pack_word indices ?b (32 div ?b)) [0..<div_ceil 4096 (32 div ?b)]"
  note be = bits_enough[OF two le]
  have un: "unat (of_nat ?n :: i32) = ?n" using le by (intro unat_of_nat_small) simp
  have words: "reads (rd_many (div_ceil 4096 (32 div ?b)) gr_u32) (concat (map (\<lambda>v. gw_u32 v []) ?words)) ?words"
    using reads_many[of ?words gr_u32 "\<lambda>v. gw_u32 v []" "\<lambda>v. v"] reads_gw_u32 by simp
  have pal: "reads (rd_many ?n gr_zigzag32) (concat (map (\<lambda>i. gw_zigzag32 i []) (sb_palette s))) (sb_palette s)"
    using reads_many[of "sb_palette s" gr_zigzag32 "\<lambda>i. gw_zigzag32 i []" "\<lambda>v. v"] reads_zigzag32 by simp
  have ids: "map (\<lambda>o'. sb_palette s ! unpack_index ?b ?words o') [0..<4096] = map (subchunk_id s) [0..<4096]"
    using unpacked_index[OF ix two le] two by (intro map_cong) (auto simp: subchunk_id_def i)
  let ?ids = "map (\<lambda>o'. sb_palette s ! unpack_index ?b ?words o') [0..<4096]"
  have tail: "reads (rd_bind (rd_many (unat (of_nat ?n :: i32)) gr_zigzag32)
      (\<lambda>palette. rd_return (map (\<lambda>o'. palette ! unpack_index ?b ?words o') [0..<4096])))
    (concat (map (\<lambda>i. gw_zigzag32 i []) (sb_palette s))) ?ids"
    unfolding un by (rule reads_bind_nil[OF pal reads_return])
  have "reads client_subchunk (write_subchunk s []) ?ids"
    unfolding write_subchunk_packed[OF i two le, of "[]"] append_Nil client_subchunk_def
    by (intro reads_bind[OF reads_gr_fixed(1)])
      (simp only: Let_def be(4) if_not_P[OF be(1)[THEN gr_implies_not_zero]],
        intro reads_bind[OF words] reads_bind[OF reads_zigzag32] tail)
  then show ?thesis unfolding ids .
qed

text \<open>A whole column, and the packet it travels in.\<close>

lemma write_subchunk_append:
  assumes "subchunk_ok s"
  shows "write_subchunk s w = w @ write_subchunk s []"
proof (cases "sb_indices s = None \<or> length (sb_palette s) \<le> 1")
  case True
  show ?thesis unfolding write_subchunk_uniform[OF True, of w] write_subchunk_uniform[OF True, of "[]"] by simp
next
  case False
  then obtain indices where "sb_indices s = Some indices" "2 \<le> length (sb_palette s)" by auto
  moreover have "length (sb_palette s) \<le> 2 ^ 16" using assms by (simp add: subchunk_ok_def)
  ultimately have packed: "write_subchunk s v = v @ write_subchunk s []" for v
    using write_subchunk_packed[of s indices v] write_subchunk_packed[of s indices "[]"] by simp
  show ?thesis by (rule packed)
qed

lemma length_gw_zigzag32: "length (gw_zigzag32 v []) \<le> 5"
  by (simp add: gw_zigzag32_def length_gw_varint)

lemma length_concat_map_le:
  "(\<And>x. x \<in> set xs \<Longrightarrow> length (f x) \<le> k) \<Longrightarrow> length (concat (map f xs)) \<le> k * length xs"
  by (induction xs) (auto intro: add_mono)

lemma length_write_subchunk:
  assumes "subchunk_ok s"
  shows "length (write_subchunk s []) \<le> 350000"
proof (cases "sb_indices s = None \<or> length (sb_palette s) \<le> 1")
  case True
  then show ?thesis
    using write_subchunk_uniform[OF True, of "[]"] length_gw_zigzag32[of "hd (sb_palette s @ [runtime_id_air])"] by simp
next
  case False
  then obtain indices where i: "sb_indices s = Some indices" and two: "2 \<le> length (sb_palette s)" by auto
  have le: "length (sb_palette s) \<le> 2 ^ 16" using assms by (simp add: subchunk_ok_def)
  let ?b = "unat (bits_per_block (length (sb_palette s)))"
  let ?words = "map (pack_word indices ?b (32 div ?b)) [0..<div_ceil 4096 (32 div ?b)]"
  have "1 \<le> 32 div ?b" using bits_enough(1,2)[OF two le] by (simp add: div_greater_zero_iff Suc_le_eq)
  then have "div_ceil 4096 (32 div ?b) \<le> 4096"
    unfolding div_ceil_def by (intro less_Suc_eq_le[THEN iffD1]) (simp add: less_mult_imp_div_less algebra_simps)
  then have "length ?words \<le> 4096" by simp
  moreover have "length (concat (map (\<lambda>v. gw_u32 v []) ?words)) \<le> 4 * length ?words"
    by (rule length_concat_map_le) (simp add: gw_u32_def le_bytes_def)
  moreover have "length (concat (map (\<lambda>i. gw_zigzag32 i []) (sb_palette s))) \<le> 5 * length (sb_palette s)"
    by (rule length_concat_map_le) (rule length_gw_zigzag32)
  ultimately show ?thesis
    using write_subchunk_packed[OF i two le, of "[]"] le length_gw_zigzag32[of "of_nat (length (sb_palette s))"] by simp
qed

lemma biomes_append: "(write_uniform_biome biome ^^ n) w = w @ concat (replicate n (write_uniform_biome biome []))"
proof (induction n arbitrary: w)
  case (Suc n)
  have one: "write_uniform_biome biome v = v @ write_uniform_biome biome []" for v
    using gw_append(1)[of biome "v @ [1]"] gw_append(1)[of biome "[1]"] by (simp add: write_uniform_biome_def gw_u8_def)
  show ?case by (simp only: funpow_Suc_right comp_apply Suc one[of w]) simp
qed simp

lemma column_payload_parts:
  assumes "list_all subchunk_ok subs"
  shows "column_payload subs biome = concat (map (\<lambda>s. write_subchunk s []) subs)
    @ concat (replicate 24 (write_uniform_biome biome [])) @ [0]"
proof -
  have "fold write_subchunk subs gw_new = gw_new @ concat (map (\<lambda>s. write_subchunk s []) subs)"
    using assms by (intro fold_append write_subchunk_append) (simp add: list_all_iff)
  moreover have "overworld_subchunks = 24"
    by (simp add: overworld_subchunks_def overworld_max_subchunk_def overworld_min_subchunk_def)
  ultimately show ?thesis
    unfolding column_payload_def Let_def by (simp only: biomes_append gw_u8_def gw_new_def append_Nil append.assoc)
qed

lemma reads_biome: "reads client_biome (write_uniform_biome biome []) biome"
  unfolding client_biome_def write_uniform_biome_def gw_u8_def append_Nil
  by (subst gw_append(1)) (rule reads_bind[OF reads_gr_fixed(1) reads_zigzag32])

lemma reads_column:
  assumes "list_all subchunk_ok subs"
  shows "reads (client_column (length subs)) (column_payload subs biome)
    (map (\<lambda>s. map (subchunk_id s) [0..<4096]) subs, replicate 24 biome)"
proof -
  have s: "reads (rd_many (length subs) client_subchunk) (concat (map (\<lambda>s. write_subchunk s []) subs))
      (map (\<lambda>s. map (subchunk_id s) [0..<4096]) subs)"
    using assms by (intro reads_many reads_subchunk) (simp add: list_all_iff)
  have b: "reads (rd_many 24 client_biome) (concat (replicate 24 (write_uniform_biome biome []))) (replicate 24 biome)"
    using reads_many[of "replicate 24 biome" client_biome "\<lambda>b. write_uniform_biome b []" "\<lambda>b. b"] reads_biome
    by (simp only: length_replicate map_replicate map_ident)
  show ?thesis
    unfolding column_payload_parts[OF assms] client_column_def
    by (rule reads_bind[OF s], rule reads_bind[OF b], rule reads_bind_nil[OF reads_gr_fixed(1)]) (rule reads_return)
qed

lemma length_column_payload:
  assumes "list_all subchunk_ok subs"
  shows "length (column_payload subs biome) \<le> 350000 * length subs + 200"
proof -
  have "length (concat (map (\<lambda>s. write_subchunk s []) subs)) \<le> 350000 * length subs"
    using assms by (intro length_concat_map_le length_write_subchunk) (simp add: list_all_iff)
  moreover have "length (concat (replicate 24 (write_uniform_biome biome []))) \<le> 6 * 24"
    using length_concat_map_le[of "replicate 24 biome" "\<lambda>b. write_uniform_biome b []" 6]
      gw_append(1)[of biome "[1]"] length_gw_zigzag32[of biome]
    by (simp add: write_uniform_biome_def gw_u8_def)
  ultimately show ?thesis unfolding column_payload_parts[OF assms] by simp
qed

lemma level_chunk_reads_back:
  assumes "list_all subchunk_ok subs" "length subs \<le> 24"
  shows "run_reader client_level_chunk (pk_body (level_chunk x z (length subs) (column_payload subs biome)))
    = Inr ((x, z), map (\<lambda>s. map (subchunk_id s) [0..<4096]) subs, replicate 24 biome)"
proof -
  let ?p = "column_payload subs biome"
  let ?n = "of_nat (length subs) :: u32"
  have n: "unat ?n = length subs" using assms(2) by (intro unat_of_nat_small) simp
  have len: "length ?p \<le> 10000000" using length_column_payload[OF assms(1), of biome] assms(2) by linarith
  have col: "run_reader (client_column (unat ?n)) ?p = Inr (map (\<lambda>s. map (subchunk_id s) [0..<4096]) subs, replicate 24 biome)"
    unfolding n by (rule run_reader_reads[OF reads_column[OF assms(1)]]) (use len in \<open>simp add: usize_max_def\<close>)
  have body: "pk_body (level_chunk x z (length subs) ?p)
      = gw_zigzag32 x [] @ gw_zigzag32 z [] @ gw_zigzag32 0 [] @ gw_varint ?n [] @ [0] @ gw_prefixed ?p []"
    using assms(2) gw_append(1)[of z "gw_zigzag32 x []"] gw_append(1)[of 0 "gw_zigzag32 x [] @ gw_zigzag32 z []"]
      gw_varint_append(1)[of ?n "gw_zigzag32 x [] @ gw_zigzag32 z [] @ gw_zigzag32 0 []"]
      gw_append(3)[of ?p "gw_zigzag32 x [] @ gw_zigzag32 z [] @ gw_zigzag32 0 [] @ gw_varint ?n [] @ [0]"]
    by (simp add: level_chunk_def Let_def gw_new_def gw_u8_def new_packet_def)
  have "reads client_level_chunk (pk_body (level_chunk x z (length subs) ?p))
      ((x, z), map (\<lambda>s. map (subchunk_id s) [0..<4096]) subs, replicate 24 biome)"
    unfolding body client_level_chunk_def
    by (rule reads_bind[OF reads_zigzag32], rule reads_bind[OF reads_zigzag32], rule reads_bind[OF reads_zigzag32],
        rule reads_bind[OF reads_varint], rule reads_bind[OF reads_gr_fixed(1)], rule reads_bind_nil[OF reads_prefixed])
      (use len in \<open>simp_all add: col reads_def\<close>)
  moreover have "length (pk_body (level_chunk x z (length subs) ?p)) \<le> usize_max"
    using len length_gw_zigzag32[of x] length_gw_zigzag32[of z] length_gw_zigzag32[of 0] length_gw_varint(2)[of ?n]
      length_gw_varint(2)[of "u32_or_max (length ?p)"]
    unfolding body by (simp add: gw_prefixed_def gw_bytes_def usize_max_def)
  ultimately show ?thesis by (rule run_reader_reads)
qed

lemma length_level_chunk: "length (pk_body (level_chunk x z n payload)) \<le> 30 + length payload"
proof -
  let ?n = "if n < 2 ^ 32 then of_nat n else 0 :: u32"
  have "pk_body (level_chunk x z n payload)
      = gw_zigzag32 x [] @ gw_zigzag32 z [] @ gw_zigzag32 0 [] @ gw_varint ?n [] @ [0] @ gw_prefixed payload []"
    using gw_append(1)[of z "gw_zigzag32 x []"] gw_append(1)[of 0 "gw_zigzag32 x [] @ gw_zigzag32 z []"]
      gw_varint_append(1)[of ?n "gw_zigzag32 x [] @ gw_zigzag32 z [] @ gw_zigzag32 0 []"]
      gw_append(3)[of payload "gw_zigzag32 x [] @ gw_zigzag32 z [] @ gw_zigzag32 0 [] @ gw_varint ?n [] @ [0]"]
    by (simp add: level_chunk_def Let_def gw_new_def gw_u8_def new_packet_def)
  then show ?thesis
    using length_gw_zigzag32[of x] length_gw_zigzag32[of z] length_gw_zigzag32[of 0] length_gw_varint(2)[of ?n]
      length_gw_varint(2)[of "u32_or_max (length payload)"]
    by (simp add: gw_prefixed_def gw_bytes_def)
qed

lemma publisher_bytes:
  "pk_body (publisher_update x y z radius)
     = gw_zigzag32 x [] @ gw_zigzag32 y [] @ gw_zigzag32 z [] @ gw_varint radius [] @ le_bytes 4 (0 :: u32)"
  using gw_append(1)[of y "gw_zigzag32 x []"] gw_append(1)[of z "gw_zigzag32 x [] @ gw_zigzag32 y []"]
    gw_varint_append(1)[of radius "gw_zigzag32 x [] @ gw_zigzag32 y [] @ gw_zigzag32 z []"]
  by (simp add: publisher_update_def Let_def gw_new_def gw_u32_def new_packet_def)

lemma publisher_length: "length (pk_body (publisher_update x y z radius)) \<le> 24"
  using length_gw_zigzag32[of x] length_gw_zigzag32[of y] length_gw_zigzag32[of z] length_gw_varint(2)[of radius]
  by (simp add: publisher_bytes le_bytes_def)

lemma publisher_packet_ok: "packet_ok (publisher_update x y z radius)"
  using publisher_length[of x y z radius]
  by (simp add: packet_ok_def publisher_update_def Let_def new_packet_def id_network_chunk_publisher_update_def)

text \<open>How a client reads the update: the place, the radius in blocks, and the number of saved columns.\<close>

definition client_publisher :: "(game_error, i32 \<times> i32 \<times> i32 \<times> u32) rd" where
  "client_publisher =
     rd_bind gr_zigzag32 (\<lambda>x. rd_bind gr_zigzag32 (\<lambda>y. rd_bind gr_zigzag32 (\<lambda>z.
     rd_bind gr_varint (\<lambda>radius. rd_bind gr_u32 (\<lambda>_. rd_return (x, y, z, radius))))))"

lemma publisher_reads_back:
  "run_reader client_publisher (pk_body (publisher_update x y z radius)) = Inr (x, y, z, radius)"
proof (rule run_reader_reads)
  show "reads client_publisher (pk_body (publisher_update x y z radius)) (x, y, z, radius)"
    unfolding client_publisher_def publisher_bytes
    by (rule reads_bind[OF reads_zigzag32], rule reads_bind[OF reads_zigzag32], rule reads_bind[OF reads_zigzag32],
        rule reads_bind[OF reads_varint], rule reads_bind_nil[OF reads_gr_fixed(4)]) (rule reads_return)
  show "length (pk_body (publisher_update x y z radius)) \<le> usize_max"
    using publisher_length[of x y z radius] by (simp add: usize_max_def)
qed

end
