(* ===== verification/Section.thy ===== *)
theory Section
  imports Blocks
begin

text \<open>
  \<^verbatim>\<open>bedrock-world/src/section.rs\<close>: a cube of blocks as a palette and one index per position.
\<close>

definition section_size :: nat where "section_size = 16"
definition blocks_per_section :: nat where "blocks_per_section = section_size * section_size * section_size"

record world_section =
  sc_palette :: "block list"
  sc_indices :: "u16 list option"

definition cell_offset :: "nat \<Rightarrow> nat \<Rightarrow> nat \<Rightarrow> nat option" where
  "cell_offset x y z =
     (if x \<ge> section_size \<or> y \<ge> section_size \<or> z \<ge> section_size then None
      else Some ((y * section_size + z) * section_size + x))"

definition section_uniform :: "block \<Rightarrow> world_section" where
  "section_uniform b = \<lparr>sc_palette = [b], sc_indices = None\<rparr>"

text \<open>\<^verbatim>\<open>palette.iter().position(|entry| *entry == block)\<close>, or a new entry at the end.\<close>

fun position_of :: "block \<Rightarrow> block list \<Rightarrow> nat option" where
  "position_of b [] = None"
| "position_of b (c # cs) = (if c = b then Some 0 else map_option Suc (position_of b cs))"

definition intern :: "block \<Rightarrow> block list \<Rightarrow> nat \<times> block list" where
  "intern b palette =
     (case position_of b palette of
        Some index \<Rightarrow> (index, palette)
      | None \<Rightarrow> (length palette, palette @ [b]))"

text \<open>The body of the three nested loops of \<^verbatim>\<open>from_fn\<close>.\<close>

definition from_fn_step :: "(nat \<Rightarrow> nat \<Rightarrow> nat \<Rightarrow> block) \<Rightarrow> nat \<times> nat \<times> nat
    \<Rightarrow> block list \<times> u16 list \<Rightarrow> block list \<times> u16 list" where
  "from_fn_step block_at = (\<lambda>(x, y, z) (palette, indices).
     case intern (block_at x y z) palette of
       (index, palette) \<Rightarrow>
         (case cell_offset x y z of
            Some offset \<Rightarrow> if index < 2 ^ 16 then (palette, indices[offset := of_nat index]) else (palette, indices)
          | None \<Rightarrow> (palette, indices)))"

definition cells :: "(nat \<times> nat \<times> nat) list" where
  "cells = [(x, y, z). x \<leftarrow> [0..<section_size], y \<leftarrow> [0..<section_size], z \<leftarrow> [0..<section_size]]"

definition section_from_fn :: "(nat \<Rightarrow> nat \<Rightarrow> nat \<Rightarrow> block) \<Rightarrow> world_section" where
  "section_from_fn block_at =
     (case fold (from_fn_step block_at) cells ([], replicate blocks_per_section 0) of
        (palette, indices) \<Rightarrow>
          if length palette = 1 then \<lparr>sc_palette = palette, sc_indices = None\<rparr>
          else \<lparr>sc_palette = palette, sc_indices = Some indices\<rparr>)"

text \<open>\<^verbatim>\<open>slice.get(i)\<close>.\<close>

definition nth_opt :: "'a list \<Rightarrow> nat \<Rightarrow> 'a option" where
  "nth_opt xs i = (if i < length xs then Some (xs ! i) else None)"

definition section_index_at :: "world_section \<Rightarrow> nat \<Rightarrow> nat \<Rightarrow> nat \<Rightarrow> u16 option" where
  "section_index_at s x y z =
     (case cell_offset x y z of
        None \<Rightarrow> None
      | Some offset \<Rightarrow>
          (case sc_indices s of
             None \<Rightarrow> Some 0
           | Some indices \<Rightarrow> nth_opt indices offset))"

definition section_get :: "world_section \<Rightarrow> nat \<Rightarrow> nat \<Rightarrow> nat \<Rightarrow> block option" where
  "section_get s x y z =
     (case cell_offset x y z of
        None \<Rightarrow> None
      | Some offset \<Rightarrow>
          (case (case sc_indices s of None \<Rightarrow> Some 0 | Some indices \<Rightarrow> map_option unat (nth_opt indices offset)) of
             None \<Rightarrow> None
           | Some index \<Rightarrow> nth_opt (sc_palette s) index))"

definition uniform_block :: "world_section \<Rightarrow> block option" where
  "uniform_block s = (case sc_indices s of None \<Rightarrow> nth_opt (sc_palette s) 0 | Some _ \<Rightarrow> None)"

definition section_is_empty :: "world_section \<Rightarrow> bool" where
  "section_is_empty s \<longleftrightarrow> list_all is_air (sc_palette s)"

definition with_block :: "nat \<Rightarrow> nat \<Rightarrow> nat \<Rightarrow> block \<Rightarrow> world_section \<Rightarrow> world_section option" where
  "with_block x y z b s =
     (case cell_offset x y z of
        None \<Rightarrow> None
      | Some offset \<Rightarrow>
          if section_get s x y z = Some b then Some s
          else
            (case intern b (sc_palette s) of
               (index, palette) \<Rightarrow>
                 if index \<ge> 2 ^ 16 then None
                 else
                   let indices = (case sc_indices s of Some indices \<Rightarrow> indices | None \<Rightarrow> replicate blocks_per_section 0)
                   in if offset < length indices
                      then Some \<lparr>sc_palette = palette, sc_indices = Some (indices[offset := of_nat index])\<rparr>
                      else None))"

section \<open>Positions\<close>

definition in_cube :: "nat \<Rightarrow> nat \<Rightarrow> nat \<Rightarrow> bool" where
  "in_cube x y z \<longleftrightarrow> x < 16 \<and> y < 16 \<and> z < 16"

lemma cell_offset_in: "cell_offset x y z = (if in_cube x y z then Some (y * 256 + z * 16 + x) else None)"
  by (auto simp: cell_offset_def in_cube_def section_size_def)

lemma offset_bound: "in_cube x y z \<Longrightarrow> y * 256 + z * 16 + x < 4096"
  by (simp add: in_cube_def)

lemma offset_inj:
  assumes "in_cube x y z" "in_cube x' y' z'" "y * 256 + z * 16 + x = y' * 256 + z' * 16 + x'"
  shows "x = x' \<and> y = y' \<and> z = z'"
proof -
  have split: "n div 256 = y \<and> n div 16 mod 16 = z \<and> n mod 16 = x"
    if "in_cube x y z" "n = y * 256 + z * 16 + x" for n x y z
  proof -
    have n: "n = (y * 16 + z) * 16 + x" using that(2) by simp
    have x: "x < 16" "z < 16" using that(1) by (simp_all add: in_cube_def)
    have "n div 16 = y * 16 + z" unfolding n using x by (simp only: div_mult_self3 div_less)
    moreover have "n mod 16 = x" unfolding n using x by (simp only: mod_mult_self3 mod_less)
    moreover have "n div 256 = n div 16 div 16" by (simp add: div_mult2_eq[symmetric])
    ultimately show ?thesis using that(1) by (simp add: in_cube_def)
  qed
  show ?thesis using split[OF assms(1) refl] split[OF assms(2) assms(3)] by simp
qed

lemma blocks_per_section_4096: "blocks_per_section = 4096"
  by (simp add: blocks_per_section_def section_size_def)

lemma cells_in_cube: "(x, y, z) \<in> set cells \<longleftrightarrow> in_cube x y z"
  by (auto simp: cells_def in_cube_def section_size_def image_iff)

section \<open>The palette\<close>

lemma position_of_Some: "position_of b cs = Some i \<Longrightarrow> i < length cs \<and> cs ! i = b"
  by (induction b cs arbitrary: i rule: position_of.induct) (auto split: if_splits)

lemma position_of_None: "position_of b cs = None \<longleftrightarrow> b \<notin> set cs"
  by (induction b cs rule: position_of.induct) auto

lemma intern_facts:
  assumes "intern b palette = (i, palette')" "distinct palette"
  shows "i < length palette'" "palette' ! i = b" "distinct palette'"
    "\<exists>xs. palette' = palette @ xs \<and> length xs \<le> 1" "set palette' = insert b (set palette)"
    "i \<noteq> length palette \<Longrightarrow> palette' = palette"
  using assms position_of_Some[of b palette i] position_of_None[of b palette]
  by (auto simp: intern_def split: option.splits)

text \<open>
  Every palette entry is used at most once and every index names an entry.
\<close>

definition section_inv :: "world_section \<Rightarrow> bool" where
  "section_inv s \<longleftrightarrow> sc_palette s \<noteq> [] \<and> distinct (sc_palette s) \<and> length (sc_palette s) \<le> 2 ^ 16
     \<and> (case sc_indices s of None \<Rightarrow> True
        | Some indices \<Rightarrow> length indices = 4096 \<and> list_all (\<lambda>i. unat i < length (sc_palette s)) indices)"

lemma section_inv_uniform [simp]: "section_inv (section_uniform b)"
  by (simp add: section_inv_def section_uniform_def)

lemma section_get_uniform: "section_get (section_uniform b) x y z = (if in_cube x y z then Some b else None)"
  by (simp add: section_get_def section_uniform_def cell_offset_in nth_opt_def)

text \<open>The palette index of a position, for a section that keeps its invariant.\<close>

definition cell_index :: "world_section \<Rightarrow> nat \<Rightarrow> nat" where
  "cell_index s offset = (case sc_indices s of None \<Rightarrow> 0 | Some indices \<Rightarrow> unat (indices ! offset))"

lemma cell_index_bound:
  assumes "section_inv s" "offset < 4096"
  shows "cell_index s offset < length (sc_palette s)"
  using assms by (auto simp: section_inv_def cell_index_def list_all_length split: option.splits)

lemma section_get_inv:
  assumes "section_inv s"
  shows "section_get s x y z = (if in_cube x y z then Some (sc_palette s ! cell_index s (y * 256 + z * 16 + x)) else None)"
proof (cases "in_cube x y z")
  case True
  show ?thesis
    using offset_bound[OF True] cell_index_bound[OF assms offset_bound[OF True]] True assms
    by (auto simp: section_get_def cell_offset_in nth_opt_def cell_index_def section_inv_def split: option.splits)
qed (simp add: section_get_def cell_offset_in)

section \<open>Building a section\<close>

text \<open>
  After some cells: the palette holds the blocks met so far, and the cells met name their block.
\<close>

definition built :: "(nat \<Rightarrow> nat \<Rightarrow> nat \<Rightarrow> block) \<Rightarrow> (nat \<times> nat \<times> nat) list \<Rightarrow> block list \<times> u16 list \<Rightarrow> bool" where
  "built f cs = (\<lambda>(palette, indices). distinct palette \<and> set palette = (\<lambda>(x, y, z). f x y z) ` set cs
     \<and> length palette \<le> length cs \<and> length indices = 4096
     \<and> (\<forall>o' < 4096. unat (indices ! o') < max 1 (length palette))
     \<and> (\<forall>(x, y, z) \<in> set cs. unat (indices ! (y * 256 + z * 16 + x)) < length palette
          \<and> palette ! unat (indices ! (y * 256 + z * 16 + x)) = f x y z))"

lemma built_step:
  assumes "built f cs (palette, indices)" "in_cube x y z" "list_all (\<lambda>(x, y, z). in_cube x y z) cs"
    "length cs < 2 ^ 16"
  shows "built f (cs @ [(x, y, z)]) (from_fn_step f (x, y, z) (palette, indices))"
proof -
  let ?o = "y * 256 + z * 16 + x"
  obtain i palette' where it: "intern (f x y z) palette = (i, palette')" by fastforce
  have d: "distinct palette" "length palette \<le> length cs" "length indices = 4096"
    using assms(1) by (auto simp: built_def)
  note p = intern_facts[OF it d(1)]
  obtain xs where xs: "palette' = palette @ xs" "length xs \<le> 1" using p(4) by blast
  have i: "i < 2 ^ 16" "unat (of_nat i :: u16) = i"
    using p(1) xs d(2) assms(4) by (auto intro!: unat_of_nat_small)
  have o: "?o < 4096" using offset_bound[OF assms(2)] .
  have step: "from_fn_step f (x, y, z) (palette, indices) = (palette', indices[?o := of_nat i])"
    using it i(1) assms(2) by (simp add: from_fn_step_def cell_offset_in)
  have old: "unat (indices ! o') < length palette' \<and> palette' ! unat (indices ! o') = b"
    if "unat (indices ! o') < length palette" "palette ! unat (indices ! o') = b" for o' b
    using that xs by (simp add: nth_append)
  have "\<forall>o' < 4096. unat (indices[?o := of_nat i] ! o') < max 1 (length palette')"
  proof (intro allI impI)
    fix o' :: nat assume "o' < 4096"
    then have "unat (indices ! o') < max 1 (length palette)" using assms(1) by (auto simp: built_def)
    moreover have "max 1 (length palette) \<le> max 1 (length palette')" using xs by auto
    ultimately show "unat (indices[?o := of_nat i] ! o') < max 1 (length palette')"
      using o d(3) p(1) i(2) by (auto simp: nth_list_update less_max_iff_disj)
  qed
  moreover have "\<forall>(x', y', z') \<in> set (cs @ [(x, y, z)]).
      unat (indices[?o := of_nat i] ! (y' * 256 + z' * 16 + x')) < length palette'
      \<and> palette' ! unat (indices[?o := of_nat i] ! (y' * 256 + z' * 16 + x')) = f x' y' z'"
  proof (intro ballI, clarify)
    fix x' y' z' assume m: "(x', y', z') \<in> set (cs @ [(x, y, z)])"
    then have c: "in_cube x' y' z'" using assms(2,3) by (auto simp: list_all_iff)
    show "unat (indices[?o := of_nat i] ! (y' * 256 + z' * 16 + x')) < length palette'
      \<and> palette' ! unat (indices[?o := of_nat i] ! (y' * 256 + z' * 16 + x')) = f x' y' z'"
    proof (cases "y' * 256 + z' * 16 + x' = ?o")
      case True
      from offset_inj[OF c assms(2) this] show ?thesis using p(1,2) i(2) o d(3) by simp
    next
      case False
      then have "(x', y', z') \<in> set cs" using m by auto
      then show ?thesis using False old assms(1) by (auto simp: built_def)
    qed
  qed
  moreover have "length palette' \<le> length cs + 1" using xs d(2) by simp
  ultimately show ?thesis
    using p(3,5) d(3) assms(1) by (simp add: step built_def)
qed

lemma built_cells:
  assumes "list_all (\<lambda>(x, y, z). in_cube x y z) (cs @ ds)" "length (cs @ ds) \<le> 2 ^ 16" "built f cs p"
  shows "built f (cs @ ds) (fold (from_fn_step f) ds p)"
  using assms
proof (induction ds arbitrary: cs p)
  case (Cons d ds)
  obtain x y z where d: "d = (x, y, z)" using prod_cases3 by blast
  obtain palette indices where p: "p = (palette, indices)" by fastforce
  have "built f (cs @ [d]) (from_fn_step f d p)"
    using built_step[of f cs palette indices x y z] Cons.prems by (simp add: d p)
  then show ?case using Cons.IH[of "cs @ [d]" "from_fn_step f d p"] Cons.prems by simp
qed simp

lemma length_cells: "length cells = 4096"
  by (simp add: cells_def section_size_def length_concat comp_def sum_list_triv)

lemma built_section: "built f cells (fold (from_fn_step f) cells ([], replicate blocks_per_section 0))"
proof -
  have "built f [] ([], replicate blocks_per_section 0)"
    by (simp add: built_def blocks_per_section_4096)
  moreover have all: "list_all (\<lambda>(x, y, z). in_cube x y z) cells" by (auto simp: list_all_iff cells_in_cube)
  ultimately show ?thesis
    using built_cells[of "[]" cells f] length_cells by simp
qed

lemma section_from_fn_names: "set (sc_palette (section_from_fn f)) = (\<lambda>(x, y, z). f x y z) ` set cells"
  using built_section[of f] by (auto simp: section_from_fn_def built_def split: prod.splits)

lemma from_fn_facts:
  "(section_inv (section_from_fn f) \<and> length (sc_palette (section_from_fn f)) \<le> 4096)
   \<and> section_get (section_from_fn f) x y z = (if in_cube x y z then Some (f x y z) else None)"
proof -
  note b = built_section[of f]
  obtain palette indices where p: "fold (from_fn_step f) cells ([], replicate blocks_per_section 0) = (palette, indices)"
    by fastforce
  note b = b[unfolded p built_def split_conv]
  have "(0, 0, 0) \<in> set cells" by (simp add: cells_in_cube in_cube_def)
  then have ne: "palette \<noteq> []" using b by force
  have inv: "section_inv (section_from_fn f)"
    using b ne length_cells
    by (auto simp: section_from_fn_def p section_inv_def list_all_length max_def Suc_le_eq split: if_splits)
  have "sc_palette (section_from_fn f) ! cell_index (section_from_fn f) (y * 256 + z * 16 + x) = f x y z" if c: "in_cube x y z"
  proof -
    have "(x, y, z) \<in> set cells" using c cells_in_cube by blast
    then have u: "unat (indices ! (y * 256 + z * 16 + x)) < length palette"
      "palette ! unat (indices ! (y * 256 + z * 16 + x)) = f x y z" using b by auto
    then show ?thesis by (auto simp: section_from_fn_def p cell_index_def)
  qed
  moreover have "length (sc_palette (section_from_fn f)) \<le> 4096"
    using b length_cells by (auto simp: section_from_fn_def p)
  ultimately show ?thesis using inv section_get_inv[OF inv] by simp
qed

lemmas section_from_fn_exact_inv = conjunct1[OF conjunct1[OF from_fn_facts]]
lemmas section_from_fn_palette = conjunct2[OF conjunct1[OF from_fn_facts]]
lemmas section_from_fn_get = conjunct2[OF from_fn_facts]

section \<open>Replacing one block\<close>

lemma with_block_changed:
  assumes "section_inv s" "in_cube x y z" "section_get s x y z \<noteq> Some b" "intern b (sc_palette s) = (i, palette)"
  defines "indices \<equiv> (case sc_indices s of Some indices \<Rightarrow> indices | None \<Rightarrow> replicate 4096 0)"
  defines "s' \<equiv> \<lparr>sc_palette = palette, sc_indices = Some (indices[y * 256 + z * 16 + x := of_nat i])\<rparr>"
  shows "with_block x y z b s = (if i \<ge> 2 ^ 16 then None else Some s')"
    "i < 2 ^ 16 \<Longrightarrow> section_inv s'"
    "i < 2 ^ 16 \<Longrightarrow> section_get s' x' y' z' = (if (x', y', z') = (x, y, z) then Some b else section_get s x' y' z')"
proof -
  let ?o = "y * 256 + z * 16 + x"
  have d: "distinct (sc_palette s)" "sc_palette s \<noteq> []" using assms(1) by (simp_all add: section_inv_def)
  note p = intern_facts[OF assms(4) d(1)]
  obtain xs where xs: "palette = sc_palette s @ xs" "length xs \<le> 1" using p(4) by blast
  have len: "length indices = 4096"
    using assms(1) by (auto simp: indices_def section_inv_def split: option.splits)
  have idx: "unat (indices ! o') = cell_index s o'" if "o' < 4096" for o'
    using that by (auto simp: indices_def cell_index_def split: option.splits)
  have o: "?o < 4096" using offset_bound[OF assms(2)] .
  show "with_block x y z b s = (if i \<ge> 2 ^ 16 then None else Some s')"
    using assms(2,3,4) len o
    by (auto simp: with_block_def cell_offset_in s'_def indices_def Let_def blocks_per_section_4096 split: option.splits)
  assume i: "i < 2 ^ 16"
  then have ui: "unat (of_nat i :: u16) = i" by (intro unat_of_nat_small) simp
  have lp: "length palette \<le> 2 ^ 16"
    using i p(6) xs assms(1) by (cases "i = length (sc_palette s)") (auto simp: section_inv_def)
  have "unat (indices[?o := of_nat i] ! o') < length palette" if "o' < 4096" for o'
    using that len p(1) ui o idx[OF that] cell_index_bound[OF assms(1) that] xs by (auto simp: nth_list_update)
  then show inv: "section_inv s'"
    using p(3) xs d lp len by (auto simp: section_inv_def s'_def list_all_length)
  have ci: "cell_index s' o' = (if o' = ?o then i else cell_index s o')" if "o' < 4096" for o'
    using that len ui idx[OF that] by (simp add: s'_def cell_index_def[of "\<lparr>sc_palette = _, sc_indices = _\<rparr>"] nth_list_update)
  have "sc_palette s' ! cell_index s' (y' * 256 + z' * 16 + x')
      = (if (x', y', z') = (x, y, z) then b else sc_palette s ! cell_index s (y' * 256 + z' * 16 + x'))"
    if c: "in_cube x' y' z'"
  proof (cases "y' * 256 + z' * 16 + x' = ?o")
    case True
    then show ?thesis using ci[OF offset_bound[OF c]] offset_inj[OF c assms(2) True] p(2) by (simp add: s'_def)
  next
    case False
    then have "\<not> (x' = x \<and> y' = y \<and> z' = z)" by auto
    then show ?thesis
      using False ci[OF offset_bound[OF c]] xs cell_index_bound[OF assms(1) offset_bound[OF c]]
      by (auto simp: s'_def nth_append)
  qed
  then show "section_get s' x' y' z' = (if (x', y', z') = (x, y, z) then Some b else section_get s x' y' z')"
    using section_get_inv[OF inv] section_get_inv[OF assms(1)] assms(2) by auto
qed

lemma with_block_outcome:
  assumes "section_inv s"
  shows "with_block x y z b s = None \<longleftrightarrow> \<not> in_cube x y z
      \<or> (b \<notin> set (sc_palette s) \<and> length (sc_palette s) = 2 ^ 16)"
    "with_block x y z b s = Some s' \<Longrightarrow> section_inv s'
       \<and> section_get s' x' y' z' = (if (x', y', z') = (x, y, z) then Some b else section_get s x' y' z')"
proof -
  obtain i palette where it: "intern b (sc_palette s) = (i, palette)" by fastforce
  have d: "distinct (sc_palette s)" "length (sc_palette s) \<le> 2 ^ 16" using assms by (simp_all add: section_inv_def)
  have same: "with_block x y z b s = Some s" if "in_cube x y z" "section_get s x y z = Some b"
    using that by (simp add: with_block_def cell_offset_in)
  have mem: "b \<in> set (sc_palette s)" if "section_get s x y z = Some b"
    using that section_get_inv[OF assms] cell_index_bound[OF assms offset_bound] by (auto split: if_splits)
  have full: "i \<ge> 2 ^ 16 \<longleftrightarrow> b \<notin> set (sc_palette s) \<and> length (sc_palette s) = 2 ^ 16"
    using it d(2) position_of_Some[of b "sc_palette s"] position_of_None[of b "sc_palette s"]
    by (fastforce simp: intern_def split: option.splits)
  show "with_block x y z b s = None \<longleftrightarrow> \<not> in_cube x y z
      \<or> (b \<notin> set (sc_palette s) \<and> length (sc_palette s) = 2 ^ 16)"
  proof (cases "in_cube x y z \<and> section_get s x y z \<noteq> Some b")
    case True
    then show ?thesis using with_block_changed(1)[OF assms _ _ it, of x y z] full by simp
  next
    case False
    then show ?thesis using same mem by (auto simp: with_block_def cell_offset_in)
  qed
  assume s': "with_block x y z b s = Some s'"
  show "section_inv s' \<and> section_get s' x' y' z' = (if (x', y', z') = (x, y, z) then Some b else section_get s x' y' z')"
  proof (cases "section_get s x y z = Some b")
    case True
    then show ?thesis using s' assms by (auto simp: with_block_def cell_offset_in split: if_splits)
  next
    case False
    have "in_cube x y z" using s' by (auto simp: with_block_def cell_offset_in split: if_splits)
    then show ?thesis
      using with_block_changed[OF assms _ False it] s' by (auto split: if_splits)
  qed
qed

lemma with_block_names:
  "with_block x y z b s = Some s' \<Longrightarrow> set (sc_palette s') \<subseteq> insert b (set (sc_palette s))"
  by (auto simp: with_block_def intern_def Let_def split: option.splits if_splits)

text \<open>A section is a store of blocks.\<close>

definition section_at :: "world_section \<Rightarrow> nat \<times> nat \<times> nat \<Rightarrow> block option" where
  "section_at s = (\<lambda>(x, y, z). section_get s x y z)"

definition section_put :: "nat \<times> nat \<times> nat \<Rightarrow> block \<Rightarrow> world_section \<Rightarrow> world_section option" where
  "section_put = (\<lambda>(x, y, z). with_block x y z)"

interpretation sect: block_store section_at section_put section_inv
proof unfold_locales
  fix s s' b and p :: "nat \<times> nat \<times> nat"
  assume s: "section_inv s" "section_put p b s = Some s'"
  obtain x y z where p: "p = (x, y, z)" using prod_cases3 by blast
  note out = with_block_outcome[OF s(1), of x y z b]
  show "section_inv s'" using out(2) s(2) by (simp add: section_put_def p)
  show "section_at s' = (section_at s)(p \<mapsto> b)"
    using out(2) s(2) by (auto simp: section_put_def section_at_def p fun_eq_iff)
  show "section_at s p \<noteq> None"
    using out(1) s section_get_inv[OF s(1)] by (auto simp: section_put_def section_at_def p)
qed

section \<open>Properties\<close>

text \<open>A section built from a function and then changed any number of times holds, at every position of
  the cube, what was last put there, or else the function's block; it holds nothing outside the cube,
  names every distinct block once and has a valid index for every position.\<close>

lemma section_holds_what_was_put:
  assumes "put_all section_put ws (section_from_fn f) = Some s"
  shows "section_inv s
    \<and> section_at s = (\<lambda>(x, y, z). if in_cube x y z then Some (f x y z) else None) ++ map_of (rev ws)"
proof -
  have "section_at (section_from_fn f) = (\<lambda>(x, y, z). if in_cube x y z then Some (f x y z) else None)"
    by (auto simp: section_at_def section_from_fn_get fun_eq_iff)
  then show ?thesis
    using sect.put_all_inv[OF section_from_fn_exact_inv assms] sect.get_put_all[OF section_from_fn_exact_inv assms] by simp
qed

end
