(* ===== verification/World.thy ===== *)
theory World
  imports Section
begin

text \<open>
  \<^verbatim>\<open>chunk.rs\<close>, \<^verbatim>\<open>generator.rs\<close> and \<^verbatim>\<open>world.rs\<close> of \<^verbatim>\<open>bedrock-world\<close>: columns of sections,
  the flat generator, and the table of columns that exist.

  An \<^verbatim>\<open>i32\<close> coordinate is an integer; \<^verbatim>\<open>div_euclid\<close> and \<^verbatim>\<open>rem_euclid\<close> by sixteen are
  \<^const>\<open>divide\<close> and \<^const>\<open>modulo\<close>.  Nothing here leaves the range of \<^verbatim>\<open>i32\<close>: what is computed
  is a quotient, a remainder, or a section index with four added to it, whose \<^verbatim>\<open>checked_sub\<close> fails
  only where the lookup behind it fails too.  An \<^verbatim>\<open>Arc\<close> is the section it points to.
\<close>

section \<open>Columns\<close>

definition min_section :: int where "min_section = - 4"
definition max_section :: int where "max_section = 19"
definition section_count :: nat where "section_count = nat (max_section - min_section + 1)"
definition min_y :: int where "min_y = min_section * int section_size"
definition max_y :: int where "max_y = (max_section + 1) * int section_size"

record chunk =
  ck_x :: int
  ck_z :: int
  ck_sections :: "world_section list"

definition chunk_empty :: "int \<Rightarrow> int \<Rightarrow> chunk" where
  "chunk_empty x z = \<lparr>ck_x = x, ck_z = z, ck_sections = replicate section_count (section_uniform air)\<rparr>"

definition chunk_from_sections :: "int \<Rightarrow> int \<Rightarrow> world_section list \<Rightarrow> chunk option" where
  "chunk_from_sections x z sections =
     (if length sections > section_count then None
      else Some \<lparr>ck_x = x, ck_z = z,
        ck_sections = sections @ replicate (section_count - length sections) (section_uniform air)\<rparr>)"

definition chunk_position :: "chunk \<Rightarrow> int \<times> int" where
  "chunk_position c = (ck_x c, ck_z c)"

definition chunk_section :: "chunk \<Rightarrow> int \<Rightarrow> world_section option" where
  "chunk_section c index =
     (if index - min_section < 0 then None else nth_opt (ck_sections c) (nat (index - min_section)))"

definition highest_used_section :: "chunk \<Rightarrow> int option" where
  "highest_used_section c =
     (case filter (\<lambda>slot. \<not> section_is_empty (ck_sections c ! slot)) [0..<length (ck_sections c)] of
        [] \<Rightarrow> None
      | slot # slots \<Rightarrow> Some (min_section + int (last (slot # slots))))"

definition section_index :: "int \<Rightarrow> int" where
  "section_index y = y div int section_size"

definition section_offset :: "int \<Rightarrow> nat" where
  "section_offset y = nat (y mod int section_size)"

definition chunk_block_at :: "chunk \<Rightarrow> nat \<Rightarrow> int \<Rightarrow> nat \<Rightarrow> block option" where
  "chunk_block_at c x y z =
     (case chunk_section c (section_index y) of
        None \<Rightarrow> None
      | Some s \<Rightarrow> section_get s x (section_offset y) z)"

definition chunk_set_block :: "nat \<Rightarrow> int \<Rightarrow> nat \<Rightarrow> block \<Rightarrow> chunk \<Rightarrow> bool \<times> chunk" where
  "chunk_set_block x y z b c =
     (let index = section_index y in
      if index - min_section < 0 then (False, c)
      else
        (let slot = nat (index - min_section) in
         case nth_opt (ck_sections c) slot of
           None \<Rightarrow> (False, c)
         | Some s \<Rightarrow>
             (case with_block x (section_offset y) z b s of
                None \<Rightarrow> (False, c)
              | Some updated \<Rightarrow> (True, c\<lparr>ck_sections := (ck_sections c)[slot := updated]\<rparr>))))"

section \<open>The generator\<close>

record flat =
  fl_surface_height :: int
  fl_template :: "world_section list"

text \<open>\<^verbatim>\<open>height.clamp(0, 16)\<close>.\<close>

definition cut_section :: "int \<Rightarrow> world_section" where
  "cut_section height =
     (let height = nat (max 0 (min height (int section_size)))
      in section_from_fn (\<lambda>_ y _. if y < height then stone else air))"

definition flat_section :: "int \<Rightarrow> int \<Rightarrow> world_section" where
  "flat_section surface_height index =
     (let bottom = index * int section_size;
          top = bottom + int section_size
      in if top \<le> surface_height then section_uniform stone
         else if bottom \<ge> surface_height then section_uniform air
         else cut_section (surface_height - bottom))"

definition new_flat :: "int \<Rightarrow> flat" where
  "new_flat surface_height =
     \<lparr>fl_surface_height = surface_height,
      fl_template = map (flat_section surface_height) [min_section..max_section]\<rparr>"

definition flat_generate :: "int \<Rightarrow> int \<Rightarrow> flat \<Rightarrow> chunk" where
  "flat_generate x z g =
     (case chunk_from_sections x z (fl_template g) of
        Some c \<Rightarrow> c
      | None \<Rightarrow> chunk_empty x z)"

section \<open>The world\<close>

record world =
  wd_generator :: flat
  wd_chunks :: "(int \<times> int, chunk) hash_map"

definition world_flat :: "int \<Rightarrow> world" where
  "world_flat surface_height = \<lparr>wd_generator = new_flat surface_height, wd_chunks = hm_new\<rparr>"

definition world_surface_height :: "world \<Rightarrow> int" where
  "world_surface_height w = fl_surface_height (wd_generator w)"

text \<open>\<^verbatim>\<open>entry(..).or_insert_with(..)\<close>: the column, and the world that now holds it.\<close>

definition world_chunk :: "int \<Rightarrow> int \<Rightarrow> world \<Rightarrow> chunk \<times> world" where
  "world_chunk x z w =
     (case hm_get (wd_chunks w) (x, z) of
        Some c \<Rightarrow> (c, w)
      | None \<Rightarrow>
          let c = flat_generate x z (wd_generator w)
          in (c, w\<lparr>wd_chunks := hm_insert (x, z) c (wd_chunks w)\<rparr>))"

definition loaded_chunk :: "int \<Rightarrow> int \<Rightarrow> world \<Rightarrow> chunk option" where
  "loaded_chunk x z w = hm_get (wd_chunks w) (x, z)"

definition world_loaded :: "world \<Rightarrow> nat" where
  "world_loaded w = hm_len (wd_chunks w)"

definition world_unload :: "int \<Rightarrow> int \<Rightarrow> world \<Rightarrow> bool \<times> world" where
  "world_unload x z w =
     (hm_get (wd_chunks w) (x, z) \<noteq> None, w\<lparr>wd_chunks := hm_remove (x, z) (wd_chunks w)\<rparr>)"

definition chunk_of :: "int \<Rightarrow> int \<Rightarrow> int \<times> int" where
  "chunk_of x z = (x div int section_size, z div int section_size)"

definition local_of :: "int \<Rightarrow> int \<Rightarrow> nat \<times> nat" where
  "local_of x z = (nat (x mod int section_size), nat (z mod int section_size))"

definition world_block_at :: "int \<Rightarrow> int \<Rightarrow> int \<Rightarrow> world \<Rightarrow> block option \<times> world" where
  "world_block_at x y z w =
     (case chunk_of x z of (cx, cz) \<Rightarrow>
      case local_of x z of (lx, lz) \<Rightarrow>
      case world_chunk cx cz w of (c, w) \<Rightarrow> (chunk_block_at c lx y lz, w))"

definition world_set_block :: "int \<Rightarrow> int \<Rightarrow> int \<Rightarrow> block \<Rightarrow> world \<Rightarrow> bool \<times> world" where
  "world_set_block x y z b w =
     (case chunk_of x z of (cx, cz) \<Rightarrow>
      case local_of x z of (lx, lz) \<Rightarrow>
      case world_chunk cx cz w of (c, w) \<Rightarrow>
      case chunk_set_block lx y lz b c of (ok, c) \<Rightarrow>
        (ok, w\<lparr>wd_chunks := hm_insert (cx, cz) c (wd_chunks w)\<rparr>))"

section \<open>Columns as stores of blocks\<close>

definition chunk_inv :: "chunk \<Rightarrow> bool" where
  "chunk_inv c \<longleftrightarrow> length (ck_sections c) = 24 \<and> list_all section_inv (ck_sections c)"

lemma section_count_24: "section_count = 24"
  by (simp add: section_count_def min_section_def max_section_def)

definition in_column :: "nat \<Rightarrow> int \<Rightarrow> nat \<Rightarrow> bool" where
  "in_column x y z \<longleftrightarrow> x < 16 \<and> z < 16 \<and> - 64 \<le> y \<and> y < 320"

lemma slot_bounds: "(0 \<le> y div 16 + 4 \<and> nat (y div 16 + 4) < 24) \<longleftrightarrow> (- 64 \<le> y \<and> y < 320)"
  by auto

lemma offset_lt: "section_offset y < 16"
  by (simp add: section_offset_def section_size_def nat_less_iff)

lemma y_split: "y = 16 * section_index y + int (section_offset y)"
  by (simp add: section_index_def section_offset_def section_size_def)

lemma chunk_section_inv:
  assumes "chunk_inv c"
  shows "chunk_section c (section_index y) =
    (if - 64 \<le> y \<and> y < 320 then Some (ck_sections c ! nat (y div 16 + 4)) else None)"
  using assms slot_bounds[of y]
  by (auto simp: chunk_section_def section_index_def section_size_def min_section_def chunk_inv_def nth_opt_def)

lemma chunk_slot_inv: "chunk_inv c \<Longrightarrow> - 64 \<le> y \<Longrightarrow> y < 320 \<Longrightarrow> section_inv (ck_sections c ! nat (y div 16 + 4))"
  using slot_bounds[of y] by (auto simp: chunk_inv_def list_all_length)

lemma chunk_block_inside:
  assumes "chunk_inv c"
  shows "chunk_block_at c x y z \<noteq> None \<longleftrightarrow> in_column x y z"
  using assms chunk_slot_inv[OF assms, of y] offset_lt[of y]
  by (auto simp: chunk_block_at_def chunk_section_inv section_get_inv in_cube_def in_column_def)

lemma chunk_set_block_outcome:
  assumes "chunk_inv c" "chunk_set_block x y z b c = (ok, c')"
  shows "chunk_inv c'" "ck_x c' = ck_x c" "ck_z c' = ck_z c"
    "\<not> ok \<Longrightarrow> c' = c" "ok \<Longrightarrow> in_column x y z"
    "ok \<Longrightarrow> chunk_block_at c' x' y' z' = (if (x', y', z') = (x, y, z) then Some b else chunk_block_at c x' y' z')"
proof -
  let ?k = "nat (y div 16 + 4)"
  have "chunk_inv c' \<and> ck_x c' = ck_x c \<and> ck_z c' = ck_z c \<and> (\<not> ok \<longrightarrow> c' = c) \<and> (ok \<longrightarrow> in_column x y z \<and>
    chunk_block_at c' x' y' z' = (if (x', y', z') = (x, y, z) then Some b else chunk_block_at c x' y' z'))"
  proof (cases ok)
    case False
    then show ?thesis using assms
      by (auto simp: chunk_set_block_def Let_def split: option.splits if_splits)
  next
    case True
    then have y: "- 64 \<le> y" "y < 320"
      and s': "\<exists>s'. with_block x (section_offset y) z b (ck_sections c ! ?k) = Some s' \<and> c' = c\<lparr>ck_sections := (ck_sections c)[?k := s']\<rparr>"
      using assms slot_bounds[of y]
      by (auto simp: chunk_set_block_def Let_def section_index_def section_size_def min_section_def nth_opt_def chunk_inv_def
          split: option.splits if_splits)
    then obtain s' where s': "with_block x (section_offset y) z b (ck_sections c ! ?k) = Some s'"
      "c' = c\<lparr>ck_sections := (ck_sections c)[?k := s']\<rparr>" by blast
    have si: "section_inv (ck_sections c ! ?k)" using chunk_slot_inv[OF assms(1) y] .
    note out = with_block_outcome[OF si, of x "section_offset y" z b]
    have cube: "in_cube x (section_offset y) z" using out(1) s'(1) by auto
    have k: "?k < 24" using slot_bounds[of y] y by auto
    have inv: "chunk_inv c'"
      using assms(1) out(2)[OF s'(1)] s'(2) by (auto simp: chunk_inv_def list_all_iff dest!: set_update_subset_insert[THEN subsetD])
    have cs: "ck_sections c' = (ck_sections c)[?k := s']" using s'(2) by simp
    have "chunk_block_at c' x' y' z' = (if (x', y', z') = (x, y, z) then Some b else chunk_block_at c x' y' z')"
    proof (cases "- 64 \<le> y' \<and> y' < 320 \<and> nat (y' div 16 + 4) = ?k")
      case True
      then have "y' div 16 = y div 16" using slot_bounds[of y'] slot_bounds[of y] y by (auto simp: nat_eq_iff)
      then have eq: "section_offset y' = section_offset y \<longleftrightarrow> y' = y"
        using y_split[of y] y_split[of y'] by (auto simp: section_index_def section_size_def)
      show ?thesis
        using True y k out(2)[OF s'(1), of x' "section_offset y'" z'] eq assms(1)
        by (auto simp: chunk_block_at_def chunk_section_inv[OF inv] chunk_section_inv[OF assms(1)] cs chunk_inv_def)
    next
      case False
      then show ?thesis using y
        by (auto simp: chunk_block_at_def chunk_section_inv[OF inv] chunk_section_inv[OF assms(1)] cs)
    qed
    then show ?thesis using inv cube s'(2) y True by (simp add: in_cube_def in_column_def)
  qed
  then show "chunk_inv c'" "ck_x c' = ck_x c" "ck_z c' = ck_z c"
    "\<not> ok \<Longrightarrow> c' = c" "ok \<Longrightarrow> in_column x y z"
    "ok \<Longrightarrow> chunk_block_at c' x' y' z' = (if (x', y', z') = (x, y, z) then Some b else chunk_block_at c x' y' z')"
    by blast+
qed

text \<open>When a change is made: inside the column, unless the palette of the section is full of other blocks.  A
  palette only ever grows, up to the \<open>2 ^ 16\<close> entries an index can name.\<close>

definition admits :: "block \<Rightarrow> world_section \<Rightarrow> bool" where
  "admits b s \<longleftrightarrow> b \<in> set (sc_palette s) \<or> length (sc_palette s) < 2 ^ 16"

lemma chunk_set_block_succeeds:
  assumes "chunk_inv c"
  shows "fst (chunk_set_block x y z b c) \<longleftrightarrow> in_column x y z \<and> admits b (ck_sections c ! nat (y div 16 + 4))"
proof (cases "- 64 \<le> y \<and> y < 320")
  case True
  let ?k = "nat (y div 16 + 4)"
  have k: "?k < 24" "0 \<le> y div 16 + 4" using slot_bounds[of y] True by auto
  have si: "section_inv (ck_sections c ! ?k)" using chunk_slot_inv[OF assms] True by simp
  then have "length (sc_palette (ck_sections c ! ?k)) \<le> 2 ^ 16" by (simp add: section_inv_def)
  then have out: "with_block x (section_offset y) z b (ck_sections c ! ?k) = None
      \<longleftrightarrow> \<not> (in_column x y z \<and> admits b (ck_sections c ! ?k))"
    using with_block_outcome(1)[OF si] offset_lt[of y] True by (auto simp: in_cube_def in_column_def admits_def)
  have "fst (chunk_set_block x y z b c) \<longleftrightarrow> with_block x (section_offset y) z b (ck_sections c ! ?k) \<noteq> None"
    using assms k
    by (auto simp: chunk_set_block_def Let_def section_index_def section_size_def min_section_def nth_opt_def chunk_inv_def
        split: option.splits)
  then show ?thesis unfolding out by blast
next
  case False
  then have "\<not> fst (chunk_set_block x y z b c)"
    using chunk_set_block_outcome(5)[OF assms prod.collapse[symmetric]] by (auto simp: in_column_def)
  then show ?thesis using False by (auto simp: in_column_def)
qed

definition chunk_at :: "chunk \<Rightarrow> nat \<times> int \<times> nat \<Rightarrow> block option" where
  "chunk_at c = (\<lambda>(x, y, z). chunk_block_at c x y z)"

text \<open>The outcome of an operation that answers whether it happened.\<close>

definition if_done :: "bool \<times> 's \<Rightarrow> 's option" where
  "if_done r = (if fst r then Some (snd r) else None)"

definition chunk_put :: "nat \<times> int \<times> nat \<Rightarrow> block \<Rightarrow> chunk \<Rightarrow> chunk option" where
  "chunk_put = (\<lambda>(x, y, z) b c. if_done (chunk_set_block x y z b c))"

interpretation column: block_store chunk_at chunk_put chunk_inv
proof unfold_locales
  fix c c' b and p :: "nat \<times> int \<times> nat"
  assume c: "chunk_inv c" "chunk_put p b c = Some c'"
  obtain x y z where p: "p = (x, y, z)" using prod_cases3 by blast
  have set: "chunk_set_block x y z b c = (True, c')"
    using c(2) by (cases "chunk_set_block x y z b c") (auto simp: chunk_put_def p if_done_def split: if_splits)
  note out = chunk_set_block_outcome[OF c(1) set]
  show "chunk_inv c'" by (rule out(1))
  show "chunk_at c' = (chunk_at c)(p \<mapsto> b)"
    using out(6) by (auto simp: chunk_at_def p fun_eq_iff)
  show "chunk_at c p \<noteq> None"
    using out(5) chunk_block_inside[OF c(1), of x y z] by (simp add: chunk_at_def p)
qed

lemma chunk_inv_empty: "chunk_inv (chunk_empty x z)"
  by (simp add: chunk_empty_def chunk_inv_def section_count_24 list_all_iff)

section \<open>The flat generator\<close>

definition flat_inv :: "flat \<Rightarrow> bool" where
  "flat_inv g \<longleftrightarrow> length (fl_template g) = 24 \<and> list_all section_inv (fl_template g)"

lemma chunk_inv_generate: "flat_inv g \<Longrightarrow> chunk_inv (flat_generate x z g)"
  by (auto simp: flat_generate_def chunk_from_sections_def chunk_inv_def flat_inv_def section_count_24)

lemma flat_inv_new: "flat_inv (new_flat h)"
  using section_from_fn_exact_inv
  by (auto simp: flat_inv_def new_flat_def min_section_def max_section_def list_all_iff flat_section_def cut_section_def Let_def)

lemma upto_nth: "i < nat (b - a + 1) \<Longrightarrow> [a..b] ! i = a + int i"
  using nth_upto by simp

lemma flat_block:
  "chunk_block_at (flat_generate cx cz (new_flat h)) x y z =
     (if in_column x y z then Some (if y < h then stone else air) else None)"
proof (cases "in_column x y z")
  case False
  then show ?thesis
    using chunk_block_inside[OF chunk_inv_generate[OF flat_inv_new], of cx cz h x y z] by (simp add: not_None_eq)
next
  case True
  then have y: "- 64 \<le> y" "y < 320" and xz: "x < 16" "z < 16" by (auto simp: in_column_def)
  let ?i = "y div 16" and ?k = "nat (y div 16 + 4)"
  have secs: "ck_sections (flat_generate cx cz (new_flat h)) = map (flat_section h) [min_section..max_section]"
    by (simp add: flat_generate_def chunk_from_sections_def new_flat_def section_count_def)
  have k: "?k < 24" "0 \<le> ?i + 4" using slot_bounds[of y] y by auto
  then have "[min_section..max_section] ! ?k = ?i"
    using upto_nth[of ?k max_section min_section] by (simp add: min_section_def max_section_def)
  moreover have "length [min_section..max_section] = 24" by (simp add: min_section_def max_section_def)
  ultimately have sec: "ck_sections (flat_generate cx cz (new_flat h)) ! ?k = flat_section h ?i"
    using k by (simp only: secs nth_map)
  have split: "y = 16 * ?i + int (section_offset y)" using y_split[of y] by (simp add: section_index_def section_size_def)
  have o: "section_offset y < 16" by (rule offset_lt)
  have "section_get (flat_section h ?i) x (section_offset y) z = Some (if y < h then stone else air)"
  proof -
    have cube: "in_cube x (section_offset y) z" using xz o by (simp add: in_cube_def)
    consider (low) "?i * 16 + 16 \<le> h" | (high) "h \<le> ?i * 16" | (cut) "?i * 16 < h" "h < ?i * 16 + 16" by linarith
    then show ?thesis
    proof cases
      case cut
      have "section_offset y < nat (max 0 (min (h - ?i * 16) 16)) \<longleftrightarrow> y < h" using cut split o by linarith
      then show ?thesis
        using cut cube section_from_fn_get by (simp add: flat_section_def Let_def section_size_def cut_section_def)
    qed (use split o cube in \<open>auto simp: flat_section_def Let_def section_size_def section_get_uniform\<close>)
  qed
  then show ?thesis
    using y True chunk_section_inv[OF chunk_inv_generate[OF flat_inv_new], of cx cz h y]
    by (simp add: chunk_block_at_def sec)
qed

section \<open>The world as one store of blocks\<close>

definition world_inv :: "world \<Rightarrow> bool" where
  "world_inv w \<longleftrightarrow> flat_inv (wd_generator w) \<and> hm_ok (wd_chunks w)
     \<and> (\<forall>p c. hm_get (wd_chunks w) p = Some c \<longrightarrow> chunk_inv c \<and> chunk_position c = p)"

text \<open>
  What a world specifies: the block at every position.  A column that does not exist yet is the one
  the generator would make.
\<close>

definition column_view :: "world \<Rightarrow> int \<times> int \<Rightarrow> chunk" where
  "column_view w p = (case hm_get (wd_chunks w) p of Some c \<Rightarrow> c | None \<Rightarrow> flat_generate (fst p) (snd p) (wd_generator w))"

definition world_view :: "world \<Rightarrow> int \<times> int \<times> int \<Rightarrow> block option" where
  "world_view w = (\<lambda>(x, y, z). chunk_block_at (column_view w (chunk_of x z)) (fst (local_of x z)) y (snd (local_of x z)))"

lemma world_inv_flat: "world_inv (world_flat h)"
  by (simp add: world_inv_def world_flat_def flat_inv_new hm.invar_emp hm.get_emp)

lemma generate_position: "chunk_position (flat_generate x z g) = (x, z)"
  by (simp add: flat_generate_def chunk_from_sections_def chunk_position_def chunk_empty_def)

lemma column_view_inv: "world_inv w \<Longrightarrow> chunk_inv (column_view w p) \<and> chunk_position (column_view w p) = p"
  using generate_position chunk_inv_generate
  by (cases p) (auto simp: column_view_def world_inv_def split: option.splits)

lemma world_insert_column:
  assumes "world_inv w" "chunk_inv c" "chunk_position c = p"
  defines "w' \<equiv> w\<lparr>wd_chunks := hm_insert p c (wd_chunks w)\<rparr>"
  shows "world_inv w'" "column_view w' = (column_view w)(p := c)" "hm_get (wd_chunks w') p = Some c"
proof -
  have get: "hm_get (wd_chunks w') = (hm_get (wd_chunks w))(p \<mapsto> c)"
    using assms(1) by (simp add: w'_def world_inv_def hm.get_ins)
  have g: "wd_generator w' = wd_generator w" by (simp add: w'_def)
  show "world_inv w'" using assms(1-3) get g by (auto simp: world_inv_def w'_def hm.invar_ins)
  show "column_view w' = (column_view w)(p := c)" by (auto simp: column_view_def get g fun_eq_iff split: option.splits)
  show "hm_get (wd_chunks w') p = Some c" by (simp add: get)
qed

lemma world_chunk_spec:
  assumes "world_inv w" "world_chunk x z w = (c, w')"
  shows "c = column_view w (x, z)" "world_inv w'" "column_view w' = column_view w"
    "hm_get (wd_chunks w') (x, z) = Some c" "wd_generator w' = wd_generator w"
proof -
  have g: "chunk_inv (flat_generate x z (wd_generator w))"
    using assms(1) by (simp add: world_inv_def chunk_inv_generate)
  note ins = world_insert_column[OF assms(1) g generate_position]
  have "c = column_view w (x, z) \<and> world_inv w' \<and> column_view w' = column_view w
    \<and> hm_get (wd_chunks w') (x, z) = Some c \<and> wd_generator w' = wd_generator w"
  proof (cases "hm_get (wd_chunks w) (x, z)")
    case None
    then have cw: "c = flat_generate x z (wd_generator w)" "w' = w\<lparr>wd_chunks := hm_insert (x, z) c (wd_chunks w)\<rparr>"
      using assms(2) by (auto simp: world_chunk_def Let_def)
    then show ?thesis using ins None by (simp add: column_view_def fun_upd_idem)
  next
    case (Some c0)
    then show ?thesis using assms by (simp add: world_chunk_def column_view_def)
  qed
  then show "c = column_view w (x, z)" "world_inv w'" "column_view w' = column_view w"
    "hm_get (wd_chunks w') (x, z) = Some c" "wd_generator w' = wd_generator w"
    by blast+
qed

lemma local_bounds: "fst (local_of x z) < 16" "snd (local_of x z) < 16"
  by (simp_all add: local_of_def section_size_def nat_less_iff)

lemma coordinates_inj:
  assumes "chunk_of x z = chunk_of x' z'" "local_of x z = local_of x' z'"
  shows "x = x' \<and> z = z'"
proof -
  have "x div 16 = x' div 16" "z div 16 = z' div 16" using assms(1) by (simp_all add: chunk_of_def section_size_def)
  moreover have "x mod 16 = x' mod 16" "z mod 16 = z' mod 16"
    using assms(2) by (simp_all add: local_of_def section_size_def eq_nat_nat_iff)
  moreover have "n = 16 * (n div 16) + n mod 16" for n :: int by simp
  ultimately show ?thesis by metis
qed

lemma world_set_spec:
  assumes "world_inv w" "world_set_block x y z b w = (ok, w')"
  shows "world_inv w'" "\<not> ok \<Longrightarrow> world_view w' = world_view w"
    "ok \<Longrightarrow> world_view w' = (world_view w)((x, y, z) \<mapsto> b)" "ok \<Longrightarrow> - 64 \<le> y \<and> y < 320"
    "wd_generator w' = wd_generator w"
proof -
  obtain cx cz where cp: "chunk_of x z = (cx, cz)" by fastforce
  obtain lx lz where lp: "local_of x z = (lx, lz)" by fastforce
  obtain c w1 where c: "world_chunk cx cz w = (c, w1)" by fastforce
  obtain c' where c': "chunk_set_block lx y lz b c = (ok, c')"
    and w': "w' = w1\<lparr>wd_chunks := hm_insert (cx, cz) c' (wd_chunks w1)\<rparr>"
    using assms(2) by (auto simp: world_set_block_def cp lp c split: prod.splits)
  note ch = world_chunk_spec[OF assms(1) c]
  note ci = column_view_inv[OF assms(1), of "(cx, cz)", folded ch(1)]
  note out = chunk_set_block_outcome[OF conjunct1[OF ci] c']
  have pos: "chunk_position c' = (cx, cz)" using out(2,3) ci by (simp add: chunk_position_def)
  note ins = world_insert_column[OF ch(2) out(1) pos]
  show "world_inv w'" using ins(1) by (simp add: w')
  have cv: "column_view w' = (column_view w)((cx, cz) := c')" using ins(2) by (simp add: w' ch(3))
  show "wd_generator w' = wd_generator w" using ch(5) by (simp add: w')
  show "\<not> ok \<Longrightarrow> world_view w' = world_view w" using out(4) ch(1) by (simp add: world_view_def cv fun_upd_idem)
  show "ok \<Longrightarrow> - 64 \<le> y \<and> y < 320" using out(5) by (simp add: in_column_def)
  assume ok
  show "world_view w' = (world_view w)((x, y, z) \<mapsto> b)"
  proof (rule ext, clarify)
    fix x' y' z'
    show "world_view w' (x', y', z') = ((world_view w)((x, y, z) \<mapsto> b)) (x', y', z')"
    proof (cases "chunk_of x' z' = (cx, cz)")
      case True
      have "(fst (local_of x' z'), y', snd (local_of x' z')) = (lx, y, lz) \<longleftrightarrow> (x', y', z') = (x, y, z)"
        using coordinates_inj[of x' z' x z] True cp lp by (auto simp: prod_eq_iff)
      then show ?thesis
        using out(6)[OF \<open>ok\<close>, of "fst (local_of x' z')" y' "snd (local_of x' z')"] True
        by (simp add: world_view_def cv ch(1))
    next
      case False
      then show ?thesis using cp by (auto simp: world_view_def cv)
    qed
  qed
qed

text \<open>The section of the world that holds a position.\<close>

definition section_holding :: "world \<Rightarrow> int \<times> int \<times> int \<Rightarrow> world_section" where
  "section_holding w = (\<lambda>(x, y, z). ck_sections (column_view w (chunk_of x z)) ! nat (y div 16 + 4))"

lemma world_set_succeeds:
  assumes "world_inv w"
  shows "fst (world_set_block x y z b w) \<longleftrightarrow> - 64 \<le> y \<and> y < 320 \<and> admits b (section_holding w (x, y, z))"
proof -
  obtain cx cz where cp: "chunk_of x z = (cx, cz)" by fastforce
  obtain lx lz where lp: "local_of x z = (lx, lz)" by fastforce
  obtain c w1 where c: "world_chunk cx cz w = (c, w1)" by fastforce
  have view: "c = column_view w (cx, cz)" by (rule world_chunk_spec(1)[OF assms c])
  have "chunk_inv c" using column_view_inv[OF assms] by (simp add: view)
  from chunk_set_block_succeeds[OF this, of lx y lz b] show ?thesis
    using local_bounds[of x z]
    by (auto simp: world_set_block_def section_holding_def cp lp c view in_column_def split: prod.splits)
qed

definition world_put :: "int \<times> int \<times> int \<Rightarrow> block \<Rightarrow> world \<Rightarrow> world option" where
  "world_put = (\<lambda>(x, y, z) b w. if_done (world_set_block x y z b w))"

lemma world_view_inside: "world_inv w \<Longrightarrow> world_view w (x, y, z) \<noteq> None \<longleftrightarrow> - 64 \<le> y \<and> y < 320"
  using chunk_block_inside[OF conjunct1[OF column_view_inv]] local_bounds[of x z]
  by (simp add: world_view_def in_column_def)

interpretation earth: block_store world_view world_put world_inv
proof unfold_locales
  fix w w' b and p :: "int \<times> int \<times> int"
  assume w: "world_inv w" "world_put p b w = Some w'"
  obtain x y z where p: "p = (x, y, z)" using prod_cases3 by blast
  have set: "world_set_block x y z b w = (True, w')"
    using w(2) by (cases "world_set_block x y z b w") (auto simp: world_put_def p if_done_def split: if_splits)
  note out = world_set_spec[OF w(1) set]
  show "world_inv w'" by (rule out(1))
  show "world_view w' = (world_view w)(p \<mapsto> b)" using out(3) by (simp add: p)
  show "world_view w p \<noteq> None" using out(4) world_view_inside[OF w(1)] by (simp add: p)
qed

lemma world_view_flat:
  "world_view (world_flat h) (x, y, z) = (if - 64 \<le> y \<and> y < 320 then Some (if y < h then stone else air) else None)"
  using flat_block[of "fst (chunk_of x z)" "snd (chunk_of x z)" h "fst (local_of x z)" y "snd (local_of x z)"] local_bounds[of x z]
  by (simp add: world_view_def column_view_def world_flat_def hm.get_emp in_column_def)

lemma world_block_at_spec:
  assumes "world_inv w"
  shows "fst (world_block_at x y z w) = world_view w (x, y, z)" "world_inv (snd (world_block_at x y z w))"
    "world_view (snd (world_block_at x y z w)) = world_view w"
proof -
  obtain cx cz where cp: "chunk_of x z = (cx, cz)" by fastforce
  obtain lx lz where lp: "local_of x z = (lx, lz)" by fastforce
  obtain c w1 where c: "world_chunk cx cz w = (c, w1)" by fastforce
  note ch = world_chunk_spec[OF assms c]
  show "fst (world_block_at x y z w) = world_view w (x, y, z)" "world_inv (snd (world_block_at x y z w))"
    "world_view (snd (world_block_at x y z w)) = world_view w"
    using ch by (simp_all add: world_block_at_def cp lp c world_view_def)
qed

lemma world_unload_spec:
  assumes "world_inv w"
  shows "world_inv (snd (world_unload x z w))"
    "column_view (snd (world_unload x z w)) = (column_view w)((x, z) := flat_generate x z (wd_generator w))"
  using assms
  by (auto simp: world_unload_def world_inv_def hm.get_del hm.invar_del column_view_def fun_eq_iff split: option.splits)

section \<open>Palettes have room for the blocks in use\<close>

text \<open>Every palette names blocks of \<open>B\<close> only.\<close>

definition palettes_in :: "block set \<Rightarrow> world \<Rightarrow> bool" where
  "palettes_in B w \<longleftrightarrow> (\<forall>p. list_all (\<lambda>s. set (sc_palette s) \<subseteq> B) (ck_sections (column_view w p)))"

lemma flat_section_names: "set (sc_palette (flat_section h i)) \<subseteq> {stone, air}"
  by (auto simp: flat_section_def cut_section_def section_uniform_def section_from_fn_names Let_def)

lemma flat_palettes: "{stone, air} \<subseteq> B \<Longrightarrow> palettes_in B (world_flat h)"
  using flat_section_names[of h]
  by (fastforce simp: palettes_in_def column_view_def world_flat_def hm.get_emp flat_generate_def chunk_from_sections_def
      new_flat_def section_count_def min_section_def max_section_def list_all_iff)

lemma chunk_set_names:
  assumes "chunk_set_block x y z b c = (ok, c')" "list_all (\<lambda>s. set (sc_palette s) \<subseteq> B) (ck_sections c)" "b \<in> B"
  shows "list_all (\<lambda>s. set (sc_palette s) \<subseteq> B) (ck_sections c')"
proof (cases ok)
  case True
  then obtain k s' where "k < length (ck_sections c)" "with_block x (section_offset y) z b (ck_sections c ! k) = Some s'"
    "ck_sections c' = (ck_sections c)[k := s']"
    using assms(1) by (auto simp: chunk_set_block_def Let_def nth_opt_def split: option.splits if_splits)
  moreover from this have "set (sc_palette s') \<subseteq> B"
    using with_block_names assms(2,3) by (force simp: list_all_length)
  ultimately show ?thesis using assms(2) by (auto simp: list_all_length nth_list_update)
next
  case False
  then show ?thesis using assms(1,2) by (auto simp: chunk_set_block_def Let_def split: option.splits if_splits)
qed

lemma world_set_palettes:
  assumes "world_inv w" "palettes_in B w" "b \<in> B" "world_set_block x y z b w = (ok, w')"
  shows "palettes_in B w'"
proof -
  obtain cx cz where cp: "chunk_of x z = (cx, cz)" by fastforce
  obtain lx lz where lp: "local_of x z = (lx, lz)" by fastforce
  obtain c w1 where c: "world_chunk cx cz w = (c, w1)" by fastforce
  obtain c' where c': "chunk_set_block lx y lz b c = (ok, c')"
    and w': "w' = w1\<lparr>wd_chunks := hm_insert (cx, cz) c' (wd_chunks w1)\<rparr>"
    using assms(4) by (auto simp: world_set_block_def cp lp c split: prod.splits)
  note ch = world_chunk_spec[OF assms(1) c]
  note ci = column_view_inv[OF assms(1), of "(cx, cz)", folded ch(1)]
  note out = chunk_set_block_outcome[OF conjunct1[OF ci] c']
  have pos: "chunk_position c' = (cx, cz)" using out(2,3) ci by (simp add: chunk_position_def)
  have "column_view w' = (column_view w)((cx, cz) := c')" using world_insert_column(2)[OF ch(2) out(1) pos] by (simp add: w' ch(3))
  then show ?thesis using assms(2) chunk_set_names[OF c' _ assms(3)] ch(1) by (simp add: palettes_in_def)
qed

lemma palettes_admit:
  assumes "section_inv s" "set (sc_palette s) \<subseteq> B" "finite B" "card B \<le> 2 ^ 16" "b \<in> B"
  shows "admits b s"
proof (cases "b \<in> set (sc_palette s)")
  case False
  then have "card (set (sc_palette s)) < card B" using assms(2,3,5) by (intro psubset_card_mono) auto
  then show ?thesis using assms(1,4) by (simp add: admits_def section_inv_def distinct_card)
qed (simp add: admits_def)

lemma section_holding_facts:
  assumes "world_inv w" "palettes_in B w" "- 64 \<le> y" "y < 320"
  shows "section_inv (section_holding w (x, y, z))" "set (sc_palette (section_holding w (x, y, z))) \<subseteq> B"
proof -
  let ?c = "column_view w (chunk_of x z)"
  have "chunk_inv ?c" using column_view_inv[OF assms(1)] by simp
  moreover have "list_all (\<lambda>s. set (sc_palette s) \<subseteq> B) (ck_sections ?c)"
    using assms(2) unfolding palettes_in_def by (rule spec)
  moreover have "nat (y div 16 + 4) < 24" using slot_bounds[of y] assms(3,4) by auto
  ultimately show "section_inv (section_holding w (x, y, z))" "set (sc_palette (section_holding w (x, y, z))) \<subseteq> B"
    by (simp_all add: section_holding_def chunk_inv_def list_all_length)
qed

lemma changes_succeed:
  assumes "finite B" "card B \<le> 2 ^ 16"
  shows "world_inv w \<Longrightarrow> palettes_in B w \<Longrightarrow> snd ` set ws \<subseteq> B \<Longrightarrow> list_all (\<lambda>((x, y, z), b). - 64 \<le> y \<and> y < 320) ws
    \<Longrightarrow> \<exists>w'. put_all world_put ws w = Some w'"
proof (induction ws arbitrary: w)
  case (Cons c ws)
  obtain x y z b where c: "c = ((x, y, z), b)" by (metis prod.collapse)
  obtain ok w1 where w1: "world_set_block x y z b w = (ok, w1)" by fastforce
  have y: "- 64 \<le> y" "y < 320" and b: "b \<in> B" using Cons.prems by (simp_all add: c)
  note at = section_holding_facts[OF Cons.prems(1,2) y]
  have "ok"
    using world_set_succeeds[OF Cons.prems(1), of x y z b] palettes_admit[OF at assms b] y by (simp add: w1)
  then have "put_all world_put (c # ws) w = put_all world_put ws w1" by (simp add: c world_put_def if_done_def w1)
  then show ?case
    using Cons.IH[of w1] Cons.prems world_set_spec(1)[OF Cons.prems(1) w1] world_set_palettes[OF Cons.prems(1,2) b w1] by simp
qed simp

section \<open>Properties\<close>

text \<open>C11: The world behaves as one map from positions to blocks, generated or not: looking at a block
  answers the map and changes nothing, generating a column changes nothing, replacing a block changes
  the map at that position only; that fails, and then changes nothing, exactly outside the height of the
  world and where the palette of the section is full of other blocks.  Unloading a column sets back
  exactly the positions of that column to what the generator makes.\<close>

theorem world_refines_its_view:
  assumes "world_inv w"
  shows "fst (world_block_at x y z w) = world_view w (x, y, z)
    \<and> world_inv (snd (world_block_at x y z w)) \<and> world_view (snd (world_block_at x y z w)) = world_view w
    \<and> world_inv (snd (world_chunk cx cz w)) \<and> world_view (snd (world_chunk cx cz w)) = world_view w
    \<and> world_inv (snd (world_set_block x y z b w))
    \<and> world_view (snd (world_set_block x y z b w))
       = (if fst (world_set_block x y z b w) then (world_view w)((x, y, z) \<mapsto> b) else world_view w)
    \<and> (fst (world_set_block x y z b w) \<longleftrightarrow> - 64 \<le> y \<and> y < 320 \<and> admits b (section_holding w (x, y, z)))
    \<and> world_inv (snd (world_unload cx cz w))
    \<and> world_view (snd (world_unload cx cz w)) (x, y, z)
       = (if chunk_of x z = (cx, cz)
          then chunk_block_at (flat_generate cx cz (wd_generator w)) (fst (local_of x z)) y (snd (local_of x z))
          else world_view w (x, y, z))"
proof -
  note chunk = world_chunk_spec[OF assms prod.collapse[symmetric], of cx cz]
    and set = world_set_spec[OF assms prod.collapse[symmetric], of x y z b]
  have "world_view (snd (world_chunk cx cz w)) = world_view w" by (simp add: world_view_def chunk(3))
  moreover have "world_view (snd (world_unload cx cz w)) (x, y, z)
       = (if chunk_of x z = (cx, cz)
          then chunk_block_at (flat_generate cx cz (wd_generator w)) (fst (local_of x z)) y (snd (local_of x z))
          else world_view w (x, y, z))"
    by (simp add: world_view_def world_unload_spec(2)[OF assms])
  ultimately show ?thesis
    using world_block_at_spec[OF assms, of x y z] chunk(2) set(1-3) world_unload_spec(1)[OF assms]
      world_set_succeeds[OF assms, of x y z b] by simp
qed

lemma world_refines_its_view_witness:
  "fst (world_set_block (- 1) 79 (- 17) air (world_flat 80))
   \<and> world_view (snd (world_set_block (- 1) 79 (- 17) air (world_flat 80))) (- 1, 79, - 17) = Some air
   \<and> \<not> fst (world_set_block (- 1) 320 (- 17) air (world_flat 80))"
proof -
  let ?s = "section_holding (world_flat 80) (- 1, 79, - 17)"
  note at = section_holding_facts[OF world_inv_flat flat_palettes[OF subset_refl], of 79 80 "- 1" "- 17"]
  have "admits air ?s" by (rule palettes_admit[where B = "{stone, air}"]) (use at in \<open>simp_all add: card_insert_if\<close>)
  then show ?thesis
    using world_refines_its_view[OF world_inv_flat, of "- 1" 79 "- 17" 80 0 0 air]
      world_refines_its_view[OF world_inv_flat, of "- 1" 320 "- 17" 80 0 0 air] by auto
qed

text \<open>C12: Block changes made one after another to a flat world, naming no more blocks than a palette can
  hold, all succeed exactly when they are all within its height; it then holds at every position what was last
  put there, or else stone below the surface and air from it up.\<close>

theorem world_holds_what_was_put:
  assumes "card ({stone, air} \<union> snd ` set ws) \<le> 2 ^ 16"
  shows "case put_all world_put ws (world_flat h) of
      None \<Rightarrow> \<not> list_all (\<lambda>((x, y, z), b). - 64 \<le> y \<and> y < 320) ws
    | Some w \<Rightarrow> list_all (\<lambda>((x, y, z), b). - 64 \<le> y \<and> y < 320) ws
        \<and> (\<forall>x y z. fst (world_block_at x y z w) =
            (case map_of (rev ws) (x, y, z) of
               Some b \<Rightarrow> Some b
             | None \<Rightarrow> if - 64 \<le> y \<and> y < 320 then Some (if y < h then stone else air) else None))"
proof (cases "put_all world_put ws (world_flat h)")
  case None
  then show ?thesis
    using changes_succeed[OF _ assms world_inv_flat[of h] flat_palettes, of ws] by (auto simp: subset_insertI2)
next
  case (Some w)
  have inv: "world_inv w" using earth.put_all_inv[OF world_inv_flat Some] .
  have inside: "fst ` set ws \<subseteq> dom (world_view (world_flat h))"
    using earth.put_all_inside[OF world_inv_flat Some] .
  have "- 64 \<le> y \<and> y < 320" if "((x, y, z), b) \<in> set ws" for x y z b
  proof -
    have "(x, y, z) \<in> fst ` set ws" using that by force
    then have "world_view (world_flat h) (x, y, z) \<noteq> None" using inside by blast
    then show ?thesis unfolding world_view_inside[OF world_inv_flat] .
  qed
  then have "list_all (\<lambda>((x, y, z), b). - 64 \<le> y \<and> y < 320) ws" unfolding list_all_iff by fast
  moreover have "world_view w (x, y, z) = (world_view (world_flat h) ++ map_of (rev ws)) (x, y, z)" for x y z
    using earth.get_put_all[OF world_inv_flat Some] by simp
  ultimately show ?thesis
    by (simp only: Some option.case world_block_at_spec(1)[OF inv] map_add_def world_view_flat simp_thms)
qed

text \<open>Three changes, the last of them to a position changed before, on both sides of zero.\<close>

lemma world_holds_what_was_put_witness:
  "\<exists>w. put_all world_put [((5, 80, 5), stone), ((- 1, - 64, - 17), air), ((5, 80, 5), block_new (ascii ''x''))] (world_flat 80) = Some w
    \<and> fst (world_block_at 5 80 5 w) = Some (block_new (ascii ''x'')) \<and> fst (world_block_at (- 1) (- 64) (- 17) w) = Some air
    \<and> fst (world_block_at 5 79 5 w) = Some stone"
proof -
  let ?ws = "[((5 :: int, 80 :: int, 5 :: int), stone), ((- 1, - 64, - 17), air), ((5, 80, 5), block_new (ascii ''x''))]"
  have "card ({stone, air} \<union> snd ` set ?ws) \<le> card {stone, air, block_new (ascii ''x'')}" by (rule card_mono) auto
  also have "\<dots> \<le> 3" by (rule card_insert_le_m1; simp add: card_insert_le_m1)
  finally have "card ({stone, air} \<union> snd ` set ?ws) \<le> 2 ^ 16" by simp
  from world_holds_what_was_put[OF this, of 80] show ?thesis by (simp split: option.splits)
qed

end
