(* ===== verification/Columns.thy ===== *)
theory Columns
  imports LevelChunk World
begin

text \<open>
  \<^verbatim>\<open>bedrock-server/src/columns.rs\<close>: the seam between the world and the wire, a column of
  sections turned into a \<^verbatim>\<open>LevelChunk\<close> packet.

  The property reads the packet with the client's reader of \<open>LevelChunk\<close> and compares it, position
  by position, with what the world holds there.
\<close>

definition subchunk_count :: "chunk \<Rightarrow> nat" where
  "subchunk_count c =
     (case highest_used_section c of
        None \<Rightarrow> 0
      | Some highest \<Rightarrow> nat (highest - min_section + 1))"

definition encode_section :: "world_section \<Rightarrow> subchunk" where
  "encode_section s =
     (let palette = map (\<lambda>b. case block_runtime_id b of Some i \<Rightarrow> i | None \<Rightarrow> runtime_id_air) (sc_palette s)
      in if uniform_block s \<noteq> None \<or> length palette \<le> 1
         then \<lparr>sb_palette = palette, sb_indices = None\<rparr>
         else
           let indices = fold (\<lambda>(x, y, z) indices.
                 case section_index_at s x y z of
                   Some index \<Rightarrow> indices[block_offset x y z := index]
                 | None \<Rightarrow> indices) cells (replicate blocks_per_subchunk 0)
           in \<lparr>sb_palette = palette, sb_indices = Some indices\<rparr>)"

definition column_packet :: "chunk \<Rightarrow> i32 \<Rightarrow> packet" where
  "column_packet c biome =
     (case chunk_position c of (x, z) \<Rightarrow>
      let count = subchunk_count c;
          encoded = map encode_section (take count (ck_sections c))
      in level_chunk (of_int x) (of_int z) count (column_payload encoded biome))"

section \<open>Positions on the wire\<close>

lemma or_below:
  fixes a b :: nat
  assumes "b < 2 ^ n"
  shows "push_bit n a OR b = a * 2 ^ n + b"
proof -
  have b: "take_bit n b = b" using assms by (simp add: take_bit_eq_mod)
  have "push_bit n a AND b = 0"
    by (subst b[symmetric]) (rule bit_eqI, simp add: bit_and_iff bit_push_bit_iff bit_take_bit_iff)
  then show ?thesis by (simp add: disjunctive_add_eq_or[symmetric] push_bit_eq_mult)
qed

lemma block_offset_in: "in_cube x y z \<Longrightarrow> block_offset x y z = x * 256 + z * 16 + y"
  using or_below[of y 4 z] or_below[of "z * 16 + y" 8 x] by (simp add: block_offset_def in_cube_def)

lemma block_offset_bound: "in_cube x y z \<Longrightarrow> block_offset x y z < 4096"
  by (simp add: block_offset_in) (simp add: in_cube_def)

lemma block_offset_inj:
  assumes "in_cube x y z" "in_cube x' y' z'" "block_offset x y z = block_offset x' y' z'"
  shows "(x, y, z) = (x', y', z')"
  using assms(3) offset_inj[of y x z y' x' z'] assms(1,2)
  unfolding block_offset_in[OF assms(1)] block_offset_in[OF assms(2)] by (simp add: in_cube_def)

lemma fold_update:
  assumes "\<And>p q. p \<in> set ps \<Longrightarrow> q \<in> set ps \<Longrightarrow> f p = f q \<Longrightarrow> p = q" "\<And>p. p \<in> set ps \<Longrightarrow> f p < length xs"
  shows "length (fold (\<lambda>p xs. xs[f p := g p]) ps xs) = length xs
    \<and> (\<forall>p \<in> set ps. fold (\<lambda>p xs. xs[f p := g p]) ps xs ! f p = g p)
    \<and> (\<forall>i. i \<notin> f ` set ps \<longrightarrow> fold (\<lambda>p xs. xs[f p := g p]) ps xs ! i = xs ! i)"
  using assms
proof (induction ps arbitrary: xs)
  case (Cons p ps)
  let ?r = "fold (\<lambda>p xs. xs[f p := g p]) ps (xs[f p := g p])"
  have ih: "length ?r = length xs" "\<forall>q \<in> set ps. ?r ! f q = g q" "\<forall>i. i \<notin> f ` set ps \<longrightarrow> ?r ! i = xs[f p := g p] ! i"
    using Cons.IH[of "xs[f p := g p]"] Cons.prems by (simp_all add: length_list_update)
  have "?r ! f p = g p"
  proof (cases "p \<in> set ps")
    case False
    then have "f p \<notin> f ` set ps" using Cons.prems(1) by (metis imageE list.set_intros)
    then show ?thesis using ih(3) Cons.prems(2)[of p] by simp
  qed (use ih(2) in simp)
  then show ?case using ih by auto
qed simp

definition wire_id :: "block \<Rightarrow> i32" where
  "wire_id b = (case block_runtime_id b of Some i \<Rightarrow> i | None \<Rightarrow> runtime_id_air)"

text \<open>A section on the wire names, at every position, the block the section holds there.\<close>

lemma wire_indices:
  assumes "section_inv s"
  defines "ix \<equiv> fold (\<lambda>(x, y, z) indices. case section_index_at s x y z of
      Some index \<Rightarrow> indices[block_offset x y z := index] | None \<Rightarrow> indices) cells (replicate 4096 0)"
  shows "length ix = 4096" "list_all (\<lambda>i. unat i < length (sc_palette s)) ix"
    "in_cube x y z \<Longrightarrow> unat (ix ! block_offset x y z) = cell_index s (y * 256 + z * 16 + x)"
proof -
  let ?f = "\<lambda>(x, y, z). block_offset x y z"
  let ?g = "\<lambda>(x, y, z). the (section_index_at s x y z)"
  have at: "section_index_at s x y z = Some (?g (x, y, z)) \<and> unat (?g (x, y, z)) = cell_index s (y * 256 + z * 16 + x)"
    if "in_cube x y z" for x y z
    using assms(1) that offset_bound[OF that]
    by (auto simp: section_index_at_def cell_offset_in nth_opt_def cell_index_def section_inv_def split: option.splits)
  have ne: "section_index_at s x y z \<noteq> None" if "in_cube x y z" for x y z
    using at[OF that] by (cases "section_index_at s x y z") auto
  have "ix = fold (\<lambda>p xs. xs[?f p := ?g p]) cells (replicate 4096 0)"
    unfolding ix_def by (rule fold_cong) (auto simp: cells_in_cube fun_eq_iff dest: ne split: option.splits)
  moreover have "inj_on ?f (set cells)" "\<forall>p \<in> set cells. ?f p < 4096"
    using block_offset_inj block_offset_bound by (auto simp: inj_on_def cells_in_cube)
  ultimately have ix: "length ix = 4096" "\<forall>p \<in> set cells. ix ! ?f p = ?g p"
    "\<forall>i. i \<notin> ?f ` set cells \<longrightarrow> ix ! i = replicate 4096 0 ! i"
    using fold_update[of cells ?f "replicate 4096 0" ?g] by (auto simp: inj_on_def)
  show "length ix = 4096" by (rule ix(1))
  show here: "unat (ix ! block_offset x y z) = cell_index s (y * 256 + z * 16 + x)" if "in_cube x y z" for x y z
    using bspec[OF ix(2), of "(x, y, z)"] at[OF that, THEN conjunct2] that by (simp add: cells_in_cube)
  have "unat (ix ! i) < length (sc_palette s)" if "i < 4096" for i
  proof (cases "i \<in> ?f ` set cells")
    case True
    then obtain x y z where "in_cube x y z" "i = block_offset x y z" by (auto simp: cells_in_cube)
    then show ?thesis using here cell_index_bound[OF assms(1) offset_bound] by simp
  next
    case False
    then show ?thesis using ix(3) that assms(1) by (auto simp: section_inv_def)
  qed
  then show "list_all (\<lambda>i. unat i < length (sc_palette s)) ix" using ix(1) by (simp add: list_all_length)
qed

lemma encode_section_spec:
  assumes "section_inv s"
  shows "subchunk_ok (encode_section s)"
    "in_cube x y z \<Longrightarrow> map (subchunk_id (encode_section s)) [0..<4096] ! block_offset x y z
       = wire_id (the (section_get s x y z))"
proof -
  have pal: "1 \<le> length (sc_palette s)" "length (sc_palette s) \<le> 2 ^ 16"
    using assms by (simp_all add: section_inv_def Suc_le_eq)
  have uni: "uniform_block s \<noteq> None \<longleftrightarrow> sc_indices s = None"
    using pal by (auto simp: uniform_block_def nth_opt_def split: option.splits)
  note enc = encode_section_def[of s, unfolded blocks_4096, folded wire_id_def]
  show "subchunk_ok (encode_section s)"
    using wire_indices(1,2)[OF assms] pal by (simp add: enc Let_def subchunk_ok_def)
  assume cube: "in_cube x y z"
  have get: "the (section_get s x y z) = sc_palette s ! cell_index s (y * 256 + z * 16 + x)"
    using cube by (simp add: section_get_inv[OF assms])
  have "subchunk_id (encode_section s) (block_offset x y z) = wire_id (the (section_get s x y z))"
  proof (cases "sc_indices s = None \<or> length (sc_palette s) \<le> 1")
    case True
    then have "cell_index s (y * 256 + z * 16 + x) = 0"
      using cell_index_bound[OF assms offset_bound[OF cube]] by (auto simp: cell_index_def)
    moreover have "encode_section s = \<lparr>sb_palette = map wire_id (sc_palette s), sb_indices = None\<rparr>"
      using True uni by (auto simp: enc Let_def wire_id_def)
    ultimately show ?thesis using pal by (cases "sc_palette s") (auto simp: subchunk_id_def get)
  next
    case False
    then obtain indices where "sc_indices s = Some indices" "\<not> length (sc_palette s) \<le> 1" by auto
    then show ?thesis
      using wire_indices(3)[OF assms cube] cell_index_bound[OF assms offset_bound[OF cube]] uni
      by (simp add: enc Let_def subchunk_id_def get)
  qed
  then show "map (subchunk_id (encode_section s)) [0..<4096] ! block_offset x y z = wire_id (the (section_get s x y z))"
    using block_offset_bound[OF cube] by simp
qed

lemma le_last: "sorted_wrt (<) xs \<Longrightarrow> x \<in> set xs \<Longrightarrow> (x :: nat) \<le> last xs"
  by (induction xs) (auto intro: less_imp_le)

text \<open>The sections that are not sent hold nothing but air.\<close>

lemma subchunk_count_spec:
  assumes "chunk_inv c"
  shows "subchunk_count c \<le> 24"
    "subchunk_count c \<le> slot \<Longrightarrow> slot < 24 \<Longrightarrow> section_is_empty (ck_sections c ! slot)"
proof -
  let ?used = "filter (\<lambda>slot. \<not> section_is_empty (ck_sections c ! slot)) [0..<24]"
  have len: "length (ck_sections c) = 24" using assms by (simp add: chunk_inv_def)
  have count: "subchunk_count c = (if ?used = [] then 0 else Suc (last ?used))"
    by (auto simp: subchunk_count_def highest_used_section_def len split: list.splits)
  have "Suc (last ?used) \<le> 24" if "?used \<noteq> []" using last_in_set[OF that] by simp
  then show "subchunk_count c \<le> 24" unfolding count by (cases "?used = []") (simp_all only: if_True if_False simp_thms zero_le)
  have sorted: "sorted_wrt (<) ?used" by (intro sorted_wrt_filter) simp
  show "section_is_empty (ck_sections c ! slot)" if slot: "subchunk_count c \<le> slot" "slot < 24"
  proof (rule ccontr)
    assume "\<not> section_is_empty (ck_sections c ! slot)"
    then have mem: "slot \<in> set ?used" using slot(2) by simp
    then have "subchunk_count c = Suc (last ?used)" unfolding count by (metis empty_iff list.set(1))
    then show False using slot(1) le_last[OF sorted mem] by linarith
  qed
qed

lemma section_is_emptyD: "section_is_empty s \<Longrightarrow> section_inv s \<Longrightarrow> section_get s x y z = Some b \<Longrightarrow> is_air b"
  using cell_index_bound[of s "y * 256 + z * 16 + x"] offset_bound[of x y z]
  by (auto simp: section_is_empty_def section_get_inv list_all_length split: if_splits)

text \<open>A packet shows a column when the client finds every block of it there.  Where a client looks is written
  out, and not taken from the code: the sub-chunks from the bottom of the world up, in each of them the
  column at x and z, and the height within it.\<close>

definition shows_column :: "chunk \<Rightarrow> i32 \<Rightarrow> packet \<Rightarrow> bool" where
  "shows_column c biome packet \<longleftrightarrow> (\<exists>subs. run_reader client_level_chunk (pk_body packet)
        = Inr ((of_int (ck_x c), of_int (ck_z c)), subs, replicate 24 biome)
    \<and> length subs = subchunk_count c
    \<and> (\<forall>x y z. in_column x y z \<longrightarrow>
         (let slot = nat (y div 16 + 4); b = the (chunk_block_at c x y z) in
          if slot < subchunk_count c
          then subs ! slot ! (x * 256 + z * 16 + nat (y mod 16)) = wire_id b
          else is_air b)))"

lemma column_shown:
  assumes "chunk_inv c"
  shows "shows_column c biome (column_packet c biome)"

proof -
  let ?sent = "map encode_section (take (subchunk_count c) (ck_sections c))"
  let ?subs = "map (\<lambda>s. map (subchunk_id s) [0..<4096]) ?sent"
  have len: "length (ck_sections c) = 24" and inv: "list_all section_inv (ck_sections c)"
    using assms by (simp_all add: chunk_inv_def)
  have ok: "list_all subchunk_ok ?sent"
    using inv encode_section_spec(1) by (auto simp: list_all_iff dest: in_set_takeD)
  have n: "length ?sent = subchunk_count c" using subchunk_count_spec(1)[OF assms] len by simp
  have packet: "column_packet c biome = level_chunk (of_int (ck_x c)) (of_int (ck_z c)) (length ?sent) (column_payload ?sent biome)"
    unfolding n by (simp add: column_packet_def chunk_position_def Let_def)
  have read: "run_reader client_level_chunk (pk_body (column_packet c biome))
      = Inr ((of_int (ck_x c), of_int (ck_z c)), ?subs, replicate 24 biome)"
    unfolding packet by (rule level_chunk_reads_back[OF ok]) (use n subchunk_count_spec(1)[OF assms] in simp)
  have "let slot = nat (y div 16 + 4); b = the (chunk_block_at c x y z) in
      if slot < subchunk_count c then ?subs ! slot ! (x * 256 + z * 16 + nat (y mod 16)) = wire_id b else is_air b"
    if inside: "in_column x y z" for x y z
  proof -
    define slot where "slot = nat (y div 16 + 4)"
    have y: "- 64 \<le> y" "y < 320" and slot: "slot < 24"
      using inside slot_bounds[of y] by (auto simp: slot_def in_column_def)
    have cube: "in_cube x (section_offset y) z" using inside offset_lt by (simp add: in_column_def in_cube_def)
    have place: "x * 256 + z * 16 + nat (y mod 16) = block_offset x (section_offset y) z"
      using block_offset_in[OF cube] by (simp add: section_offset_def section_size_def)
    have get: "chunk_block_at c x y z = section_get (ck_sections c ! slot) x (section_offset y) z"
      using y by (simp add: chunk_block_at_def chunk_section_inv[OF assms] slot_def)
    have sinv: "section_inv (ck_sections c ! slot)" using inv len slot by (simp add: list_all_length)
    have "?subs ! slot ! block_offset x (section_offset y) z = wire_id (the (chunk_block_at c x y z))"
      if "slot < subchunk_count c"
      using that len slot encode_section_spec(2)[OF sinv cube] by (simp add: get)
    moreover have "is_air (the (chunk_block_at c x y z))" if "\<not> slot < subchunk_count c"
      using that section_is_emptyD[OF subchunk_count_spec(2)[OF assms, of slot] sinv, of x "section_offset y" z] slot cube
      by (simp add: get section_get_inv[OF sinv])
    ultimately show ?thesis unfolding slot_def[symmetric] place Let_def by simp
  qed
  then show ?thesis unfolding shows_column_def using read n by (intro exI[of _ ?subs] conjI allI impI) simp_all
qed

lemma column_packet_ok:
  assumes "chunk_inv c"
  shows "packet_ok (column_packet c biome)"
proof -
  let ?sent = "map encode_section (take (subchunk_count c) (ck_sections c))"
  have inv: "list_all section_inv (ck_sections c)" using assms by (simp add: chunk_inv_def)
  have ok: "list_all subchunk_ok ?sent"
    using inv encode_section_spec(1) by (auto simp: list_all_iff dest: in_set_takeD)
  have "length ?sent \<le> 24" using subchunk_count_spec(1)[OF assms] by simp
  then have "length (column_payload ?sent biome) \<le> 10000000"
    using length_column_payload[OF ok, of biome] by linarith
  moreover have packet: "column_packet c biome
      = level_chunk (of_int (ck_x c)) (of_int (ck_z c)) (subchunk_count c) (column_payload ?sent biome)"
    by (simp add: column_packet_def chunk_position_def Let_def)
  ultimately have "length (pk_body (column_packet c biome)) + 5 < 2 ^ 32"
    using length_level_chunk[of "of_int (ck_x c)" "of_int (ck_z c)" "subchunk_count c" "column_payload ?sent biome"] by simp
  then show ?thesis by (simp add: packet packet_ok_def level_chunk_def Let_def new_packet_def id_level_chunk_def)
qed

text \<open>C7: A column sent to a client reads back as the column: the packet has its position and its
  biome, and at every position of a section that was sent the client finds, at index x * 256 + z * 16 + y of
  that section, the runtime id of the block the world holds there (air's, for a block without one); every block of the sections that
  were left out is air.\<close>

theorem column_reads_back:
  assumes "chunk_inv c"
  shows "\<exists>subs. run_reader client_level_chunk (pk_body (column_packet c biome))
        = Inr ((of_int (ck_x c), of_int (ck_z c)), subs, replicate 24 biome)
    \<and> length subs = subchunk_count c
    \<and> (\<forall>x y z. in_column x y z \<longrightarrow>
         (let slot = nat (y div 16 + 4); b = the (chunk_block_at c x y z) in
          if slot < subchunk_count c
          then subs ! slot ! (x * 256 + z * 16 + nat (y mod 16)) = wire_id b
          else is_air b))"
  using column_shown[OF assms] unfolding shows_column_def .

lemma column_reads_back_witness:
  "\<exists>subs. run_reader client_level_chunk (pk_body (column_packet (flat_generate 2 (- 5) (new_flat 80)) biome_plains))
      = Inr ((of_int (ck_x (flat_generate 2 (- 5) (new_flat 80))), of_int (ck_z (flat_generate 2 (- 5) (new_flat 80)))),
             subs, replicate 24 biome_plains)
    \<and> subs ! 8 ! (1 * 256 + 2 * 16 + 15) = 2706"
proof -
  let ?c = "flat_generate 2 (- 5) (new_flat 80)"
  obtain subs where subs: "run_reader client_level_chunk (pk_body (column_packet ?c biome_plains))
      = Inr ((of_int (ck_x ?c), of_int (ck_z ?c)), subs, replicate 24 biome_plains)"
    "\<forall>x y z. in_column x y z \<longrightarrow> (let slot = nat (y div 16 + 4); b = the (chunk_block_at ?c x y z) in
        if slot < subchunk_count ?c then subs ! slot ! (x * 256 + z * 16 + nat (y mod 16)) = wire_id b else is_air b)"
    using column_reads_back[OF chunk_inv_generate[OF flat_inv_new], of 2 "- 5" 80 biome_plains] by blast
  have "wire_id stone = 2706"
    by (simp add: wire_id_def block_runtime_id_def stone_def block_new_def ascii_def runtime_id_stone_def)
  moreover have "in_column 1 79 2" "\<not> is_air stone" by (simp_all add: in_column_def is_air_def stone_def air_def block_new_def ascii_def)
  with spec[OF spec[OF spec[OF subs(2)]], of 1 79 2] have "subs ! 8 ! (1 * 256 + 2 * 16 + 15) = wire_id stone"
    by (simp add: flat_block Let_def split: if_splits)
  ultimately show ?thesis using subs(1) by simp
qed

end
