(* ===== verification/Advertisement.thy ===== *)
theory Advertisement
  imports Prelude
begin

text \<open>
  \<^verbatim>\<open>bedrock-raknet/src/advertisement.rs\<close>: the semicolon-separated string of a pong.  A string is
  the list of its UTF-8 bytes; the separator and the digits are ASCII, so splitting and parsing
  bytes is splitting and parsing characters.

  The integer parsers are the standard library's \<^verbatim>\<open>from_str\<close>: one optional sign, then digits
  only, at least one, with every step checked for overflow.
\<close>

definition semicolon :: u8 where
  "semicolon = 0x3B"

text \<open>\<^verbatim>\<open>str::split\<close>: always at least one field.\<close>

fun split_on :: "u8 \<Rightarrow> bytes \<Rightarrow> bytes list" where
  "split_on sep [] = [[]]"
| "split_on sep (b # bs) =
     (if b = sep then [] # split_on sep bs
      else (case split_on sep bs of [] \<Rightarrow> [[b]] | f # fs \<Rightarrow> (b # f) # fs))"

definition is_digit :: "u8 \<Rightarrow> bool" where
  "is_digit b \<longleftrightarrow> 0x30 \<le> b \<and> b \<le> 0x39"

fun parse_digits :: "nat \<Rightarrow> bytes \<Rightarrow> nat \<Rightarrow> nat option" where
  "parse_digits mx [] acc = Some acc"
| "parse_digits mx (b # bs) acc =
     (if \<not> is_digit b then None
      else if acc * 10 > mx then None
      else
        let acc = acc * 10 + (unat b - 0x30) in
        if acc > mx then None else parse_digits mx bs acc)"

definition parse_unsigned :: "nat \<Rightarrow> bytes \<Rightarrow> nat option" where
  "parse_unsigned mx s =
     (if s = [] \<or> s = [0x2B] \<or> s = [0x2D] then None
      else parse_digits mx (if hd s = 0x2B then tl s else s) 0)"

definition parse_u32 :: "bytes \<Rightarrow> u32 option" where
  "parse_u32 s = map_option of_nat (parse_unsigned (2 ^ 32 - 1) s)"

definition parse_u64 :: "bytes \<Rightarrow> u64 option" where
  "parse_u64 s = map_option of_nat (parse_unsigned (2 ^ 64 - 1) s)"

definition parse_i64 :: "bytes \<Rightarrow> i64 option" where
  "parse_i64 s =
     (if s = [] \<or> s = [0x2B] \<or> s = [0x2D] then None
      else if hd s = 0x2D then map_option (\<lambda>n. - of_nat n) (parse_digits (2 ^ 63) (tl s) 0)
      else map_option of_nat (parse_digits (2 ^ 63 - 1) (if hd s = 0x2B then tl s else s) 0))"

record advertisement =
  ad_fields :: "bytes list"

definition advertisement_parse :: "bytes \<Rightarrow> advertisement" where
  "advertisement_parse s = \<lparr>ad_fields = split_on semicolon s\<rparr>"

definition ad_field :: "advertisement \<Rightarrow> nat \<Rightarrow> bytes option" where
  "ad_field a index = (if index < length (ad_fields a) then Some (ad_fields a ! index) else None)"

definition ad_len :: "advertisement \<Rightarrow> nat" where
  "ad_len a = length (ad_fields a)"

definition ad_is_empty :: "advertisement \<Rightarrow> bool" where
  "ad_is_empty a \<longleftrightarrow> ad_fields a = []"

definition ad_edition :: "advertisement \<Rightarrow> bytes option" where "ad_edition a = ad_field a 0"
definition ad_motd :: "advertisement \<Rightarrow> bytes option" where "ad_motd a = ad_field a 1"

definition ad_protocol_version :: "advertisement \<Rightarrow> u32 option" where
  "ad_protocol_version a = (case ad_field a 2 of None \<Rightarrow> None | Some s \<Rightarrow> parse_u32 s)"

definition ad_version_name :: "advertisement \<Rightarrow> bytes option" where "ad_version_name a = ad_field a 3"

definition ad_online_players :: "advertisement \<Rightarrow> u64 option" where
  "ad_online_players a = (case ad_field a 4 of None \<Rightarrow> None | Some s \<Rightarrow> parse_u64 s)"

definition ad_max_players :: "advertisement \<Rightarrow> u64 option" where
  "ad_max_players a = (case ad_field a 5 of None \<Rightarrow> None | Some s \<Rightarrow> parse_u64 s)"

definition ad_server_guid :: "advertisement \<Rightarrow> i64 option" where
  "ad_server_guid a = (case ad_field a 6 of None \<Rightarrow> None | Some s \<Rightarrow> parse_i64 s)"

definition ad_sub_motd :: "advertisement \<Rightarrow> bytes option" where "ad_sub_motd a = ad_field a 7"
definition ad_gamemode :: "advertisement \<Rightarrow> bytes option" where "ad_gamemode a = ad_field a 8"

section \<open>Splitting and joining\<close>

fun join_with :: "u8 \<Rightarrow> bytes list \<Rightarrow> bytes" where
  "join_with sep [] = []"
| "join_with sep [f] = f"
| "join_with sep (f # fs) = f @ sep # join_with sep fs"

lemma split_on_nonempty [simp]: "split_on sep s \<noteq> []"
  by (cases s) (auto split: list.splits)

lemma join_with_Cons: "fs \<noteq> [] \<Longrightarrow> join_with sep (f # fs) = f @ sep # join_with sep fs"
  by (cases fs) simp_all

lemma join_split: "join_with sep (split_on sep s) = s"
proof (induction s)
  case (Cons b s)
  obtain f fs where s: "split_on sep s = f # fs" by (cases "split_on sep s") auto
  then show ?case using Cons by (cases fs) (auto simp: join_with_Cons)
qed simp

lemma split_on_no_sep: "f \<in> set (split_on sep s) \<Longrightarrow> sep \<notin> set f"
proof (induction s arbitrary: f)
  case (Cons b s)
  obtain g gs where "split_on sep s = g # gs" by (cases "split_on sep s") auto
  then show ?case using Cons by (auto split: if_splits)
qed simp

lemma split_on_append:
  "sep \<notin> set f \<Longrightarrow> split_on sep (f @ sep # s) = f # split_on sep s"
  by (induction f) auto

lemma split_on_single: "sep \<notin> set f \<Longrightarrow> split_on sep f = [f]"
  by (induction f) auto

lemma split_join:
  "fs \<noteq> [] \<Longrightarrow> \<forall>f \<in> set fs. sep \<notin> set f \<Longrightarrow> split_on sep (join_with sep fs) = fs"
  by (induction sep fs rule: join_with.induct) (simp_all add: split_on_append split_on_single)

section \<open>Numbers\<close>

text \<open>The decimal digits of a number, and reading them back.\<close>

fun decimal :: "nat \<Rightarrow> bytes" where
  "decimal n = (if n < 10 then [of_nat (0x30 + n)] else decimal (n div 10) @ [of_nat (0x30 + n mod 10)])"

declare decimal.simps [simp del]

lemma digit_byte:
  assumes "d < 10"
  shows "is_digit (of_nat (0x30 + d))" "unat (of_nat (0x30 + d) :: u8) - 0x30 = d"
proof -
  have "unat (of_nat (0x30 + d) :: u8) = 0x30 + d" using assms by (intro unat_of_nat_small) simp
  then show "is_digit (of_nat (0x30 + d))" "unat (of_nat (0x30 + d) :: u8) - 0x30 = d"
    using assms by (simp_all add: is_digit_def word_le_nat_alt)
qed

text \<open>Overflow is checked at every step, and comes down to the final value.\<close>

lemma parse_digits_append:
  "parse_digits mx (xs @ ys) acc = (case parse_digits mx xs acc of None \<Rightarrow> None | Some v \<Rightarrow> parse_digits mx ys v)"
  by (induction mx xs acc rule: parse_digits.induct) (auto simp: Let_def)

lemma parse_decimal: "parse_digits mx (decimal n) 0 = (if n \<le> mx then Some n else None)"
proof (induction n rule: decimal.induct)
  case (1 n)
  show ?case
  proof (cases "n < 10")
    case True
    then show ?thesis using digit_byte[OF True] by (simp add: decimal.simps[of n])
  next
    case False
    have d: "n mod 10 < 10" by simp
    have n: "n div 10 * 10 + n mod 10 = n" by simp
    have "parse_digits mx [of_nat (0x30 + n mod 10)] (n div 10) = (if n \<le> mx then Some n else None)"
      using digit_byte[OF d] n by (auto simp: Let_def)
    moreover have "n div 10 \<le> n" by simp
    ultimately show ?thesis
      using 1[OF False] False by (auto simp: decimal.simps[of n] parse_digits_append)
  qed
qed

lemma decimal_first: "\<exists>b bs. decimal n = b # bs \<and> is_digit b"
proof (induction n rule: decimal.induct)
  case (1 n)
  show ?case
    using 1 digit_byte(1)[of n] by (cases "n < 10") (auto simp: decimal.simps[of n])
qed

lemma digit_not_sign: "is_digit b \<Longrightarrow> b \<noteq> 0x2B \<and> b \<noteq> 0x2D"
  by (auto simp: is_digit_def word_le_nat_alt)

lemma parse_unsigned_decimal: "parse_unsigned mx (decimal n) = (if n \<le> mx then Some n else None)"
proof -
  obtain b bs where d: "decimal n = b # bs" "is_digit b" using decimal_first by blast
  then show ?thesis
    using digit_not_sign[OF d(2)] parse_decimal[of mx n] by (auto simp: parse_unsigned_def)
qed

section \<open>Properties\<close>

text \<open>Parsing an advertisement loses nothing: joining the fields gives the string back, no field
  holds a separator, and fields without separators that were joined are the ones parsed.\<close>

lemma advertisement_parse_exact:
  "join_with semicolon (ad_fields (advertisement_parse s)) = s
   \<and> list_all (\<lambda>f. semicolon \<notin> set f) (ad_fields (advertisement_parse s))
   \<and> (fs \<noteq> [] \<longrightarrow> list_all (\<lambda>f. semicolon \<notin> set f) fs \<longrightarrow>
        ad_fields (advertisement_parse (join_with semicolon fs)) = fs)"
  using split_on_no_sep[of _ semicolon s]
  by (simp add: advertisement_parse_def join_split split_join list_all_iff)

text \<open>The numeric fields read exactly the decimal numbers that fit: a protocol version below
  \<open>2 ^ 32\<close>, player counts below \<open>2 ^ 64\<close>, and nothing larger.\<close>

lemma advertised_numbers:
  assumes "ad_fields a ! 2 = decimal n" "ad_fields a ! 4 = decimal m" "4 < length (ad_fields a)"
  shows "ad_protocol_version a = (if n < 2 ^ 32 then Some (of_nat n) else None)
    \<and> ad_online_players a = (if m < 2 ^ 64 then Some (of_nat m) else None)"
  using assms
  by (auto simp: ad_protocol_version_def ad_online_players_def ad_field_def parse_u32_def parse_u64_def
      parse_unsigned_decimal)

end
