(* ===== verification/Crypto.thy ===== *)
theory Crypto
  imports GamePackets Advertisement
begin

text \<open>
  \<^verbatim>\<open>bedrock-crypto\<close>: the encrypted packet stream (\<^verbatim>\<open>cipher.rs\<close>), key agreement
  (\<^verbatim>\<open>agreement.rs\<close>), the handshake token (\<^verbatim>\<open>handshake.rs\<close>) and the verification of
  identity tokens (\<^verbatim>\<open>jwt.rs\<close>).

  The primitives are other packages: SHA-256 and RSA (\<^verbatim>\<open>ring\<close>), AES in counter mode
  (\<^verbatim>\<open>aes\<close>, \<^verbatim>\<open>ctr\<close>), P-384 (\<^verbatim>\<open>p384\<close>), \<^verbatim>\<open>base64\<close> and \<^verbatim>\<open>serde_json\<close>.  They are the fields of
  \<open>primitives\<close>, an argument of everything that uses them; what is relied on is \<open>digest_ok\<close> and
  \<open>agreement_ok\<close>.  The end of a key stream, at 64 GiB, is outside the model.
\<close>

section \<open>The primitives\<close>

record claims =
  cl_iss :: bytes
  cl_aud :: bytes
  cl_exp :: i64
  cl_iat :: i64
  cl_xid :: "bytes option"
  cl_xname :: "bytes option"
  cl_cpk :: "bytes option"

record jwk =
  jk_kid :: bytes
  jk_kty :: bytes
  jk_n :: bytes
  jk_e :: bytes

type_synonym jwks = "jwk list"

record jwt_header =
  jh_alg :: bytes
  jh_kid :: bytes

datatype json = JNull | JBool bool | JNumber bytes | JString bytes | JArray "json list" | JObject "(bytes \<times> json) list"

record 'k primitives =
  pr_sha256 :: "bytes \<Rightarrow> bytes"
  pr_keystream :: "bytes \<Rightarrow> bytes \<Rightarrow> nat \<Rightarrow> u8"
  pr_public_point :: "'k \<Rightarrow> bytes"
  pr_diffie_hellman :: "'k \<Rightarrow> bytes \<Rightarrow> bytes option"
  pr_sign :: "'k \<Rightarrow> bytes \<Rightarrow> bytes"
  pr_rsa_verify :: "bytes \<Rightarrow> bytes \<Rightarrow> bytes \<Rightarrow> bytes \<Rightarrow> bool"
  pr_base64_encode :: "bytes \<Rightarrow> bytes"
  pr_base64_decode :: "bytes \<Rightarrow> bytes option"
  pr_base64url_encode :: "bytes \<Rightarrow> bytes"
  pr_base64url_decode :: "bytes \<Rightarrow> bytes option"
  pr_json_value :: "bytes \<Rightarrow> json option"
  pr_json_header :: "bytes \<Rightarrow> jwt_header option"
  pr_json_claims :: "bytes \<Rightarrow> claims option"
  pr_json_jwks :: "bytes \<Rightarrow> jwks option"
  pr_fresh_key :: "nat \<Rightarrow> 'k"
  pr_fresh_salt :: "nat \<Rightarrow> bytes"

definition digest_ok :: "('k, 'z) primitives_scheme \<Rightarrow> bool" where
  "digest_ok p \<longleftrightarrow> (\<forall>b. length (pr_sha256 p b) = 32)"

text \<open>A public point is an uncompressed one, and both sides of an exchange compute the same secret.\<close>

definition agreement_ok :: "('k, 'z) primitives_scheme \<Rightarrow> bool" where
  "agreement_ok p \<longleftrightarrow> (\<forall>a b. length (pr_public_point p a) = 97 \<and> hd (pr_public_point p a) = 0x04
     \<and> pr_diffie_hellman p a (pr_public_point p b) \<noteq> None
     \<and> pr_diffie_hellman p a (pr_public_point p b) = pr_diffie_hellman p b (pr_public_point p a))"

section \<open>Key agreement\<close>

definition public_key_der_len :: nat where "public_key_der_len = 120"
definition point_len :: nat where "point_len = 97"

definition spki_prefix :: bytes where
  "spki_prefix = [0x30, 0x76, 0x30, 0x10, 0x06, 0x07, 0x2a, 0x86, 0x48, 0xce, 0x3d, 0x02, 0x01, 0x06, 0x05, 0x2b,
     0x81, 0x04, 0x00, 0x22, 0x03, 0x62, 0x00]"

datatype agreement_error = NotP384PublicKey | NotUncompressed | BadPeerKey

definition point_from_der :: "bytes \<Rightarrow> agreement_error + bytes" where
  "point_from_der der =
     (if length der \<noteq> public_key_der_len \<or> take (length spki_prefix) der \<noteq> spki_prefix
      then Inl NotP384PublicKey
      else
        let point = drop (length spki_prefix) der in
        case point of
          [] \<Rightarrow> Inl NotUncompressed
        | tag # _ \<Rightarrow> if tag \<noteq> 0x04 then Inl NotUncompressed else Inr point)"

definition point_to_der :: "bytes \<Rightarrow> agreement_error + bytes" where
  "point_to_der point =
     (if length point \<noteq> point_len \<or> (case point of [] \<Rightarrow> True | tag # _ \<Rightarrow> tag \<noteq> 0x04)
      then Inl NotUncompressed
      else Inr (spki_prefix @ point))"

type_synonym session_key = bytes

record 'k server_key =
  sk_signing :: 'k
  sk_public_der :: bytes
  sk_salt :: bytes

text \<open>The operating system's randomness is a supply; \<open>n\<close> counts the keys drawn from it.\<close>

definition server_key_generate :: "'k primitives \<Rightarrow> nat \<Rightarrow> 'k server_key" where
  "server_key_generate p n =
     (let signing = pr_fresh_key p n
      in \<lparr>sk_signing = signing, sk_public_der = spki_prefix @ pr_public_point p signing,
          sk_salt = pr_fresh_salt p n\<rparr>)"

definition server_key_sign :: "'k primitives \<Rightarrow> 'k server_key \<Rightarrow> bytes \<Rightarrow> bytes" where
  "server_key_sign p k message = pr_sign p (sk_signing k) message"

definition server_key_agree :: "'k primitives \<Rightarrow> 'k server_key \<Rightarrow> bytes \<Rightarrow> bytes \<Rightarrow> agreement_error + session_key" where
  "server_key_agree p k peer_der salt =
     (case point_from_der peer_der of
        Inl e \<Rightarrow> Inl e
      | Inr point \<Rightarrow>
          (case pr_diffie_hellman p (sk_signing k) point of
             None \<Rightarrow> Inl BadPeerKey
           | Some shared \<Rightarrow> Inr (pr_sha256 p (salt @ shared))))"

section \<open>The handshake token\<close>

definition handshake_token :: "'k primitives \<Rightarrow> 'k server_key \<Rightarrow> bytes" where
  \<open>handshake_token p key =
     (let header = ascii ''{"alg":"ES384","x5u":"'' @ pr_base64_encode p (sk_public_der key) @ ascii ''"}'';
          payload = ascii ''{"salt":"'' @ pr_base64_encode p (sk_salt key) @ ascii ''"}'';
          signing_input = pr_base64url_encode p header @ ascii ''.'' @ pr_base64url_encode p payload;
          signature = server_key_sign p key signing_input
      in signing_input @ ascii ''.'' @ pr_base64url_encode p signature)\<close>

section \<open>Identity tokens\<close>

definition jwks_parse :: "'k primitives \<Rightarrow> bytes \<Rightarrow> jwks option" where
  "jwks_parse p json = pr_json_jwks p json"

definition jwks_find :: "jwks \<Rightarrow> bytes \<Rightarrow> jwk option" where
  "jwks_find keys kid = find (\<lambda>key. jk_kid key = kid) keys"

record expected =
  ex_issuer :: bytes
  ex_audience :: bytes
  ex_leeway :: i64

datatype jwt_error =
    MalformedToken
  | MalformedSegment string
  | MalformedKeys
  | UnexpectedAlgorithm bytes
  | UnknownKey bytes
  | UnsupportedKeyType bytes
  | BadSignature
  | WrongIssuer bytes
  | WrongAudience bytes
  | Expired i64 i64
  | NotYetValid i64 i64

definition decode_segment :: "'k primitives \<Rightarrow> (bytes \<Rightarrow> 'a option) \<Rightarrow> bytes \<Rightarrow> string \<Rightarrow> jwt_error + 'a" where
  "decode_segment p from_slice segment which =
     (case pr_base64url_decode p segment of
        None \<Rightarrow> Inl (MalformedSegment which)
      | Some b \<Rightarrow> (case from_slice b of None \<Rightarrow> Inl (MalformedSegment which) | Some v \<Rightarrow> Inr v))"

definition or_else :: "'a option \<Rightarrow> 'e \<Rightarrow> 'e + 'a" where
  "or_else v e = (case v of None \<Rightarrow> Inl e | Some a \<Rightarrow> Inr a)"

definition try_bind :: "'e + 'a \<Rightarrow> ('a \<Rightarrow> 'e + 'b) \<Rightarrow> 'e + 'b" where
  "try_bind m f = (case m of Inl e \<Rightarrow> Inl e | Inr v \<Rightarrow> f v)"

text \<open>The tests on the claims, once the signature holds.  The sums are \<^verbatim>\<open>i64\<close> sums.\<close>

definition check_claims :: "claims \<Rightarrow> expected \<Rightarrow> i64 \<Rightarrow> jwt_error + claims" where
  "check_claims claims e now =
     (if cl_iss claims \<noteq> ex_issuer e then Inl (WrongIssuer (cl_iss claims))
      else if cl_aud claims \<noteq> ex_audience e then Inl (WrongAudience (cl_aud claims))
      else if sint now > sint (cl_exp claims + ex_leeway e) then Inl (Expired (cl_exp claims) now)
      else if sint (now + ex_leeway e) < sint (cl_iat claims) then Inl (NotYetValid (cl_iat claims) now)
      else Inr claims)"

text \<open>\<^verbatim>\<open>verify\<close>, from the end: what follows the choice of a key, what follows the header, the whole.\<close>

definition verify_signature :: "'k primitives \<Rightarrow> bytes \<Rightarrow> bytes \<Rightarrow> bytes \<Rightarrow> jwk \<Rightarrow> expected \<Rightarrow> i64 \<Rightarrow> jwt_error + claims" where
  "verify_signature p header_b64 claims_b64 signature_b64 key e now =
     try_bind (or_else (pr_base64url_decode p (jk_n key)) MalformedKeys) (\<lambda>n.
     try_bind (or_else (pr_base64url_decode p (jk_e key)) MalformedKeys) (\<lambda>ex.
     try_bind (or_else (pr_base64url_decode p signature_b64) (MalformedSegment ''signature'')) (\<lambda>signature.
     let signed = header_b64 @ ascii ''.'' @ claims_b64 in
     if \<not> pr_rsa_verify p n ex signed signature then Inl BadSignature
     else
       try_bind (decode_segment p (pr_json_claims p) claims_b64 ''claims'') (\<lambda>claims.
       check_claims claims e now))))"

definition verify_with_key :: "'k primitives \<Rightarrow> bytes \<Rightarrow> bytes \<Rightarrow> bytes \<Rightarrow> jwks \<Rightarrow> expected \<Rightarrow> i64 \<Rightarrow> jwt_header
    \<Rightarrow> jwt_error + claims" where
  "verify_with_key p header_b64 claims_b64 signature_b64 keys e now header =
     try_bind (or_else (jwks_find keys (jh_kid header)) (UnknownKey (jh_kid header))) (\<lambda>key.
     if jk_kty key \<noteq> ascii ''RSA'' then Inl (UnsupportedKeyType (jk_kty key))
     else verify_signature p header_b64 claims_b64 signature_b64 key e now)"

definition jwt_verify :: "'k primitives \<Rightarrow> bytes \<Rightarrow> jwks \<Rightarrow> expected \<Rightarrow> i64 \<Rightarrow> jwt_error + claims" where
  "jwt_verify p token keys e now =
     (case split_on 0x2E token of
        [header_b64, claims_b64, signature_b64] \<Rightarrow>
          try_bind (decode_segment p (pr_json_header p) header_b64 ''header'') (\<lambda>header.
          if jh_alg header \<noteq> ascii ''RS256'' then Inl (UnexpectedAlgorithm (jh_alg header))
          else verify_with_key p header_b64 claims_b64 signature_b64 keys e now header)
      | _ \<Rightarrow> Inl MalformedToken)"

section \<open>The encrypted stream\<close>

definition nonce_len :: nat where "nonce_len = 12"
definition checksum_len :: nat where "checksum_len = 8"

datatype cipher_error = CipherTooShort | BadChecksum

text \<open>\<^verbatim>\<open>Ctr32BE<Aes256>\<close>: a key, a first block, and how far into the stream we are.\<close>

record keystream =
  ks_key :: bytes
  ks_iv :: bytes
  ks_at :: nat

definition apply_keystream :: "'k primitives \<Rightarrow> bytes \<Rightarrow> keystream \<Rightarrow> bytes \<times> keystream" where
  "apply_keystream p b ks =
     (map2 (XOR) b (map (pr_keystream p (ks_key ks) (ks_iv ks)) [ks_at ks..<ks_at ks + length b]),
      ks\<lparr>ks_at := ks_at ks + length b\<rparr>)"

record cipher =
  ci_outbound :: keystream
  ci_inbound :: keystream
  ci_key :: session_key
  ci_sent :: u64
  ci_received :: u64

definition new_cipher :: "session_key \<Rightarrow> cipher" where
  "new_cipher key =
     (let iv = take nonce_len key @ be_bytes 4 (2 :: u32);
          ks = \<lparr>ks_key = key, ks_iv = iv, ks_at = 0\<rparr>
      in \<lparr>ci_outbound = ks, ci_inbound = ks, ci_key = key, ci_sent = 0, ci_received = 0\<rparr>)"

definition cipher_checksum :: "'k primitives \<Rightarrow> u64 \<Rightarrow> bytes \<Rightarrow> cipher \<Rightarrow> bytes" where
  "cipher_checksum p counter plaintext c =
     take checksum_len (pr_sha256 p (le_bytes 8 counter @ plaintext @ ci_key c))"

definition cipher_encrypt :: "'k primitives \<Rightarrow> bytes \<Rightarrow> cipher \<Rightarrow> bytes \<times> cipher" where
  "cipher_encrypt p plaintext c =
     (let checksum = cipher_checksum p (ci_sent c) plaintext c;
          c = c\<lparr>ci_sent := ci_sent c + 1\<rparr>
      in case apply_keystream p (plaintext @ checksum) (ci_outbound c) of
           (b, ks) \<Rightarrow> (b, c\<lparr>ci_outbound := ks\<rparr>))"

definition cipher_decrypt :: "'k primitives \<Rightarrow> bytes \<Rightarrow> cipher \<Rightarrow> (cipher_error + bytes) \<times> cipher" where
  "cipher_decrypt p ciphertext c =
     (if length ciphertext < checksum_len then (Inl CipherTooShort, c)
      else
        (case apply_keystream p ciphertext (ci_inbound c) of
           (b, ks) \<Rightarrow>
             let c = c\<lparr>ci_inbound := ks\<rparr>;
                 split = length b - checksum_len;
                 wanted = cipher_checksum p (ci_received c) (take split b) c
             in if drop split b \<noteq> wanted then (Inl BadChecksum, c)
                else (Inr (take split b), c\<lparr>ci_received := ci_received c + 1\<rparr>)))"

section \<open>The stream delivers\<close>

text \<open>What one side encrypts the other decrypts when they are at the same place of the same stream.\<close>

definition in_step :: "cipher \<Rightarrow> cipher \<Rightarrow> bool" where
  "in_step a b \<longleftrightarrow> ci_outbound a = ci_inbound b \<and> ci_key a = ci_key b \<and> ci_sent a = ci_received b"

lemma in_step_new: "in_step (new_cipher key) (new_cipher key)"
  by (simp add: in_step_def new_cipher_def Let_def)

lemma length_apply_keystream: "length (fst (apply_keystream p b ks)) = length b"
  by (simp add: apply_keystream_def)

lemma apply_keystream_involution:
  "fst (apply_keystream p (fst (apply_keystream p b ks)) ks) = b"
  by (rule nth_equalityI) (simp_all add: apply_keystream_def xor.assoc)

lemma snd_apply_keystream: "snd (apply_keystream p b ks) = ks\<lparr>ks_at := ks_at ks + length b\<rparr>"
  by (simp add: apply_keystream_def)

lemma length_checksum: "digest_ok p \<Longrightarrow> length (cipher_checksum p n b c) = 8"
  by (simp add: cipher_checksum_def checksum_len_def digest_ok_def)

lemma checksum_cong: "ci_key a = ci_key b \<Longrightarrow> cipher_checksum p n x a = cipher_checksum p n x b"
  by (simp add: cipher_checksum_def)

lemma encrypt_parts:
  "fst (cipher_encrypt p x a) = fst (apply_keystream p (x @ cipher_checksum p (ci_sent a) x a) (ci_outbound a))"
  "snd (cipher_encrypt p x a) = a\<lparr>ci_sent := ci_sent a + 1,
     ci_outbound := (ci_outbound a)\<lparr>ks_at := ks_at (ci_outbound a) + length x + length (cipher_checksum p (ci_sent a) x a)\<rparr>\<rparr>"
  by (simp_all add: cipher_encrypt_def Let_def snd_apply_keystream split_beta add.assoc)

text \<open>The receiver accepts exactly what the sender would have made of the plaintext.\<close>

lemma decrypt_iff_encrypted:
  assumes "digest_ok p" "in_step a b"
  shows "fst (cipher_decrypt p ct b) = Inr x \<longleftrightarrow> ct = fst (cipher_encrypt p x a)"
proof -
  let ?buf = "fst (apply_keystream p ct (ci_inbound b))"
  let ?cut = "length ct - 8"
  have len: "length ?buf = length ct" by (rule length_apply_keystream)
  have dec: "fst (cipher_decrypt p ct b) = Inr x \<longleftrightarrow>
      8 \<le> length ct \<and> x = take ?cut ?buf \<and> drop ?cut ?buf = cipher_checksum p (ci_received b) x b"
    using len checksum_cong[of "b\<lparr>ci_inbound := ks\<rparr>" b for ks]
    by (auto simp: cipher_decrypt_def checksum_len_def Let_def split_beta)
  also have "\<dots> \<longleftrightarrow> ?buf = x @ cipher_checksum p (ci_received b) x b" (is "?l \<longleftrightarrow> ?r")
  proof
    assume ?l
    then show ?r using append_take_drop_id[of ?cut ?buf] by metis
  next
    assume r: ?r
    then have "length ct = length x + 8" using len length_checksum[OF assms(1)] by simp
    then show ?l using r by simp
  qed
  also have "\<dots> \<longleftrightarrow> ct = fst (apply_keystream p (x @ cipher_checksum p (ci_received b) x b) (ci_inbound b))"
    using apply_keystream_involution by metis
  also have "x @ cipher_checksum p (ci_received b) x b = x @ cipher_checksum p (ci_sent a) x a"
    using assms(2) by (simp add: in_step_def cipher_checksum_def)
  finally show ?thesis using assms(2) by (simp add: encrypt_parts in_step_def)
qed

lemma in_step_encrypt:
  assumes "digest_ok p" "in_step a b"
  shows "fst (cipher_decrypt p (fst (cipher_encrypt p x a)) b) = Inr x"
    "in_step (snd (cipher_encrypt p x a)) (snd (cipher_decrypt p (fst (cipher_encrypt p x a)) b))"
    "length (fst (cipher_encrypt p x a)) = length x + 8"
proof -
  let ?ct = "fst (cipher_encrypt p x a)"
  show ok: "fst (cipher_decrypt p ?ct b) = Inr x" using decrypt_iff_encrypted[OF assms] by simp
  show len: "length ?ct = length x + 8"
    by (simp add: encrypt_parts length_apply_keystream length_checksum[OF assms(1)])
  have "snd (cipher_decrypt p ?ct b) = b\<lparr>ci_inbound := (ci_inbound b)\<lparr>ks_at := ks_at (ci_inbound b) + length ?ct\<rparr>,
      ci_received := ci_received b + 1\<rparr>"
    using ok by (auto simp: cipher_decrypt_def Let_def split_beta snd_apply_keystream split: if_splits)
  then show "in_step (snd (cipher_encrypt p x a)) (snd (cipher_decrypt p ?ct b))"
    using assms(2) len by (simp add: in_step_def encrypt_parts(2) length_checksum[OF assms(1)] add.assoc)
qed

fun encrypt_all :: "'k primitives \<Rightarrow> bytes list \<Rightarrow> cipher \<Rightarrow> bytes list \<times> cipher" where
  "encrypt_all p [] c = ([], c)"
| "encrypt_all p (x # xs) c =
     (case cipher_encrypt p x c of (ct, c) \<Rightarrow> case encrypt_all p xs c of (cts, c) \<Rightarrow> (ct # cts, c))"

fun decrypt_all :: "'k primitives \<Rightarrow> bytes list \<Rightarrow> cipher \<Rightarrow> (cipher_error + bytes) list \<times> cipher" where
  "decrypt_all p [] c = ([], c)"
| "decrypt_all p (x # xs) c =
     (case cipher_decrypt p x c of (r, c) \<Rightarrow> case decrypt_all p xs c of (rs, c) \<Rightarrow> (r # rs, c))"

lemma stream_delivers:
  assumes "digest_ok p" "in_step a b"
  shows "fst (decrypt_all p (fst (encrypt_all p xs a)) b) = map Inr xs
    \<and> in_step (snd (encrypt_all p xs a)) (snd (decrypt_all p (fst (encrypt_all p xs a)) b))
    \<and> map length (fst (encrypt_all p xs a)) = map (\<lambda>x. length x + 8) xs"
  using assms(2)
proof (induction xs arbitrary: a b)
  case (Cons x xs)
  show ?case
    using in_step_encrypt[OF assms(1) Cons.prems, of x] Cons.IH[OF in_step_encrypt(2)[OF assms(1) Cons.prems, of x]]
    by (simp add: split_beta)
qed simp

section \<open>Properties\<close>

text \<open>A stand-in for the primitives, to evaluate the properties on.\<close>

definition toy_primitives :: "nat primitives" where
  "toy_primitives = \<lparr>
     pr_sha256 = (\<lambda>b. replicate 31 (of_nat (length b)) @ [fold (XOR) b 0]),
     pr_keystream = (\<lambda>k iv n. of_nat (length k + 7 * n + 3)),
     pr_public_point = (\<lambda>k. 0x04 # of_nat k # replicate 95 0),
     pr_diffie_hellman = (\<lambda>k point. Some [of_nat k * (point ! 1)]),
     pr_sign = (\<lambda>k m. replicate 96 (of_nat k)),
     pr_rsa_verify = (\<lambda>n e m s. s = n @ e),
     pr_base64_encode = (\<lambda>b. b), pr_base64_decode = Some,
     pr_base64url_encode = (\<lambda>b. b), pr_base64url_decode = Some,
     pr_json_value = (\<lambda>b. Some (JObject [(ascii ''Token'', JString b)])),
     pr_json_header = (\<lambda>b. Some \<lparr>jh_alg = ascii ''RS256'', jh_kid = b\<rparr>),
     pr_json_claims = (\<lambda>b. Some \<lparr>cl_iss = token_issuer, cl_aud = token_audience, cl_exp = 1000, cl_iat = 900,
        cl_xid = None, cl_xname = Some b, cl_cpk = Some (spki_prefix @ 0x04 # 5 # replicate 95 0)\<rparr>),
     pr_json_jwks = (\<lambda>b. Some [\<lparr>jk_kid = b, jk_kty = ascii ''RSA'', jk_n = [1], jk_e = [2]\<rparr>]),
     pr_fresh_key = (\<lambda>n. n + 3), pr_fresh_salt = (\<lambda>n. replicate 16 (of_nat n))\<rparr>"

lemma toy_primitives_ok: "digest_ok toy_primitives" "agreement_ok toy_primitives"
  by (simp_all add: digest_ok_def agreement_ok_def toy_primitives_def mult.commute)

text \<open>C14: The encrypted stream delivers: packets encrypted one after the other on one side of a
  session come out on the other, all of them, in order and unchanged, each eight bytes longer on the
  wire; and of all byte strings the receiver accepts only the one the sender would send next.\<close>

theorem stream_in_order:
  assumes "digest_ok p"
  shows "fst (decrypt_all p (fst (encrypt_all p xs (new_cipher key))) (new_cipher key)) = map Inr xs
    \<and> map length (fst (encrypt_all p xs (new_cipher key))) = map (\<lambda>x. length x + 8) xs
    \<and> (fst (cipher_decrypt p ct (snd (decrypt_all p (fst (encrypt_all p xs (new_cipher key))) (new_cipher key)))) = Inr x
        \<longleftrightarrow> ct = fst (cipher_encrypt p x (snd (encrypt_all p xs (new_cipher key)))))"
  using stream_delivers[OF assms in_step_new] decrypt_iff_encrypted[OF assms] by blast

lemma stream_in_order_witness:
  "fst (decrypt_all toy_primitives (fst (encrypt_all toy_primitives [[1, 2, 3], [], [4]] (new_cipher (replicate 32 9))))
     (new_cipher (replicate 32 9))) = [Inr [1, 2, 3], Inr [], Inr [4]]"
  using stream_in_order[OF toy_primitives_ok(1), of "[[1, 2, 3], [], [4]]" "replicate 32 9"] by simp

lemma der_of_point:
  assumes "agreement_ok p"
  shows "point_from_der (spki_prefix @ pr_public_point p k) = Inr (pr_public_point p k)"
    "point_to_der (pr_public_point p k) = Inr (spki_prefix @ pr_public_point p k)"
proof -
  obtain t ts where "pr_public_point p k = t # ts" "length ts = 96" "t = 0x04"
    using assms by (cases "pr_public_point p k") (auto simp: agreement_ok_def dest!: spec[of _ k])
  then show "point_from_der (spki_prefix @ pr_public_point p k) = Inr (pr_public_point p k)"
    "point_to_der (pr_public_point p k) = Inr (spki_prefix @ pr_public_point p k)"
    by (simp_all add: point_from_der_def point_to_der_def public_key_der_len_def point_len_def spki_prefix_def)
qed

lemma sides_agree:
  assumes "digest_ok p" "agreement_ok p"
  shows "\<exists>key. server_key_agree p (server_key_generate p m) (sk_public_der (server_key_generate p n)) salt = Inr key
      \<and> server_key_agree p (server_key_generate p n) (sk_public_der (server_key_generate p m)) salt = Inr key
      \<and> length key = 32"
proof -
  let ?k = "pr_fresh_key p"
  obtain s where s: "pr_diffie_hellman p (?k m) (pr_public_point p (?k n)) = Some s"
    "pr_diffie_hellman p (?k n) (pr_public_point p (?k m)) = Some s"
    using assms(2) unfolding agreement_ok_def by (metis option.exhaust)
  have "server_key_agree p (server_key_generate p m) (sk_public_der (server_key_generate p n)) salt
      = Inr (pr_sha256 p (salt @ s))"
    "server_key_agree p (server_key_generate p n) (sk_public_der (server_key_generate p m)) salt
      = Inr (pr_sha256 p (salt @ s))"
    by (simp_all add: server_key_agree_def server_key_generate_def Let_def der_of_point[OF assms(2)] s)
  then show ?thesis using assms(1) by (auto simp: digest_ok_def)
qed

text \<open>Two sides that exchange their public keys and share a salt derive the same session key, of
  32 bytes, and neither needs the other's secret; a key is refused unless it is the fixed prefix and an
  uncompressed point, and what is taken out of an accepted one is exactly what was wrapped.\<close>

lemma both_sides_agree:
  assumes "digest_ok p" "agreement_ok p"
  shows "(\<exists>key. server_key_agree p (server_key_generate p m) (sk_public_der (server_key_generate p n)) salt = Inr key
        \<and> server_key_agree p (server_key_generate p n) (sk_public_der (server_key_generate p m)) salt = Inr key
        \<and> length key = 32)
    \<and> (point_from_der der = Inr point \<longleftrightarrow> point_to_der point = Inr der)"
proof -
  have "point_from_der der = Inr point \<longleftrightarrow> point_to_der point = Inr der"
  proof -
    have len: "length spki_prefix = 23" by (simp add: spki_prefix_def)
    show ?thesis
    proof (cases "take 23 der = spki_prefix")
      case True
      then have "der = spki_prefix @ drop 23 der" by (metis append_take_drop_id)
      then obtain rest where "der = spki_prefix @ rest" by blast
      then show ?thesis
        by (cases rest; cases point)
          (auto simp: point_from_der_def point_to_der_def public_key_der_len_def point_len_def len)
    next
      case False
      then show ?thesis by (auto simp: point_from_der_def point_to_der_def len)
    qed
  qed
  then show ?thesis using sides_agree[OF assms] by blast
qed

lemma sint_add_small:
  assumes "- (2 ^ 62) \<le> sint a" "sint a < 2 ^ 62" "- (2 ^ 62) \<le> sint b" "sint b < 2 ^ 62"
  shows "sint (a + b) = sint a + sint (b :: i64)"
proof -
  have "sint (a + b) = signed_take_bit 63 (sint a + sint b)" by (simp add: sint_word_ariths)
  then show ?thesis using assms by (simp add: signed_take_bit_int_eq_self_iff)
qed

lemma try_bind_Inr: "try_bind m f = Inr v \<longleftrightarrow> (\<exists>a. m = Inr a \<and> f a = Inr v)"
  by (cases m) (auto simp: try_bind_def)

lemma or_else_Inr: "or_else v e = Inr a \<longleftrightarrow> v = Some a"
  by (cases v) (auto simp: or_else_def)

lemma decode_segment_Inr:
  "decode_segment p from_slice segment which = Inr v \<longleftrightarrow> (\<exists>b. pr_base64url_decode p segment = Some b \<and> from_slice b = Some v)"
  by (auto simp: decode_segment_def split: option.splits)

lemma check_claims_Inr:
  "check_claims c e now = Inr c' \<longleftrightarrow> c' = c \<and> cl_iss c = ex_issuer e \<and> cl_aud c = ex_audience e
     \<and> sint now \<le> sint (cl_exp c + ex_leeway e) \<and> sint (cl_iat c) \<le> sint (now + ex_leeway e)"
  by (auto simp: check_claims_def)

lemma jwks_find_known: "jwks_find keys kid = Some key \<Longrightarrow> key \<in> set keys \<and> jk_kid key = kid"
  by (auto simp: jwks_find_def find_Some_iff)

text \<open>A time the issuer could mean: within 146 thousand million years of the epoch.\<close>

definition plain_time :: "i64 \<Rightarrow> bool" where
  "plain_time t \<longleftrightarrow> - (2 ^ 62) \<le> sint t \<and> sint t < 2 ^ 62"

text \<open>C15: A token is accepted only when it has three segments, its header names the one accepted
  algorithm and a published RSA key, that key's signature holds over exactly the header and claims as
  they were sent, and the claims, read from that signed segment, name the right issuer and audience and
  hold the present time within the leeway.\<close>

theorem token_accepted_only_if_signed:
  assumes "jwt_verify p token keys e now = Inr c" "plain_time (cl_exp c)" "plain_time now" "plain_time (ex_leeway e)"
  shows "\<exists>h cs sg header key n ex signature b.
      split_on 0x2E token = [h, cs, sg]
    \<and> decode_segment p (pr_json_header p) h ''header'' = Inr header \<and> jh_alg header = ascii ''RS256''
    \<and> key \<in> set keys \<and> jk_kid key = jh_kid header \<and> jk_kty key = ascii ''RSA''
    \<and> pr_base64url_decode p (jk_n key) = Some n \<and> pr_base64url_decode p (jk_e key) = Some ex
    \<and> pr_base64url_decode p sg = Some signature
    \<and> pr_rsa_verify p n ex (h @ ascii ''.'' @ cs) signature
    \<and> pr_base64url_decode p cs = Some b \<and> pr_json_claims p b = Some c
    \<and> cl_iss c = ex_issuer e \<and> cl_aud c = ex_audience e
    \<and> sint now \<le> sint (cl_exp c) + sint (ex_leeway e) \<and> sint (cl_iat c) \<le> sint now + sint (ex_leeway e)"
proof -
  obtain h cs sg where split: "split_on 0x2E token = [h, cs, sg]"
    using assms(1) by (auto simp: jwt_verify_def split: list.splits)
  have times: "sint (cl_exp c + ex_leeway e) = sint (cl_exp c) + sint (ex_leeway e)"
    "sint (now + ex_leeway e) = sint now + sint (ex_leeway e)"
    using assms(2-4) by (simp_all add: plain_time_def sint_add_small)
  from assms(1) obtain header where h: "decode_segment p (pr_json_header p) h ''header'' = Inr header"
      and rest: "(if jh_alg header \<noteq> ascii ''RS256'' then Inl (UnexpectedAlgorithm (jh_alg header))
        else verify_with_key p h cs sg keys e now header) = Inr c"
    unfolding jwt_verify_def split list.case try_bind_Inr by blast
  have alg: "jh_alg header = ascii ''RS256''" using rest by (rule contrapos_pp) simp
  with rest have "verify_with_key p h cs sg keys e now header = Inr c" by simp
  then obtain key where key: "jwks_find keys (jh_kid header) = Some key"
      and rest: "(if jk_kty key \<noteq> ascii ''RSA'' then Inl (UnsupportedKeyType (jk_kty key))
        else verify_signature p h cs sg key e now) = Inr c"
    unfolding verify_with_key_def try_bind_Inr or_else_Inr by blast
  have kty: "jk_kty key = ascii ''RSA''" using rest by (rule contrapos_pp) simp
  with rest have "verify_signature p h cs sg key e now = Inr c" by simp
  then obtain n ex signature b where "pr_base64url_decode p (jk_n key) = Some n" "pr_base64url_decode p (jk_e key) = Some ex"
      "pr_base64url_decode p sg = Some signature" "pr_rsa_verify p n ex (h @ ascii ''.'' @ cs) signature"
      "pr_base64url_decode p cs = Some b" "pr_json_claims p b = Some c" "check_claims c e now = Inr c"
    by (auto simp: verify_signature_def try_bind_Inr or_else_Inr decode_segment_Inr Let_def check_claims_Inr split: if_splits)
  then show ?thesis
    using split h alg jwks_find_known[OF key] kty times unfolding check_claims_Inr by metis
qed

lemma token_accepted_only_if_signed_witness:
  "\<exists>h cs sg key n ex signature. split_on 0x2E [0x61, 0x2E, 0x62, 0x2E, 1, 2] = [h, cs, sg]
    \<and> key \<in> set [\<lparr>jk_kid = [0x61], jk_kty = ascii ''RSA'', jk_n = [1], jk_e = [2]\<rparr>]
    \<and> pr_base64url_decode toy_primitives (jk_n key) = Some n \<and> pr_base64url_decode toy_primitives (jk_e key) = Some ex
    \<and> pr_base64url_decode toy_primitives sg = Some signature
    \<and> pr_rsa_verify toy_primitives n ex (h @ ascii ''.'' @ cs) signature"
proof -
  let ?c = "\<lparr>cl_iss = token_issuer, cl_aud = token_audience, cl_exp = 1000, cl_iat = 900,
        cl_xid = None, cl_xname = Some [0x62], cl_cpk = Some (spki_prefix @ 0x04 # 5 # replicate 95 0)\<rparr>"
  have "jwt_verify toy_primitives [0x61, 0x2E, 0x62, 0x2E, 1, 2]
      [\<lparr>jk_kid = [0x61], jk_kty = ascii ''RSA'', jk_n = [1], jk_e = [2]\<rparr>]
      \<lparr>ex_issuer = token_issuer, ex_audience = token_audience, ex_leeway = 60\<rparr> 950 = Inr ?c"
    by (simp add: jwt_verify_def verify_with_key_def verify_signature_def try_bind_def or_else_def decode_segment_def
        jwks_find_def check_claims_def toy_primitives_def)
  from token_accepted_only_if_signed[OF this] show ?thesis by (simp add: plain_time_def) blast
qed

text \<open>An expiry at the end of the range wraps with the leeway added, and reads as long past.\<close>

lemma huge_expiry_reads_as_past:
  "check_claims \<lparr>cl_iss = i, cl_aud = a, cl_exp = 2 ^ 63 - 1, cl_iat = 0, cl_xid = None, cl_xname = None, cl_cpk = None\<rparr>
     \<lparr>ex_issuer = i, ex_audience = a, ex_leeway = 60\<rparr> 1000 = Inl (Expired (2 ^ 63 - 1) 1000)"
  by (simp add: check_claims_def)

end
