(* ===== verification/StartGame.thy ===== *)
theory StartGame
  imports GamePackets
begin

text \<open>
  \<^verbatim>\<open>bedrock-protocol/src/start_game.rs\<close>: the description of the world a client joins.
  The crate has no decoder for it; the properties here are of the bytes written.
\<close>

definition id_start_game :: u32 where "id_start_game = 11"

definition start_game_empty_nbt :: bytes where "start_game_empty_nbt = [0x0a, 0x00, 0x00]"

datatype world_generator = Overworld | FlatWorld | VoidWorld

fun generator_value :: "world_generator \<Rightarrow> i32" where
  "generator_value Overworld = 1"
| "generator_value FlatWorld = 2"
| "generator_value VoidWorld = 5"

datatype game_type = Survival | Creative

fun game_type_value :: "game_type \<Rightarrow> i32" where
  "game_type_value Survival = 0"
| "game_type_value Creative = 1"

record start_game =
  sg_entity_id :: i64
  sg_runtime_id :: u64
  sg_game_type :: game_type
  sg_position :: "f32 \<times> f32 \<times> f32"
  sg_rotation :: "f32 \<times> f32"
  sg_seed :: u64
  sg_generator :: world_generator
  sg_spawn :: "i32 \<times> i32 \<times> i32"
  sg_world_name :: bytes
  sg_vanilla_version :: bytes
  sg_server_version :: bytes

text \<open>\<^verbatim>\<open>0.5\<close> is the pattern \<open>0x3f000000\<close>; zero is the zero pattern.\<close>

definition start_game_flat :: "bytes \<Rightarrow> bytes \<Rightarrow> bytes \<Rightarrow> int \<Rightarrow> start_game" where
  "start_game_flat world_name vanilla_version server_version surface_height =
     \<lparr>sg_entity_id = 1, sg_runtime_id = 1, sg_game_type = Creative,
      sg_position = (0x3f000000, f32_add (f32_of_int surface_height) position_offset, 0x3f000000),
      sg_rotation = (0, 0), sg_seed = 0, sg_generator = FlatWorld,
      sg_spawn = (0, word_of_int surface_height, 0),
      sg_world_name = world_name, sg_vanilla_version = vanilla_version, sg_server_version = server_version\<rparr>"

definition write_level_settings :: "start_game \<Rightarrow> game_writer \<Rightarrow> game_writer" where
  "write_level_settings s w =
     (let w = gw_u64 (sg_seed s) w;
          w = gw_zigzag32 0 (gw_prefixed (ascii ''plains'') (gw_u16 0 w));
          w = gw_zigzag32 (generator_value (sg_generator s)) w;
          w = gw_zigzag32 (game_type_value (sg_game_type s)) w;
          w = gw_zigzag32 1 (gw_u8 0 w);
          w = gw_zigzag32 (fst (sg_spawn s)) w;
          w = gw_zigzag32 (fst (snd (sg_spawn s))) w;
          w = gw_zigzag32 (snd (snd (sg_spawn s))) w;
          w = gw_u8 1 w;
          w = gw_zigzag32 0 w;
          w = gw_u8 0 (gw_u8 0 w);
          w = gw_zigzag32 0 (gw_zigzag32 0 w);
          w = gw_prefixed [] (gw_u8 0 w);
          w = gw_f32 0 (gw_f32 0 w);
          w = gw_u8 0 w;
          w = gw_u8 1 (gw_u8 1 w);
          w = gw_zigzag32 0 (gw_zigzag32 0 w);
          w = gw_u8 0 (gw_u8 1 w);
          w = gw_varint 0 w;
          w = gw_u8 0 (gw_u32 0 w);
          w = gw_zigzag32 1 (gw_u8 0 (gw_u8 0 w));
          w = gw_u32 4 w;
          w = ((gw_u8 0) ^^ 10) w;
          w = gw_prefixed (sg_vanilla_version s) w;
          w = gw_u32 0 (gw_u32 0 w);
          w = gw_u8 1 w;
          w = gw_prefixed [] (gw_prefixed [] w);
          w = gw_u8 0 w;
          w = gw_u8 0 (gw_u8 0 w);
          w = gw_zigzag32 0 w
      in gw_u8 0 w)"

definition encode_start_game :: "start_game \<Rightarrow> bytes" where
  "encode_start_game s =
     (let w = gw_zigzag64 (sg_entity_id s) gw_new;
          w = gw_varint64 (sg_runtime_id s) w;
          w = gw_zigzag32 (game_type_value (sg_game_type s)) w;
          w = gw_vec3 (fst (sg_position s)) (fst (snd (sg_position s))) (snd (snd (sg_position s))) w;
          w = gw_f32 (snd (sg_rotation s)) (gw_f32 (fst (sg_rotation s)) w);
          w = write_level_settings s w;
          w = gw_prefixed [] w;
          w = gw_prefixed (sg_world_name s) w;
          w = gw_prefixed [] w;
          w = gw_u8 0 w;
          w = gw_u8 1 (gw_zigzag32 0 w);
          w = gw_u64 0 w;
          w = gw_zigzag32 0 w;
          w = gw_varint 0 w;
          w = gw_prefixed [] w;
          w = gw_u8 1 w;
          w = gw_prefixed (sg_server_version s) w;
          w = gw_bytes start_game_empty_nbt w;
          w = gw_u64 0 w;
          w = gw_u64 0 (gw_u64 0 w);
          w = gw_u8 0 (gw_u8 0 w);
          w = gw_u8 1 (gw_u8 1 w);
          w = gw_u8 0 w
      in gw_prefixed [] (gw_prefixed [] (gw_prefixed [] (gw_prefixed [] w))))"

definition start_game_packet :: "start_game \<Rightarrow> packet" where
  "start_game_packet s = new_packet id_start_game (encode_start_game s)"

end
