(* ===== verification/Frame.thy ===== *)
theory Frame
  imports Wire
begin

text \<open>
  \<^verbatim>\<open>bedrock-raknet/src/frame.rs\<close>: the unit of reliability inside a datagram.  The
  reliability in the top three bits of the flag byte decides which of the index fields
  follow; the body length is in bits.
\<close>

section \<open>Reliability\<close>

datatype reliability =
    Unreliable
  | UnreliableSequenced
  | Reliable
  | ReliableOrdered
  | ReliableSequenced
  | UnreliableAckReceipt
  | ReliableAckReceipt
  | ReliableOrderedAckReceipt

text \<open>The discriminant, \<^verbatim>\<open>self.reliability as u8\<close>.\<close>

fun reliability_code :: "reliability \<Rightarrow> u8" where
  "reliability_code Unreliable = 0"
| "reliability_code UnreliableSequenced = 1"
| "reliability_code Reliable = 2"
| "reliability_code ReliableOrdered = 3"
| "reliability_code ReliableSequenced = 4"
| "reliability_code UnreliableAckReceipt = 5"
| "reliability_code ReliableAckReceipt = 6"
| "reliability_code ReliableOrderedAckReceipt = 7"

definition reliability_from_flags :: "u8 \<Rightarrow> reliability option" where
  "reliability_from_flags flags =
     (let code = drop_bit 5 flags in
      if code = 0 then Some Unreliable
      else if code = 1 then Some UnreliableSequenced
      else if code = 2 then Some Reliable
      else if code = 3 then Some ReliableOrdered
      else if code = 4 then Some ReliableSequenced
      else if code = 5 then Some UnreliableAckReceipt
      else if code = 6 then Some ReliableAckReceipt
      else if code = 7 then Some ReliableOrderedAckReceipt
      else None)"

fun is_reliable :: "reliability \<Rightarrow> bool" where
  "is_reliable Reliable = True"
| "is_reliable ReliableOrdered = True"
| "is_reliable ReliableSequenced = True"
| "is_reliable ReliableAckReceipt = True"
| "is_reliable ReliableOrderedAckReceipt = True"
| "is_reliable _ = False"

fun is_sequenced :: "reliability \<Rightarrow> bool" where
  "is_sequenced UnreliableSequenced = True"
| "is_sequenced ReliableSequenced = True"
| "is_sequenced _ = False"

definition is_ordered :: "reliability \<Rightarrow> bool" where
  "is_ordered r \<longleftrightarrow> is_sequenced r \<or> r = ReliableOrdered \<or> r = ReliableOrderedAckReceipt"

section \<open>Frames\<close>

record split =
  split_count :: u32
  split_id :: u16
  split_index :: u32

record frame =
  fr_reliability :: reliability
  fr_reliable_index :: u32
  fr_sequence_index :: u32
  fr_order_index :: u32
  fr_order_channel :: u8
  fr_split :: "split option"
  fr_payload :: bytes

datatype frame_error =
    FrameTruncated decode_error
  | EmptyBody

definition split_flag :: u8 where
  "split_flag = 0x10"

definition new_frame :: "reliability \<Rightarrow> bytes \<Rightarrow> frame" where
  "new_frame r p =
     \<lparr>fr_reliability = r, fr_reliable_index = 0, fr_sequence_index = 0, fr_order_index = 0,
      fr_order_channel = 0, fr_split = None, fr_payload = p\<rparr>"

definition encoded_len :: "frame \<Rightarrow> nat" where
  "encoded_len f =
     (let n = 1 + 2;
          n = (if is_reliable (fr_reliability f) then n + 3 else n);
          n = (if is_sequenced (fr_reliability f) then n + 3 else n);
          n = (if is_ordered (fr_reliability f) then n + 4 else n);
          n = (if fr_split f \<noteq> None then n + 10 else n)
      in n + length (fr_payload f))"

definition header_len :: "reliability \<Rightarrow> bool \<Rightarrow> nat" where
  "header_len r split =
     (let n = 1 + 2;
          n = (if is_reliable r then n + 3 else n);
          n = (if is_sequenced r then n + 3 else n);
          n = (if is_ordered r then n + 4 else n)
      in if split then n + 10 else n)"

definition encode_frame :: "frame \<Rightarrow> writer \<Rightarrow> writer" where
  "encode_frame f w =
     (let flags = push_bit 5 (reliability_code (fr_reliability f));
          flags = (if fr_split f \<noteq> None then flags OR split_flag else flags);
          w = write_u8 flags w;
          bits = u16_or_max (saturating_mul (length (fr_payload f)) 8);
          w = write_u16 bits w;
          w = (if is_reliable (fr_reliability f)
               then write_u24 (fr_reliable_index f) w else w);
          w = (if is_sequenced (fr_reliability f)
               then write_u24 (fr_sequence_index f) w else w);
          w = (if is_ordered (fr_reliability f)
               then write_u8 (fr_order_channel f) (write_u24 (fr_order_index f) w) else w);
          w = (case fr_split f of
                 None \<Rightarrow> w
               | Some s \<Rightarrow> write_u32 (split_index s)
                   (write_u16 (split_id s) (write_u32 (split_count s) w)))
      in write_bytes (fr_payload f) w)"

text \<open>
  \<^verbatim>\<open>decode\<close> fills a frame field by field, one conditional block after the other; a field
  the reliability does not carry keeps its initial zero.
\<close>

definition decode_reliable_index :: "frame \<Rightarrow> (frame_error, frame) rd" where
  "decode_reliable_index f =
     (if is_reliable (fr_reliability f)
      then rd_bind (rd_err FrameTruncated read_u24) (\<lambda>i. rd_return (f\<lparr>fr_reliable_index := i\<rparr>))
      else rd_return f)"

definition decode_sequence_index :: "frame \<Rightarrow> (frame_error, frame) rd" where
  "decode_sequence_index f =
     (if is_sequenced (fr_reliability f)
      then rd_bind (rd_err FrameTruncated read_u24) (\<lambda>i. rd_return (f\<lparr>fr_sequence_index := i\<rparr>))
      else rd_return f)"

definition decode_order :: "frame \<Rightarrow> (frame_error, frame) rd" where
  "decode_order f =
     (if is_ordered (fr_reliability f)
      then rd_bind (rd_err FrameTruncated read_u24) (\<lambda>i.
        rd_bind (rd_err FrameTruncated read_u8) (\<lambda>c.
          rd_return (f\<lparr>fr_order_index := i, fr_order_channel := c\<rparr>)))
      else rd_return f)"

definition decode_split :: "bool \<Rightarrow> frame \<Rightarrow> (frame_error, frame) rd" where
  "decode_split is_split f =
     (if is_split
      then rd_bind (rd_err FrameTruncated read_u32) (\<lambda>count.
        rd_bind (rd_err FrameTruncated read_u16) (\<lambda>sid.
        rd_bind (rd_err FrameTruncated read_u32) (\<lambda>index.
          rd_return (f\<lparr>fr_split :=
            Some \<lparr>split_count = count, split_id = sid, split_index = index\<rparr>\<rparr>))))
      else rd_return f)"

definition decode_payload :: "nat \<Rightarrow> frame \<Rightarrow> (frame_error, frame) rd" where
  "decode_payload len f =
     rd_bind (rd_err FrameTruncated (read_bytes len)) (\<lambda>payload.
       rd_return (f\<lparr>fr_payload := payload\<rparr>))"

definition decode_frame :: "(frame_error, frame) rd" where
  "decode_frame =
     rd_bind (rd_err FrameTruncated read_u8) (\<lambda>flags.
     let r = (case reliability_from_flags flags of Some r \<Rightarrow> r | None \<Rightarrow> Unreliable);
         is_split = (flags AND split_flag \<noteq> 0)
     in
     rd_bind (rd_err FrameTruncated read_u16) (\<lambda>bits16.
     let bits = unat bits16 in
     if bits = 0 then rd_fail EmptyBody
     else
     let len = div_ceil bits 8 in
     rd_bind (decode_reliable_index (new_frame r [])) (\<lambda>f.
     rd_bind (decode_sequence_index f) (\<lambda>f.
     rd_bind (decode_order f) (\<lambda>f.
     rd_bind (decode_split is_split f) (\<lambda>f.
     decode_payload len f))))))"

lemmas decode_field_defs = decode_reliable_index_def decode_sequence_index_def decode_order_def
  decode_split_def decode_payload_def

section \<open>What the wire can carry\<close>

text \<open>
  A frame round trips when its body is not empty and not longer than the bit count can say,
  its counters are 24-bit, and the fields its reliability does not carry are zero.
\<close>

definition max_frame_body :: nat where
  "max_frame_body = 8191"

definition frame_ok :: "frame \<Rightarrow> bool" where
  "frame_ok f \<longleftrightarrow>
     fr_payload f \<noteq> [] \<and> length (fr_payload f) \<le> max_frame_body
     \<and> (if is_reliable (fr_reliability f) then is_u24 (fr_reliable_index f)
        else fr_reliable_index f = 0)
     \<and> (if is_sequenced (fr_reliability f) then is_u24 (fr_sequence_index f)
        else fr_sequence_index f = 0)
     \<and> (if is_ordered (fr_reliability f) then is_u24 (fr_order_index f)
        else fr_order_index f = 0 \<and> fr_order_channel f = 0)"

lemma reliability_flags:
  "reliability_from_flags (push_bit 5 (reliability_code r)) = Some r"
  "reliability_from_flags (push_bit 5 (reliability_code r) OR split_flag) = Some r"
  "push_bit 5 (reliability_code r) AND split_flag = 0"
  "(push_bit 5 (reliability_code r) OR split_flag) AND split_flag \<noteq> 0"
  by (cases r; simp add: reliability_from_flags_def split_flag_def Let_def)+

lemma reliability_from_flags_total: "reliability_from_flags flags \<noteq> None"
proof -
  have "unat (drop_bit 5 flags) < 8"
    using unsigned_less[of flags, where 'a = nat] unat_drop_bit_eq[of 5 flags]
    by (simp add: drop_bit_eq_div[of 5 "unat flags"])
  then have "unat (drop_bit 5 flags) \<in> {0, 1, 2, 3, 4, 5, 6, 7}" by auto
  then show ?thesis
    by (auto simp: reliability_from_flags_def Let_def word_unat_eq_iff)
qed

lemma body_bits:
  assumes "n \<le> max_frame_body"
  shows "unat (u16_or_max (saturating_mul n 8)) = n * 8" "div_ceil (n * 8) 8 = n"
proof -
  have "saturating_mul n 8 = n * 8"
    using assms by (simp add: saturating_mul_def usize_max_def max_frame_body_def min_def)
  then show "unat (u16_or_max (saturating_mul n 8)) = n * 8"
    using assms by (simp add: unat_u16_or_max max_frame_body_def)
  show "div_ceil (n * 8) 8 = n" by (simp add: div_ceil_def)
qed

lemma encode_frame_append [codec_append]: "encode_frame f w = w @ encode_frame f []"
  by (simp add: encode_frame_def writer_defs Let_def split: option.splits)

lemma length_encode_frame: "length (encode_frame f w) = length w + encoded_len f"
  by (simp add: encode_frame_def encoded_len_def writer_defs Let_def split: option.splits)

lemma encoded_len_header:
  "encoded_len f = header_len (fr_reliability f) (fr_split f \<noteq> None) + length (fr_payload f)"
  by (simp add: encoded_len_def header_len_def Let_def)

lemma safe_decode_frame [reader_safe, simp]: "safe decode_frame"
  unfolding decode_frame_def decode_field_defs Let_def
  by (intro safe_bind safe_if safe_err safe_primitives safe_return safe_fail safe_read_bytes)

text \<open>One optional field: read when the reliability carries it, left at zero otherwise.\<close>

lemma reads_optional:
  assumes "c \<Longrightarrow> reads m bs v" "\<not> c \<Longrightarrow> bs = [] \<and> w = v"
  shows "reads (if c then m else rd_return w) bs v"
  using assms by (cases c) auto

lemma split_eta [simp]:
  "\<lparr>split_count = split_count s, split_id = split_id s, split_index = split_index s\<rparr> = s"
  by (cases s) simp

lemma reads_encode_frame [codec_reads]:
  assumes ok: "frame_ok f"
  shows "reads decode_frame (encode_frame f []) f"
proof -
  obtain r ri si oi ch sp p where f: "f = \<lparr>fr_reliability = r, fr_reliable_index = ri,
    fr_sequence_index = si, fr_order_index = oi, fr_order_channel = ch, fr_split = sp,
    fr_payload = p\<rparr>"
    by (cases f) auto
  let ?flags = "if sp \<noteq> None then push_bit 5 (reliability_code r) OR split_flag
    else push_bit 5 (reliability_code r)"
  let ?bits = "u16_or_max (saturating_mul (length p) 8)"
  let ?a = "if is_reliable r then write_u24 ri [] else []"
  let ?b = "if is_sequenced r then write_u24 si [] else []"
  let ?c = "if is_ordered r then write_u24 oi [] @ [ch] else []"
  let ?d = "case sp of None \<Rightarrow> [] | Some s \<Rightarrow>
    be_bytes 4 (split_count s) @ be_bytes 2 (split_id s) @ be_bytes 4 (split_index s)"
  let ?f0 = "new_frame r []"
  let ?f1 = "?f0\<lparr>fr_reliable_index := ri\<rparr>"
  let ?f2 = "?f1\<lparr>fr_sequence_index := si\<rparr>"
  let ?f3 = "?f2\<lparr>fr_order_index := oi, fr_order_channel := ch\<rparr>"
  let ?f4 = "?f3\<lparr>fr_split := sp\<rparr>"
  have enc: "encode_frame f [] = [?flags] @ be_bytes 2 ?bits @ ?a @ ?b @ ?c @ ?d @ p"
    by (simp add: f encode_frame_def writer_defs Let_def split: option.splits)
  have p: "p \<noteq> []" "length p \<le> max_frame_body" using ok by (simp_all add: f frame_ok_def)
  have bits: "unat ?bits = length p * 8" "div_ceil (length p * 8) 8 = length p"
    using body_bits[OF p(2)] by auto
  have ra: "reads (decode_reliable_index ?f0) ?a ?f1"
    unfolding decode_reliable_index_def using ok
    by (intro reads_optional) (auto simp: f frame_ok_def new_frame_def
        intro!: reads_bind_nil[OF reads_err[OF reads_singleton_u24_append]])
  have rb: "reads (decode_sequence_index ?f1) ?b ?f2"
    unfolding decode_sequence_index_def using ok
    by (intro reads_optional) (auto simp: f frame_ok_def new_frame_def
        intro!: reads_bind_nil[OF reads_err[OF reads_singleton_u24_append]])
  have rc: "reads (decode_order ?f2) ?c ?f3"
    unfolding decode_order_def using ok
    by (intro reads_optional) (auto simp: f frame_ok_def new_frame_def
        intro!: reads_bind[OF reads_err[OF reads_singleton_u24_append]]
          reads_bind_nil[OF reads_err[OF reads_u8]])
  have rd: "reads (decode_split (sp \<noteq> None) ?f3) ?d ?f4"
    unfolding decode_split_def
    by (intro reads_optional) (auto simp: new_frame_def
        intro!: reads_bind[OF reads_err[OF reads_u32]] reads_bind[OF reads_err[OF reads_u16]]
          reads_bind_nil[OF reads_err[OF reads_u32]])
  have rp: "reads (decode_payload (length p) ?f4) p f"
    unfolding decode_payload_def
    by (rule reads_bind_nil[OF reads_err[OF reads_bytes[OF refl]]]) (simp add: f new_frame_def)
  have split: "(?flags AND split_flag \<noteq> 0) = (sp \<noteq> None)"
    and rel: "(case reliability_from_flags ?flags of Some r \<Rightarrow> r | None \<Rightarrow> Unreliable) = r"
    using reliability_flags by auto
  show ?thesis
    unfolding enc decode_frame_def
    apply (rule reads_bindI[OF reads_err[OF reads_u8[of ?flags]] _ refl])
    unfolding Let_def rel split
    apply (rule reads_bindI[OF reads_err[OF reads_u16[of ?bits]] _ refl])
    unfolding bits
    apply (subst if_not_P)
    using p(1) apply simp
    by (rule reads_bindI[OF ra _ refl], rule reads_bindI[OF rb _ refl],
        rule reads_bindI[OF rc _ refl], rule reads_bindI[OF rd _ refl], rule rp)
qed

text \<open>A decoded frame used exactly the bytes \<^const>\<open>encoded_len\<close> says, and at least four.\<close>

text \<open>What the header fields of a decoded frame satisfy, whoever sent it.\<close>

definition header_wf :: "frame \<Rightarrow> bool" where
  "header_wf f \<longleftrightarrow> is_u24 (fr_reliable_index f) \<and> is_u24 (fr_sequence_index f)
     \<and> is_u24 (fr_order_index f)"

definition same_shape :: "frame \<Rightarrow> frame \<Rightarrow> bool" where
  "same_shape f f' \<longleftrightarrow> fr_reliability f' = fr_reliability f \<and> fr_split f' = fr_split f"

lemmas eats_field = eats_err[OF eats_prims(1)] eats_err[OF eats_prims(2)]
  eats_err[OF eats_prims(3)] eats_err[OF eats_prims(4)]

lemma eats_decode_fields:
  assumes "header_wf f"
  shows "eats (decode_reliable_index f) (\<lambda>n f'.
      n = (if is_reliable (fr_reliability f) then 3 else 0) \<and> same_shape f f' \<and> header_wf f')"
    and "eats (decode_sequence_index f) (\<lambda>n f'.
      n = (if is_sequenced (fr_reliability f) then 3 else 0) \<and> same_shape f f' \<and> header_wf f')"
    and "eats (decode_order f) (\<lambda>n f'.
      n = (if is_ordered (fr_reliability f) then 4 else 0) \<and> same_shape f f' \<and> header_wf f')"
    and "eats (decode_split b f) (\<lambda>n f'. n = (if b then 10 else 0)
      \<and> fr_reliability f' = fr_reliability f \<and> (fr_split f' \<noteq> None \<longleftrightarrow> b \<or> fr_split f \<noteq> None)
      \<and> header_wf f')"
  using assms unfolding decode_field_defs
  by (auto simp: same_shape_def header_wf_def
      intro!: eats_if eats_return eats_bind[OF eats_field(3)] eats_bind[OF eats_field(4)]
        eats_bind[OF eats_field(2)] eats_bind[OF eats_field(1)])

definition frame_wf :: "frame \<Rightarrow> bool" where
  "frame_wf f \<longleftrightarrow> header_wf f \<and> fr_payload f \<noteq> [] \<and> length (fr_payload f) \<le> max_frame_body + 1"

lemma eats_decode_frame: "eats decode_frame (\<lambda>n f. n = encoded_len f \<and> frame_wf f)"
  unfolding decode_frame_def Let_def
proof (rule eats_bind[OF eats_field(1)], rule eats_bind[OF eats_field(2)],
    rule eats_if[OF eats_fail])
  fix flags :: u8 and bits :: u16 and n1 n2 :: nat
  assume n: "n1 = 1" "n2 = 2" and bits: "unat bits \<noteq> 0"
  let ?r = "case reliability_from_flags flags of None \<Rightarrow> Unreliable | Some r \<Rightarrow> r"
  let ?s = "flags AND split_flag \<noteq> 0"
  let ?len = "div_ceil (unat bits) 8"
  have len: "0 < ?len" "?len \<le> max_frame_body + 1"
    using bits unsigned_less[of bits, where 'a = nat]
    by (auto simp: div_ceil_def max_frame_body_def)
  have wf0: "header_wf (new_frame ?r [])" by (simp add: header_wf_def new_frame_def is_u24_def)
  show "eats (rd_bind (decode_reliable_index (new_frame ?r [])) (\<lambda>f.
      rd_bind (decode_sequence_index f) (\<lambda>f. rd_bind (decode_order f) (\<lambda>f.
      rd_bind (decode_split ?s f) (decode_payload ?len)))))
    (\<lambda>k f. n1 + (n2 + k) = encoded_len f \<and> frame_wf f)"
    by (rule eats_bind[OF eats_decode_fields(1)[OF wf0]], elim conjE,
        rule eats_bind[OF eats_decode_fields(2)], assumption, elim conjE,
        rule eats_bind[OF eats_decode_fields(3)], assumption, elim conjE,
        rule eats_bind[OF eats_decode_fields(4)], assumption, elim conjE,
        unfold decode_payload_def, rule eats_bind[OF eats_err[OF eats_prims(7)]], rule eats_return)
      (use len n in \<open>auto simp: encoded_len_def same_shape_def frame_wf_def header_wf_def new_frame_def\<close>)
qed

text \<open>A decoded frame used exactly the bytes \<^const>\<open>encoded_len\<close> says, and at least four.\<close>

lemma decode_frame_advanced:
  assumes "decode_frame r = (Inr f, r')" "pos r \<le> length (buf r)"
  shows "advanced (encoded_len f) r r'" "frame_wf f" "4 \<le> encoded_len f"
proof -
  show "advanced (encoded_len f) r r'" and wf: "frame_wf f"
    using eatsD[OF eats_decode_frame assms] by auto
  from wf have "1 \<le> length (fr_payload f)" by (cases "fr_payload f") (auto simp: frame_wf_def)
  then show "4 \<le> encoded_len f" by (simp add: encoded_len_def)
qed

interpretation framec: wire_codec encode_frame decode_frame frame_ok
proof unfold_locales
  show "encode_frame v w = w @ encode_frame v []" for v w by (rule encode_frame_append)
  show "reads decode_frame (encode_frame v []) v" if "frame_ok v" for v
    using that by (rule reads_encode_frame)
  show "safe decode_frame" by simp
qed

end
