(* ===== verification/Datagram.thy ===== *)
theory Datagram
  imports Frame
begin

text \<open>
  \<^verbatim>\<open>bedrock-raknet/src/datagram.rs\<close>: a UDP payload of the connected phase is a frame set, an
  acknowledgement or a negative acknowledgement.  Ranges stay ranges.
\<close>

section \<open>Acknowledgements\<close>

definition datagram_header_len :: nat where
  "datagram_header_len = 4"

definition flag_valid :: u8 where "flag_valid = 0x80"
definition flag_ack :: u8 where "flag_ack = 0x40"
definition flag_nack :: u8 where "flag_nack = 0x20"

record acknowledgement =
  ranges :: "(u32 \<times> u32) list"

lemma ranges_eta [simp]: "\<lparr>ranges = ranges a\<rparr> = a"
  by (cases a) simp

definition ack_single :: "u32 \<Rightarrow> acknowledgement" where
  "ack_single sequence = \<lparr>ranges = [(sequence, sequence)]\<rparr>"

definition ack_contains :: "acknowledgement \<Rightarrow> u32 \<Rightarrow> bool" where
  "ack_contains a sequence \<longleftrightarrow>
     list_ex (\<lambda>(start, end). sequence \<ge> start \<and> sequence \<le> end) (ranges a)"

datatype datagram_error =
    DatagramTruncated decode_error
  | NotConnected u8
  | DatagramFrame frame_error

definition encode_range :: "u32 \<times> u32 \<Rightarrow> writer \<Rightarrow> writer" where
  "encode_range = (\<lambda>(start, end) w.
     if start = end then write_u24 start (write_u8 1 w)
     else write_u24 end (write_u24 start (write_u8 0 w)))"

definition encode_ack :: "u8 \<Rightarrow> acknowledgement \<Rightarrow> writer \<Rightarrow> writer" where
  "encode_ack flags a w =
     (let w = write_u8 flags w;
          w = write_u16 (u16_or_max (length (ranges a))) w
      in fold encode_range (take 65535 (ranges a)) w)"

definition decode_range :: "(datagram_error, u32 \<times> u32) rd" where
  "decode_range =
     rd_bind (rd_err DatagramTruncated read_u8) (\<lambda>kind.
       if kind = 1
       then rd_bind (rd_err DatagramTruncated read_u24) (\<lambda>single. rd_return (single, single))
       else rd_bind (rd_err DatagramTruncated read_u24) (\<lambda>start.
         rd_bind (rd_err DatagramTruncated read_u24) (\<lambda>end. rd_return (start, end))))"

text \<open>The loop \<^verbatim>\<open>for _ in 0..count\<close>, pushing each range.\<close>

fun decode_ranges :: "nat \<Rightarrow> (u32 \<times> u32) list \<Rightarrow> (datagram_error, (u32 \<times> u32) list) rd" where
  "decode_ranges 0 rs = rd_return rs"
| "decode_ranges (Suc n) rs = rd_bind decode_range (\<lambda>range. decode_ranges n (rs @ [range]))"

definition decode_ack :: "(datagram_error, acknowledgement) rd" where
  "decode_ack =
     rd_bind (rd_err DatagramTruncated read_u16) (\<lambda>count.
       rd_bind (decode_ranges (unat count) []) (\<lambda>rs. rd_return \<lparr>ranges = rs\<rparr>))"

section \<open>Datagrams\<close>

record frame_set =
  fs_sequence :: u32
  fs_frames :: "frame list"

datatype datagram =
    FrameSet frame_set
  | Ack acknowledgement
  | Nack acknowledgement

fun encode_datagram :: "datagram \<Rightarrow> writer \<Rightarrow> writer" where
  "encode_datagram (FrameSet fs) w =
     (let w = write_u24 (fs_sequence fs) (write_u8 flag_valid w)
      in fold encode_frame (fs_frames fs) w)"
| "encode_datagram (Ack a) w = encode_ack (flag_valid OR flag_ack) a w"
| "encode_datagram (Nack a) w = encode_ack (flag_valid OR flag_nack) a w"

text \<open>
  The loop \<^verbatim>\<open>while r.remaining() > 0\<close>.  It ends because a decoded frame moves the cursor.
\<close>

function decode_frames :: "frame list \<Rightarrow> (datagram_error, frame list) rd" where
  "decode_frames fs r =
     (if remaining r > 0
      then (case decode_frame r of
              (Inl e, r') \<Rightarrow> (Inl (DatagramFrame e), r')
            | (Inr f, r') \<Rightarrow> decode_frames (fs @ [f]) r')
      else (Inr fs, r))"
  by pat_completeness auto

lemma decode_frame_progress:
  assumes "decode_frame r = (Inr f, r')" "0 < remaining r"
  shows "remaining r' < remaining r"
  using decode_frame_advanced[OF assms(1)] assms(2)
  by (auto simp: remaining_def advanced_def)

termination decode_frames
  by (relation "measure (\<lambda>(fs, r). remaining r)") (auto simp: decode_frame_progress[OF sym])

declare decode_frames.simps [simp del]

definition read_datagram :: "(datagram_error, datagram) rd" where
  "read_datagram =
     rd_bind (rd_err DatagramTruncated read_u8) (\<lambda>flags.
       if flags AND flag_valid = 0 then rd_fail (NotConnected flags)
       else if flags AND flag_ack \<noteq> 0 then
         rd_bind decode_ack (\<lambda>a. rd_return (Ack a))
       else if flags AND flag_nack \<noteq> 0 then
         rd_bind decode_ack (\<lambda>a. rd_return (Nack a))
       else rd_bind (rd_err DatagramTruncated read_u24) (\<lambda>sequence.
         rd_bind (decode_frames []) (\<lambda>frames.
           rd_return (FrameSet \<lparr>fs_sequence = sequence, fs_frames = frames\<rparr>))))"

definition decode_datagram :: "bytes \<Rightarrow> datagram_error + datagram" where
  "decode_datagram b = fst (read_datagram (new_reader b))"

section \<open>Round trips\<close>

definition range_ok :: "u32 \<times> u32 \<Rightarrow> bool" where
  "range_ok = (\<lambda>(start, end). is_u24 start \<and> is_u24 end)"

definition ack_ok :: "acknowledgement \<Rightarrow> bool" where
  "ack_ok a \<longleftrightarrow> length (ranges a) < 2 ^ 16 \<and> list_all range_ok (ranges a)"

fun datagram_ok :: "datagram \<Rightarrow> bool" where
  "datagram_ok (FrameSet fs) \<longleftrightarrow> is_u24 (fs_sequence fs) \<and> list_all frame_ok (fs_frames fs)"
| "datagram_ok (Ack a) \<longleftrightarrow> ack_ok a"
| "datagram_ok (Nack a) \<longleftrightarrow> ack_ok a"

lemma fold_append_out:
  assumes "\<And>x w. enc x w = w @ enc x []"
  shows "fold enc xs w = w @ concat (map (\<lambda>x. enc x []) xs)"
proof (induction xs arbitrary: w)
  case Nil
  then show ?case by simp
next
  case (Cons x xs)
  show ?case using Cons.IH[of "enc x w"] assms[of x w] by simp
qed

lemma encode_range_append [codec_append]: "encode_range x w = w @ encode_range x []"
  by (simp add: encode_range_def writer_defs split: prod.splits)

lemma reads_encode_range [codec_reads]:
  assumes "range_ok x"
  shows "reads decode_range (encode_range x []) x"
proof -
  obtain a b where x: "x = (a, b)" by fastforce
  have ok: "is_u24 a" "is_u24 b" using assms by (simp_all add: x range_ok_def)
  show ?thesis
  proof (cases "a = b")
    case True
    have "encode_range x [] = [1] @ write_u24 a []"
      using True by (simp add: x encode_range_def writer_defs)
    moreover have "reads decode_range ([1] @ write_u24 a []) x"
      unfolding decode_range_def
      by (rule reads_bind[OF reads_err[OF reads_u8]])
        (use True ok in \<open>simp add: x reads_bind_nil[OF reads_err[OF reads_singleton_u24_append]]\<close>)
    ultimately show ?thesis by simp
  next
    case False
    have "encode_range x [] = [0] @ write_u24 a [] @ write_u24 b []"
      using False by (simp add: x encode_range_def writer_defs)
    moreover have "reads decode_range ([0] @ write_u24 a [] @ write_u24 b []) x"
      unfolding decode_range_def
      by (rule reads_bind[OF reads_err[OF reads_u8]])
        (use ok in \<open>simp add: x reads_bind[OF reads_err[OF reads_singleton_u24_append]
           reads_bind_nil[OF reads_err[OF reads_singleton_u24_append]]]\<close>)
    ultimately show ?thesis by simp
  qed
qed

lemma eats_decode_range: "eats decode_range (\<lambda>n x. 4 \<le> n \<and> range_ok x)"
  unfolding decode_range_def range_ok_def
  by (rule eats_bind[OF eats_err[OF eats_prims(1)]], rule eats_if)
    (auto intro!: eats_bind[OF eats_err[OF eats_prims(3)]] eats_return)

lemma safe_decode_range [reader_safe, simp]: "safe decode_range"
  unfolding decode_range_def
  by (intro safe_bind safe_if safe_err safe_primitives safe_return)

interpretation rangec: wire_codec encode_range decode_range range_ok
proof unfold_locales
  show "encode_range v w = w @ encode_range v []" for v w by (rule encode_range_append)
  show "reads decode_range (encode_range v []) v" if "range_ok v" for v
    using that by (rule reads_encode_range)
  show "safe decode_range" by simp
qed

lemma reads_decode_ranges:
  "list_all range_ok xs \<Longrightarrow>
    reads (decode_ranges (length xs) rs) (concat (map (\<lambda>x. encode_range x []) xs)) (rs @ xs)"
proof (induction xs arbitrary: rs)
  case Nil
  then show ?case by simp
next
  case (Cons x xs)
  have "reads (decode_ranges (length xs) (rs @ [x])) (concat (map (\<lambda>x. encode_range x []) xs))
    (rs @ x # xs)"
    using Cons.IH[of "rs @ [x]"] Cons.prems by simp
  then show ?case
    using Cons.prems by (auto intro!: reads_bindI[OF reads_encode_range])
qed

lemma encode_ack_append [codec_append]: "encode_ack flags a w = w @ encode_ack flags a []"
  unfolding encode_ack_def Let_def
  by (simp add: fold_append_out[of encode_range, OF encode_range_append] writer_defs)

lemma encode_ack_bytes:
  "ack_ok a \<Longrightarrow> encode_ack flags a []
     = flags # be_bytes 2 (of_nat (length (ranges a)) :: u16)
       @ concat (map (\<lambda>x. encode_range x []) (ranges a))"
  unfolding encode_ack_def Let_def ack_ok_def
  by (simp add: fold_append_out[of encode_range, OF encode_range_append] u16_or_max_def
      writer_defs)

lemma reads_decode_ack:
  assumes "ack_ok a"
  shows "reads decode_ack (be_bytes 2 (of_nat (length (ranges a)) :: u16)
    @ concat (map (\<lambda>x. encode_range x []) (ranges a))) a"
proof -
  have "unat (of_nat (length (ranges a)) :: u16) = length (ranges a)"
    using assms by (simp add: ack_ok_def unat_of_nat_small)
  then show ?thesis
    unfolding decode_ack_def
    using assms reads_decode_ranges[of "ranges a" "[]"]
    by (intro reads_bind[OF reads_err[OF reads_u16]] reads_bind_nil) (auto simp: ack_ok_def)
qed

text \<open>The frame loop reads back every frame up to the end of the datagram.\<close>

lemma decode_frames_encoded:
  assumes "list_all frame_ok fs" "length (pre @ concat (map (\<lambda>f. encode_frame f []) fs)) \<le> usize_max"
  shows "decode_frames acc \<lparr>buf = pre @ concat (map (\<lambda>f. encode_frame f []) fs), pos = length pre\<rparr>
    = (Inr (acc @ fs), \<lparr>buf = pre @ concat (map (\<lambda>f. encode_frame f []) fs),
         pos = length (pre @ concat (map (\<lambda>f. encode_frame f []) fs))\<rparr>)"
  using assms
proof (induction fs arbitrary: pre acc)
  case Nil
  then show ?case by (simp add: decode_frames.simps remaining_def)
next
  case (Cons f fs)
  let ?rest = "concat (map (\<lambda>f. encode_frame f []) fs)"
  have "0 < length (encode_frame f [])"
    by (simp add: length_encode_frame encoded_len_def)
  moreover have "decode_frame \<lparr>buf = pre @ encode_frame f [] @ ?rest, pos = length pre\<rparr>
    = (Inr f, \<lparr>buf = pre @ encode_frame f [] @ ?rest, pos = length pre + length (encode_frame f [])\<rparr>)"
    using Cons.prems by (intro readsD reads_encode_frame) auto
  ultimately show ?case
    using Cons.IH[of "pre @ encode_frame f []" "acc @ [f]"] Cons.prems
    by (subst decode_frames.simps) (simp add: remaining_def)
qed

lemma encode_datagram_append [codec_append]: "encode_datagram d w = w @ encode_datagram d []"
proof (cases d)
  case (FrameSet fs)
  have "fold encode_frame xs v = v @ concat (map (\<lambda>x. encode_frame x []) xs)" for xs v
    by (rule fold_append_out) (rule encode_frame_append)
  then show ?thesis by (simp add: FrameSet Let_def writer_defs)
qed (auto intro: encode_ack_append)

lemma encode_frame_set_bytes:
  "encode_datagram (FrameSet fs) []
     = [flag_valid] @ write_u24 (fs_sequence fs) []
       @ concat (map (\<lambda>f. encode_frame f []) (fs_frames fs))"
proof -
  have "fold encode_frame xs v = v @ concat (map (\<lambda>x. encode_frame x []) xs)" for xs v
    by (rule fold_append_out) (rule encode_frame_append)
  then show ?thesis by (simp add: Let_def writer_defs)
qed

lemma flag_tests:
  "flag_valid AND flag_valid \<noteq> 0" "flag_valid AND flag_ack = 0" "flag_valid AND flag_nack = 0"
  "(flag_valid OR flag_ack) AND flag_valid \<noteq> 0" "(flag_valid OR flag_ack) AND flag_ack \<noteq> 0"
  "(flag_valid OR flag_nack) AND flag_valid \<noteq> 0" "(flag_valid OR flag_nack) AND flag_ack = 0"
  "(flag_valid OR flag_nack) AND flag_nack \<noteq> 0"
  "flag_valid \<noteq> 0" "flag_ack \<noteq> 0" "flag_nack \<noteq> 0"
  by (simp_all add: flag_valid_def flag_ack_def flag_nack_def)

lemma decode_encode_frame_set:
  assumes ok: "is_u24 (fs_sequence fs)" "list_all frame_ok (fs_frames fs)"
    and len: "length (encode_datagram (FrameSet fs) []) \<le> usize_max"
  shows "decode_datagram (encode_datagram (FrameSet fs) []) = Inr (FrameSet fs)"
proof -
  let ?rest = "concat (map (\<lambda>f. encode_frame f []) (fs_frames fs))"
  let ?s = "write_u24 (fs_sequence fs) []"
  let ?b = "[flag_valid] @ ?s @ ?rest"
  have len': "length ?b \<le> usize_max" using len by (simp only: encode_frame_set_bytes)
  have 1: "read_u8 \<lparr>buf = ?b, pos = 0\<rparr> = (Inr flag_valid, \<lparr>buf = ?b, pos = 1\<rparr>)"
    using readsD[OF reads_u8, of "[]" flag_valid "?s @ ?rest"] len' by simp
  have 2: "read_u24 \<lparr>buf = ?b, pos = 1\<rparr> = (Inr (fs_sequence fs), \<lparr>buf = ?b, pos = 4\<rparr>)"
    using readsD[OF reads_singleton_u24_append[OF ok(1)], of "[flag_valid]" ?rest] len'
    by (simp add: writer_defs)
  have 3: "decode_frames [] \<lparr>buf = ?b, pos = 4\<rparr>
    = (Inr (fs_frames fs), \<lparr>buf = ?b, pos = length ?b\<rparr>)"
    using decode_frames_encoded[OF ok(2), of "[flag_valid] @ ?s" "[]"] len'
    by (simp add: writer_defs eval_nat_numeral)
  show ?thesis
    unfolding decode_datagram_def read_datagram_def encode_frame_set_bytes
    using 1 2 3 by (simp add: rd_bind_def rd_err_def rd_return_def new_reader_def flag_tests)
qed

lemma decode_encode_acks:
  assumes ok: "ack_ok a" and len: "length (encode_ack flags a []) \<le> usize_max"
    and flags: "flags AND flag_valid \<noteq> 0"
  shows "decode_datagram (encode_ack flags a [])
    = (if flags AND flag_ack \<noteq> 0 then Inr (Ack a)
       else if flags AND flag_nack \<noteq> 0 then Inr (Nack a)
       else decode_datagram (encode_ack flags a []))"
proof -
  let ?body = "be_bytes 2 (of_nat (length (ranges a)) :: u16)
    @ concat (map (\<lambda>x. encode_range x []) (ranges a))"
  let ?b = "[flags] @ ?body"
  have enc: "encode_ack flags a [] = ?b" by (simp add: encode_ack_bytes[OF ok])
  have len': "length ?b \<le> usize_max" using len by (simp only: enc)
  have 1: "read_u8 \<lparr>buf = ?b, pos = 0\<rparr> = (Inr flags, \<lparr>buf = ?b, pos = 1\<rparr>)"
    using readsD[OF reads_u8, of "[]" flags ?body] len' by simp
  have 2: "decode_ack \<lparr>buf = ?b, pos = 1\<rparr> = (Inr a, \<lparr>buf = ?b, pos = length ?b\<rparr>)"
    using readsD[OF reads_decode_ack[OF ok], of "[flags]" "[]"] len' by simp
  show ?thesis
    unfolding decode_datagram_def read_datagram_def enc
    using 1 2 flags by (simp add: rd_bind_def rd_err_def rd_return_def new_reader_def)
qed

lemma decode_encode_datagram:
  assumes "datagram_ok d" "length (encode_datagram d []) \<le> usize_max"
  shows "decode_datagram (encode_datagram d []) = Inr d"
  using assms decode_encode_frame_set decode_encode_acks[of _ "flag_valid OR flag_ack"]
    decode_encode_acks[of _ "flag_valid OR flag_nack"]
  by (cases d) (simp_all add: flag_tests del: encode_datagram.simps(1))

section \<open>Bounds on what a peer can make the decoder build\<close>

lemma decode_frames_bounds:
  assumes "decode_frames acc r = (Inr fs, r')" "pos r \<le> length (buf r)"
    "list_all frame_wf acc"
  shows "sum_list (map encoded_len fs) = sum_list (map encoded_len acc) + remaining r
    \<and> list_all frame_wf fs"
  using assms
proof (induction acc r arbitrary: fs r' rule: decode_frames.induct)
  case (1 acc r)
  show ?case
  proof (cases "remaining r > 0")
    case False
    then show ?thesis using 1(2,4) by (simp add: decode_frames.simps)
  next
    case True
    obtain f r1 where f: "decode_frame r = (Inr f, r1)"
      and rec: "decode_frames (acc @ [f]) r1 = (Inr fs, r')"
      using True 1(2) by (subst (asm) decode_frames.simps) (auto split: prod.splits sum.splits)
    note adv = decode_frame_advanced[OF f 1(3)]
    then have "pos r1 \<le> length (buf r1)" "remaining r = encoded_len f + remaining r1"
      by (auto simp: advanced_def remaining_def)
    then show ?thesis
      using 1(1)[OF True f[symmetric] refl rec] adv(2) 1(4) by simp
  qed
qed

lemma eats_decode_ranges:
  "list_all range_ok rs \<Longrightarrow> eats (decode_ranges k rs)
     (\<lambda>n out. 4 * (length out - length rs) \<le> n \<and> length out = length rs + k \<and> list_all range_ok out)"
proof (induction k arbitrary: rs)
  case 0
  then show ?case by (auto intro!: eats_return)
next
  case (Suc k)
  show ?case
    unfolding decode_ranges.simps
  proof (rule eats_bind[OF eats_decode_range])
    fix n :: nat and x assume x: "4 \<le> n \<and> range_ok x"
    have "eats (decode_ranges k (rs @ [x])) (\<lambda>n out. 4 * (length out - length (rs @ [x])) \<le> n
      \<and> length out = length (rs @ [x]) + k \<and> list_all range_ok out)"
      using Suc.prems x by (intro Suc.IH) simp
    then show "eats (decode_ranges k (rs @ [x])) (\<lambda>m out. 4 * (length out - length rs) \<le> n + m
      \<and> length out = length rs + Suc k \<and> list_all range_ok out)"
      by (rule eats_weaken) (use x in auto)
  qed
qed

lemma eats_decode_ack:
  "eats decode_ack (\<lambda>n a. 4 * length (ranges a) \<le> n \<and> ack_ok a)"
  unfolding decode_ack_def
proof (rule eats_bind[OF eats_err[OF eats_prims(2)]])
  fix n :: nat and c :: u16 assume n: "n = 2"
  have c: "unat c < 2 ^ 16" using unsigned_less[of c, where 'a = nat] by simp
  show "eats (rd_bind (decode_ranges (unat c) []) (\<lambda>rs. rd_return \<lparr>ranges = rs\<rparr>))
    (\<lambda>k a. 4 * length (ranges a) \<le> n + k \<and> ack_ok a)"
    by (rule eats_bind[OF eats_decode_ranges], simp, rule eats_return)
      (use c in \<open>auto simp: ack_ok_def\<close>)
qed

text \<open>
  What any decoded datagram satisfies: a frame set accounts for every byte of the buffer,
  an acknowledgement holds at most a quarter as many ranges as the buffer holds bytes, and
  every number in it is 24-bit.
\<close>

fun decoded_within :: "nat \<Rightarrow> datagram \<Rightarrow> bool" where
  "decoded_within n (FrameSet fs) \<longleftrightarrow> is_u24 (fs_sequence fs)
     \<and> datagram_header_len + sum_list (map encoded_len (fs_frames fs)) = n
     \<and> list_all frame_wf (fs_frames fs)"
| "decoded_within n (Ack a) \<longleftrightarrow> 4 * length (ranges a) < n \<and> ack_ok a"
| "decoded_within n (Nack a) \<longleftrightarrow> 4 * length (ranges a) < n \<and> ack_ok a"

lemma decode_datagram_within:
  assumes "decode_datagram b = Inr d"
  shows "decoded_within (length b) d"
proof -
  obtain r9 where dec: "read_datagram (new_reader b) = (Inr d, r9)"
    using assms by (metis decode_datagram_def prod.collapse)
  then obtain flags r1 where fl: "read_u8 (new_reader b) = (Inr flags, r1)"
    and body: "(if flags AND flag_valid = 0 then rd_fail (NotConnected flags)
       else if flags AND flag_ack \<noteq> 0 then rd_bind decode_ack (\<lambda>a. rd_return (Ack a))
       else if flags AND flag_nack \<noteq> 0 then rd_bind decode_ack (\<lambda>a. rd_return (Nack a))
       else rd_bind (rd_err DatagramTruncated read_u24) (\<lambda>sequence.
         rd_bind (decode_frames []) (\<lambda>frames.
           rd_return (FrameSet \<lparr>fs_sequence = sequence, fs_frames = frames\<rparr>)))) r1 = (Inr d, r9)"
    unfolding read_datagram_def rd_bind_Inr[of "rd_err DatagramTruncated read_u8"] rd_err_Inr
    by blast
  have r1: "buf r1 = b" "pos r1 = 1" "1 \<le> length b"
    using read_prim_advanced(1)[OF fl] by (auto simp: advanced_def new_reader_def)
  have start: "pos r1 \<le> length (buf r1)" using r1 by simp
  have ack: "4 * length (ranges a) < length b \<and> ack_ok a" if "decode_ack r1 = (Inr a, r2)" for a r2
    using eatsD[OF eats_decode_ack that start] r1 by (auto simp: advanced_def)
  show ?thesis
  proof (cases "flags AND flag_ack \<noteq> 0 \<or> flags AND flag_nack \<noteq> 0")
    case True
    then show ?thesis using body ack by (auto simp: rd_Inr split: if_splits)
  next
    case False
    then obtain sq r2 fs where sq: "read_u24 r1 = (Inr sq, r2)"
      and fs: "decode_frames [] r2 = (Inr fs, r9)"
      and d: "d = FrameSet \<lparr>fs_sequence = sq, fs_frames = fs\<rparr>"
      using body by (auto simp: rd_Inr split: if_splits)
    have r2: "pos r2 = 4" "buf r2 = b" "4 \<le> length b"
      using read_prim_advanced(3)[OF sq] r1 by (auto simp: advanced_def)
    have "pos r2 \<le> length (buf r2)" using r2 by simp
    from decode_frames_bounds[OF fs this] r2 show ?thesis
      by (simp add: d read_u24_bound[OF sq] remaining_def datagram_header_len_def)
  qed
qed

lemma length_encode_frames: "length (fold encode_frame fs w) = length w + sum_list (map encoded_len fs)"
  by (induction fs arbitrary: w) (simp_all add: length_encode_frame)

lemma length_encode_frame_set:
  "length (encode_datagram (FrameSet fs) []) = datagram_header_len + sum_list (map encoded_len (fs_frames fs))"
  by (simp add: length_encode_frames writer_defs datagram_header_len_def)

section \<open>Properties\<close>

text \<open>C25: A datagram round trips: decoding what was encoded gives the datagram back, for every frame
  set of frames the format can carry (non-empty bodies of at most 8191 bytes, 24-bit counters) and
  every acknowledgement of fewer than 65536 ranges.\<close>

theorem datagram_round_trip:
  assumes "datagram_ok d" "length (encode_datagram d []) \<le> usize_max"
  shows "decode_datagram (encode_datagram d []) = Inr d"
  using assms by (rule decode_encode_datagram)

lemma datagram_round_trip_witness:
  "decode_datagram (encode_datagram (Nack \<lparr>ranges = [(1, 4), (9, 9)]\<rparr>) []) = Inr (Nack \<lparr>ranges = [(1, 4), (9, 9)]\<rparr>)"
proof (rule datagram_round_trip)
  show "datagram_ok (Nack \<lparr>ranges = [(1, 4), (9, 9)]\<rparr>)" by (simp add: ack_ok_def range_ok_def is_u24_def)
  show "length (encode_datagram (Nack \<lparr>ranges = [(1, 4), (9, 9)]\<rparr>) []) \<le> usize_max"
    by (simp add: encode_ack_def encode_range_def writer_defs usize_max_def)
qed

text \<open>C26: Decoding never builds more than it was given: a decoded frame set accounts for every byte
  of the datagram, its frames have non-empty bodies and 24-bit reliable, sequence and order
  indices, and an acknowledgement
  holds fewer ranges than a quarter of the bytes received.\<close>

theorem decoded_datagram_within_its_bytes:
  assumes "decode_datagram b = Inr d"
  shows "case d of
      FrameSet fs \<Rightarrow> is_u24 (fs_sequence fs)
        \<and> datagram_header_len + sum_list (map encoded_len (fs_frames fs)) = length b
        \<and> list_all (\<lambda>f. fr_payload f \<noteq> [] \<and> is_u24 (fr_reliable_index f)
             \<and> is_u24 (fr_sequence_index f) \<and> is_u24 (fr_order_index f)) (fs_frames fs)
    | Ack a \<Rightarrow> 4 * length (ranges a) < length b \<and> list_all (\<lambda>(x, y). is_u24 x \<and> is_u24 y) (ranges a)
    | Nack a \<Rightarrow> 4 * length (ranges a) < length b \<and> list_all (\<lambda>(x, y). is_u24 x \<and> is_u24 y) (ranges a)"
  using decode_datagram_within[OF assms]
  by (cases d) (auto simp: list_all_iff frame_wf_def header_wf_def ack_ok_def range_ok_def)

lemma decoded_datagram_within_its_bytes_witness:
  "\<exists>f. decode_datagram (encode_datagram (FrameSet \<lparr>fs_sequence = 3, fs_frames = [f]\<rparr>) []) = Inr (FrameSet \<lparr>fs_sequence = 3, fs_frames = [f]\<rparr>)
    \<and> is_u24 (fr_sequence_index f) \<and> fr_sequence_index f = 5
    \<and> length (encode_datagram (FrameSet \<lparr>fs_sequence = 3, fs_frames = [f]\<rparr>) []) = datagram_header_len + encoded_len f"
proof -
  let ?f = "(new_frame UnreliableSequenced [7])\<lparr>fr_sequence_index := 5, fr_order_index := 2\<rparr>"
  let ?d = "FrameSet \<lparr>fs_sequence = 3, fs_frames = [?f]\<rparr>"
  have "datagram_ok ?d" "length (encode_datagram ?d []) \<le> usize_max"
    by (simp_all add: length_encode_frame_set encoded_len_def is_ordered_def frame_ok_def new_frame_def is_u24_def max_frame_body_def
        datagram_header_len_def usize_max_def del: encode_datagram.simps)
  then have dec: "decode_datagram (encode_datagram ?d []) = Inr ?d" by (rule decode_encode_datagram)
  show ?thesis using decoded_datagram_within_its_bytes[OF dec] dec by (intro exI[of _ ?f]) simp
qed

end
