(* ===== verification/Split.thy ===== *)
theory Split
  imports Datagram Ordmap "HOL-Library.Multiset"
begin

text \<open>
  \<^verbatim>\<open>bedrock-raknet/src/split.rs\<close>: cutting a payload into fragments that fit a datagram, and
  putting fragments back together within the limits a session grants a peer.

  The counters \<^verbatim>\<open>buffered\<close> and \<^verbatim>\<open>bytes\<close> are natural numbers whose subtractions stop at zero
  where the code would overflow; the invariant \<open>reassembler_inv\<close> shows that no subtraction
  is ever short.
\<close>

section \<open>Splitting\<close>

text \<open>\<^verbatim>\<open>u16::MAX as usize / 8\<close>.\<close>

definition max_frame_payload :: nat where
  "max_frame_payload = 65535 div 8"

definition fragment_capacity :: "nat \<Rightarrow> nat" where
  "fragment_capacity payload_limit =
     min (payload_limit - datagram_header_len - header_len ReliableOrdered True) max_frame_payload"

record splitter =
  next_id :: u16

definition new_splitter :: splitter where
  "new_splitter = \<lparr>next_id = 0\<rparr>"

text \<open>\<^verbatim>\<open>slice::chunks\<close>, for a chunk size that is not zero.\<close>

function chunks :: "nat \<Rightarrow> 'a list \<Rightarrow> 'a list list" where
  "chunks n xs = (if n = 0 \<or> xs = [] then [] else take n xs # chunks n (drop n xs))"
  by pat_completeness auto
termination by (relation "measure (\<lambda>(n, xs). length xs)") auto

declare chunks.simps [simp del]

definition fragment :: "u32 \<Rightarrow> u16 \<Rightarrow> nat \<Rightarrow> bytes \<Rightarrow> frame" where
  "fragment cnt sid index chunk =
     \<lparr>fr_reliability = ReliableOrdered, fr_reliable_index = 0, fr_sequence_index = 0,
      fr_order_index = 0, fr_order_channel = 0,
      fr_split = Some \<lparr>split_count = cnt, split_id = sid, split_index = u32_or_max index\<rparr>,
      fr_payload = chunk\<rparr>"

definition splitter_split :: "bytes \<Rightarrow> nat \<Rightarrow> splitter \<Rightarrow> frame list \<times> splitter" where
  "splitter_split payload capacity s =
     (if capacity = 0 then ([], s)
      else if length payload \<le> capacity then ([new_frame ReliableOrdered payload], s)
      else
        let sid = next_id s;
            s = s\<lparr>next_id := next_id s + 1\<rparr>;
            cs = chunks capacity payload;
            count = u32_or_max (length cs)
        in (map (\<lambda>(index, chunk). fragment count sid index chunk) (enumerate 0 cs), s))"

section \<open>Reassembly\<close>

record limits =
  max_payload :: nat
  max_fragments :: u32
  max_pending :: nat
  split_timeout :: duration

definition default_limits :: limits where
  "default_limits = \<lparr>max_payload = 4 * 1024 * 1024, max_fragments = 4096, max_pending = 8,
     split_timeout = 10 * 10 ^ 9\<rparr>"

datatype split_error =
    Inconsistent u32 u32
  | TooManyFragments u32
  | PayloadTooLarge
  | TooManyPending
  | DuplicateIndex u32

record pending =
  pe_count :: u32
  pe_fragments :: "(u32, bytes) btree"
  pe_bytes :: nat
  pe_first_seen :: instant

record reassembler =
  ra_limits :: limits
  ra_pending :: "(u16, pending) btree"
  ra_buffered :: nat

definition new_reassembler :: "limits \<Rightarrow> reassembler" where
  "new_reassembler l = \<lparr>ra_limits = l, ra_pending = bt_new, ra_buffered = 0\<rparr>"

text \<open>
  \<^verbatim>\<open>now.duration_since(first_seen)\<close> saturates at zero, as the subtraction of instants here
  does.
\<close>

definition reassembler_expire :: "instant \<Rightarrow> reassembler \<Rightarrow> reassembler" where
  "reassembler_expire now r =
     (let alive = (\<lambda>entry. now - pe_first_seen entry < split_timeout (ra_limits r))
      in r\<lparr>ra_buffered := foldl (\<lambda>b entry. if alive entry then b else b - pe_bytes entry)
                           (ra_buffered r) (bt_values (ra_pending r)),
           ra_pending := bt_retain (\<lambda>_ entry. alive entry) (ra_pending r)\<rparr>)"

text \<open>The part of \<^verbatim>\<open>push\<close> behind the checks: the fragment goes in, a full entry comes out.\<close>

definition store_fragment :: "split \<Rightarrow> bytes \<Rightarrow> pending \<Rightarrow> reassembler
    \<Rightarrow> bytes option \<times> reassembler" where
  "store_fragment sp payload entry r =
     (let entry = entry\<lparr>pe_bytes := pe_bytes entry + length payload,
                        pe_fragments := bt_insert (split_index sp) payload (pe_fragments entry)\<rparr>;
          r = r\<lparr>ra_buffered := ra_buffered r + length payload,
                ra_pending := bt_insert (split_id sp) entry (ra_pending r)\<rparr>
      in if u32_or_max (bt_len (pe_fragments entry)) < pe_count entry then (None, r)
         else (case bt_get (ra_pending r) (split_id sp) of
                 None \<Rightarrow> (None, r)
               | Some entry \<Rightarrow>
                   (Some (concat (bt_values (pe_fragments entry))),
                    r\<lparr>ra_pending := bt_remove (split_id sp) (ra_pending r),
                      ra_buffered := ra_buffered r - pe_bytes entry\<rparr>)))"

definition reassembler_push :: "frame \<Rightarrow> instant \<Rightarrow> reassembler
    \<Rightarrow> (split_error + bytes option) \<times> reassembler" where
  "reassembler_push f now r =
     (case fr_split f of
        None \<Rightarrow> (Inr (Some (fr_payload f)), r)
      | Some sp \<Rightarrow>
          if split_count sp = 0 \<or> split_index sp \<ge> split_count sp
          then (Inl (Inconsistent (split_count sp) (split_index sp)), r)
          else if split_count sp > max_fragments (ra_limits r)
          then (Inl (TooManyFragments (split_count sp)), r)
          else
            let is_new = (bt_get (ra_pending r) (split_id sp) = None) in
            if is_new \<and> bt_len (ra_pending r) \<ge> max_pending (ra_limits r)
            then (Inl TooManyPending, r)
            else if ra_buffered r + length (fr_payload f) > max_payload (ra_limits r)
            then (Inl PayloadTooLarge, r)
            else
              let fresh = \<lparr>pe_count = split_count sp, pe_fragments = bt_new, pe_bytes = 0,
                           pe_first_seen = now\<rparr>;
                  entry = (case bt_get (ra_pending r) (split_id sp) of
                             None \<Rightarrow> fresh | Some entry \<Rightarrow> entry);
                  r = (if is_new then r\<lparr>ra_pending := bt_insert (split_id sp) fresh (ra_pending r)\<rparr>
                       else r)
              in if pe_count entry \<noteq> split_count sp
                 then (Inl (Inconsistent (split_count sp) (split_index sp)), r)
                 else if bt_get (pe_fragments entry) (split_index sp) \<noteq> None
                 then (Inl (DuplicateIndex (split_index sp)), r)
                 else (case store_fragment sp (fr_payload f) entry r of
                         (out, r) \<Rightarrow> (Inr out, r)))"

section \<open>Chunks\<close>

lemma chunks_nil [simp]: "chunks n [] = []" "chunks 0 xs = []"
  by (simp_all add: chunks.simps)

lemma chunks_step: "0 < n \<Longrightarrow> xs \<noteq> [] \<Longrightarrow> chunks n xs = take n xs # chunks n (drop n xs)"
  by (simp add: chunks.simps)

text \<open>Induction over the chunks.\<close>

lemma chunks_induct [consumes 1, case_names Nil Step]:
  assumes "0 < n" "P []" "\<And>xs. xs \<noteq> [] \<Longrightarrow> P (drop n xs) \<Longrightarrow> P xs"
  shows "P xs"
proof (induction xs rule: measure_induct_rule[of length])
  case (less xs)
  show ?case
  proof (cases "xs = []")
    case True
    then show ?thesis using assms(2) by simp
  next
    case False
    then have "length (drop n xs) < length xs" using assms(1) by (cases xs) simp_all
    then show ?thesis using less assms(3) False by blast
  qed
qed

lemma concat_chunks:
  assumes "0 < n"
  shows "concat (chunks n xs) = xs"
  using assms
proof (induction xs rule: chunks_induct)
  case (Step xs)
  then show ?case using assms by (simp add: chunks_step[of n xs])
qed simp

lemma chunk_sizes:
  assumes "0 < n"
  shows "\<forall>c \<in> set (chunks n xs). c \<noteq> [] \<and> length c \<le> n"
  using assms
proof (induction xs rule: chunks_induct)
  case (Step xs)
  then show ?case using assms by (simp add: chunks_step[of n xs])
qed simp

lemma length_chunks:
  assumes "0 < n"
  shows "length (chunks n xs) = div_ceil (length xs) n"
  using assms
proof (induction xs rule: chunks_induct)
  case Nil
  then show ?case using assms by (simp add: div_ceil_def)
next
  case (Step xs)
  then have step: "length (chunks n xs) = Suc (div_ceil (length xs - n) n)"
    using assms by (simp add: chunks_step[of n xs])
  show ?case
  proof (cases "length xs \<le> n")
    case True
    have pos: "0 < length xs" using Step(1) by simp
    have sum: "length xs + n - 1 = (length xs - 1) + n" using pos by linarith
    have less: "length xs - 1 < n" using pos True by linarith
    have "div_ceil (length xs) n = Suc ((length xs - 1) div n)"
      using assms by (simp only: div_ceil_def sum div_add_self2)
    then show ?thesis using step True assms less by (simp add: div_ceil_def)
  next
    case False
    then have sum: "length xs + n - 1 = (length xs - n + n - 1) + n" by linarith
    have "div_ceil (length xs) n = Suc (div_ceil (length xs - n) n)"
      using assms by (simp only: div_ceil_def sum div_add_self2)
    then show ?thesis using step by simp
  qed
qed

lemma length_chunks_gt:
  assumes "0 < n" "n < length xs"
  shows "1 < length (chunks n xs)"
proof -
  have "xs \<noteq> []" "drop n xs \<noteq> []" using assms by auto
  then show ?thesis using assms(1) by (simp add: chunks_step)
qed

section \<open>What splitting produces\<close>

lemma splitter_split_frames:
  assumes "0 < capacity" "capacity < length payload"
  shows "splitter_split payload capacity s =
    (map (\<lambda>i. fragment (u32_or_max (length (chunks capacity payload))) (next_id s) i
            (chunks capacity payload ! i)) [0..<length (chunks capacity payload)],
     s\<lparr>next_id := next_id s + 1\<rparr>)"
proof -
  have "map (\<lambda>(i, c). g i c) (enumerate 0 cs) = map (\<lambda>i. g i (cs ! i)) [0..<length cs]"
    for g :: "nat \<Rightarrow> bytes \<Rightarrow> frame" and cs
    by (rule nth_equalityI) (simp_all add: nth_enumerate_eq)
  then show ?thesis using assms by (simp add: splitter_split_def Let_def)
qed

lemma split_frame_cases:
  assumes "f \<in> set (fst (splitter_split payload capacity s))"
  shows "fr_reliability f = ReliableOrdered \<and> fr_sequence_index f = 0
    \<and> length (fr_payload f) \<le> capacity \<and> (payload \<noteq> [] \<longrightarrow> fr_payload f \<noteq> [])"
proof (cases "0 < capacity \<and> capacity < length payload")
  case True
  then obtain i where "i < length (chunks capacity payload)"
    "f = fragment (u32_or_max (length (chunks capacity payload))) (next_id s) i
           (chunks capacity payload ! i)"
    using assms by (auto simp: splitter_split_frames)
  then show ?thesis
    using True chunk_sizes[of capacity payload] by (simp add: fragment_def)
next
  case False
  then show ?thesis
    using assms by (auto simp: splitter_split_def new_frame_def split: if_splits)
qed

text \<open>A fragment cut for a datagram fits it.\<close>

lemma split_frame_fits:
  assumes "f \<in> set (fst (splitter_split payload (fragment_capacity limit) s))"
  shows "datagram_header_len + encoded_len f \<le> limit"
proof -
  have cap: "0 < fragment_capacity limit"
    using assms by (cases "fragment_capacity limit = 0") (simp_all add: splitter_split_def)
  have "encoded_len f \<le> header_len ReliableOrdered True + length (fr_payload f)"
    using split_frame_cases[OF assms] by (simp add: encoded_len_def header_len_def)
  moreover have "length (fr_payload f) \<le> fragment_capacity limit"
    using split_frame_cases[OF assms] by simp
  ultimately show ?thesis using cap unfolding fragment_capacity_def by linarith
qed

section \<open>The invariant of the reassembler\<close>

text \<open>
  An open entry is sized against the limits, accounts for its bytes, holds indices below
  its count, at least one of them and never all.
\<close>

definition pending_inv :: "limits \<Rightarrow> pending \<Rightarrow> bool" where
  "pending_inv l e \<longleftrightarrow> bt_ok (pe_fragments e)
     \<and> pe_bytes e = sum_list (map length (bt_values (pe_fragments e)))
     \<and> (\<forall>k \<in> dom (bt_get (pe_fragments e)). k < pe_count e)
     \<and> 0 < bt_len (pe_fragments e) \<and> bt_len (pe_fragments e) < unat (pe_count e)
     \<and> pe_count e \<le> max_fragments l"

definition held_bytes :: "(u16, pending) btree \<Rightarrow> nat" where
  "held_bytes m = sum_list (map (\<lambda>(k, e). pe_bytes e) (bt_entries m))"

definition reassembler_inv :: "reassembler \<Rightarrow> bool" where
  "reassembler_inv r \<longleftrightarrow> bt_ok (ra_pending r)
     \<and> ra_buffered r = held_bytes (ra_pending r)
     \<and> ra_buffered r \<le> max_payload (ra_limits r)
     \<and> bt_len (ra_pending r) \<le> max_pending (ra_limits r)
     \<and> (\<forall>k e. bt_get (ra_pending r) k = Some e \<longrightarrow> pending_inv (ra_limits r) e)"

lemma reassembler_inv_new: "reassembler_inv (new_reassembler l)"
  by (simp add: reassembler_inv_def new_reassembler_def held_bytes_def)
    (simp add: bt_new_def bt_entries_def)

lemma held_bytes_insert_fresh:
  "bt_ok m \<Longrightarrow> bt_get m k = None \<Longrightarrow> held_bytes (bt_insert k e m) = pe_bytes e + held_bytes m"
  using bt.sum_ins_fresh[of m k "\<lambda>(k, e). pe_bytes e"] by (simp add: held_bytes_def)

lemma held_bytes_insert_present:
  "bt_ok m \<Longrightarrow> bt_get m k = Some u \<Longrightarrow>
     held_bytes (bt_insert k e m) + pe_bytes u = pe_bytes e + held_bytes m"
  using bt.sum_ins_present[of m k u "\<lambda>(k, e). pe_bytes e"] by (simp add: held_bytes_def)

lemma held_bytes_remove:
  "bt_ok m \<Longrightarrow> bt_get m k = Some e \<Longrightarrow> held_bytes m = pe_bytes e + held_bytes (bt_remove k m)"
  using bt.sum_del[of m k e "\<lambda>(k, e). pe_bytes e"] by (simp add: held_bytes_def)

lemma pending_bytes_le:
  assumes "reassembler_inv r" "bt_get (ra_pending r) k = Some e"
  shows "pe_bytes e \<le> ra_buffered r"
  using assms held_bytes_remove[of "ra_pending r" k e] by (simp add: reassembler_inv_def)

lemma bytes_insert_fresh:
  fixes m :: "(u32, bytes) btree"
  assumes "bt_ok m" "bt_get m k = None"
  shows "sum_list (map length (bt_values (bt_insert k p m)))
    = length p + sum_list (map length (bt_values m))"
  using bt.sum_ins_fresh[OF assms, of "\<lambda>(k, p). length p" p]
  by (simp add: bt_entries_def bt_values_def comp_def case_prod_unfold)

section \<open>What a push does\<close>

definition entry_of :: "split \<Rightarrow> instant \<Rightarrow> reassembler \<Rightarrow> pending" where
  "entry_of sp now r =
     (case bt_get (ra_pending r) (split_id sp) of
        None \<Rightarrow> \<lparr>pe_count = split_count sp, pe_fragments = bt_new, pe_bytes = 0, pe_first_seen = now\<rparr>
      | Some e \<Rightarrow> e)"

definition grown :: "split \<Rightarrow> bytes \<Rightarrow> pending \<Rightarrow> pending" where
  "grown sp p e = e\<lparr>pe_bytes := pe_bytes e + length p,
     pe_fragments := bt_insert (split_index sp) p (pe_fragments e)\<rparr>"

text \<open>The checks of \<^verbatim>\<open>push\<close>, all passed.\<close>

definition admits :: "split \<Rightarrow> bytes \<Rightarrow> instant \<Rightarrow> reassembler \<Rightarrow> bool" where
  "admits sp p now r \<longleftrightarrow> split_index sp < split_count sp \<and> split_count sp \<le> max_fragments (ra_limits r)
     \<and> (bt_get (ra_pending r) (split_id sp) = None \<longrightarrow>
          bt_len (ra_pending r) < max_pending (ra_limits r))
     \<and> ra_buffered r + length p \<le> max_payload (ra_limits r)
     \<and> pe_count (entry_of sp now r) = split_count sp
     \<and> bt_get (pe_fragments (entry_of sp now r)) (split_index sp) = None"

lemma u32_or_max_less: "u32_or_max n < c \<longleftrightarrow> n < unat c"
proof (cases "n < 2 ^ 32")
  case True
  then show ?thesis by (simp add: word_less_nat_alt unat_u32_or_max)
next
  case False
  moreover have "unat c < 2 ^ 32" by (rule unat_lt_32)
  ultimately show ?thesis by (simp add: u32_or_max_def word_order.extremum_strict)
qed

lemma index_below_count: "i < c \<Longrightarrow> c \<noteq> (0 :: u32)"
  by (auto simp: word_less_nat_alt)

lemma push_refused:
  assumes inv: "reassembler_inv r" and sp: "fr_split f = Some sp"
    and no: "\<not> admits sp (fr_payload f) now r"
  shows "\<exists>e. reassembler_push f now r = (Inl e, r)"
proof (cases "bt_get (ra_pending r) (split_id sp)")
  case None
  then show ?thesis
    using no sp by (auto simp: reassembler_push_def admits_def entry_of_def not_less not_le)
next
  case (Some e)
  then show ?thesis
    using no sp by (auto simp: reassembler_push_def admits_def entry_of_def not_less not_le)
qed

lemma push_admitted:
  assumes inv: "reassembler_inv r" and sp: "fr_split f = Some sp"
    and yes: "admits sp (fr_payload f) now r"
  defines "e \<equiv> grown sp (fr_payload f) (entry_of sp now r)"
  shows "reassembler_push f now r =
    (if bt_len (pe_fragments e) < unat (split_count sp)
     then (Inr None, r\<lparr>ra_pending := bt_insert (split_id sp) e (ra_pending r),
                       ra_buffered := ra_buffered r + length (fr_payload f)\<rparr>)
     else (Inr (Some (concat (bt_values (pe_fragments e)))),
           r\<lparr>ra_pending := bt_remove (split_id sp) (ra_pending r),
             ra_buffered := ra_buffered r - pe_bytes (entry_of sp now r)\<rparr>))"
proof -
  have ok: "bt_ok (ra_pending r)" using inv by (simp add: reassembler_inv_def)
  have cnt: "pe_count e = split_count sp" using yes by (simp add: e_def grown_def admits_def)
  let ?r1 = "r\<lparr>ra_buffered := ra_buffered r + length (fr_payload f),
               ra_pending := bt_insert (split_id sp) e (ra_pending r)\<rparr>"
  have store: "store_fragment sp (fr_payload f) (entry_of sp now r) r' =
    (if bt_len (pe_fragments e) < unat (split_count sp) then (None, ?r1)
     else (Some (concat (bt_values (pe_fragments e))),
           r\<lparr>ra_pending := bt_remove (split_id sp) (ra_pending r),
             ra_buffered := ra_buffered r - pe_bytes (entry_of sp now r)\<rparr>))"
    if "r' = r \<or> r' = r\<lparr>ra_pending := bt_insert (split_id sp) u (ra_pending r)\<rparr>" for r' u
  proof -
    have r1: "r'\<lparr>ra_buffered := ra_buffered r' + length (fr_payload f),
        ra_pending := bt_insert (split_id sp) e (ra_pending r')\<rparr> = ?r1"
      using that by (auto simp: bt_insert_twice)
    have bytes: "pe_bytes e = pe_bytes (entry_of sp now r) + length (fr_payload f)"
      by (simp add: e_def grown_def)
    have get: "bt_get (bt_insert (split_id sp) e (ra_pending r)) (split_id sp) = Some e"
      using ok by (simp add: bt.get_ins)
    show ?thesis
      unfolding store_fragment_def grown_def[symmetric] e_def[symmetric] Let_def r1
      using ok by (simp add: u32_or_max_less cnt get bytes bt_remove_insert)
  qed
  have checks: "split_count sp \<noteq> 0" "\<not> split_count sp \<le> split_index sp"
    "\<not> max_fragments (ra_limits r) < split_count sp"
    "\<not> max_payload (ra_limits r) < ra_buffered r + length (fr_payload f)"
    using yes index_below_count by (auto simp: admits_def not_le)
  show ?thesis
  proof (cases "bt_get (ra_pending r) (split_id sp)")
    case None
    then have fresh: "entry_of sp now r = \<lparr>pe_count = split_count sp, pe_fragments = bt_new,
        pe_bytes = 0, pe_first_seen = now\<rparr>" by (simp add: entry_of_def)
    have "\<not> max_pending (ra_limits r) \<le> bt_len (ra_pending r)"
      using yes None by (simp add: admits_def)
    then show ?thesis
      using store[of "r\<lparr>ra_pending := bt_insert (split_id sp) (entry_of sp now r) (ra_pending r)\<rparr>"
          "entry_of sp now r"] None sp checks
      by (simp add: reassembler_push_def Let_def fresh)
  next
    case (Some u)
    then have u: "entry_of sp now r = u" by (simp add: entry_of_def)
    show ?thesis
      using store[of r u] Some sp checks yes
      by (simp add: reassembler_push_def Let_def u admits_def)
  qed
qed

lemma entry_of_facts:
  assumes inv: "reassembler_inv r"
  shows "bt_ok (pe_fragments (entry_of sp now r))"
    and "pe_bytes (entry_of sp now r) = sum_list (map length (bt_values (pe_fragments (entry_of sp now r))))"
    and "pe_bytes (entry_of sp now r) \<le> ra_buffered r"
    and "pe_count (entry_of sp now r) = split_count sp \<Longrightarrow>
      k \<in> dom (bt_get (pe_fragments (entry_of sp now r))) \<Longrightarrow> k < split_count sp"
proof -
  consider "bt_get (ra_pending r) (split_id sp) = None"
    | e where "bt_get (ra_pending r) (split_id sp) = Some e" by fastforce
  note cases = this
  have P: "bt_ok (pe_fragments (entry_of sp now r)) \<and>
    pe_bytes (entry_of sp now r) = sum_list (map length (bt_values (pe_fragments (entry_of sp now r)))) \<and>
    pe_bytes (entry_of sp now r) \<le> ra_buffered r \<and>
    (\<forall>k \<in> dom (bt_get (pe_fragments (entry_of sp now r))). k < pe_count (entry_of sp now r))"
  proof (cases rule: cases)
    case 1
    then show ?thesis by (simp add: entry_of_def)
  next
    case (2 e)
    then have e: "entry_of sp now r = e" "pending_inv (ra_limits r) e"
      using inv by (simp_all add: entry_of_def reassembler_inv_def)
    then show ?thesis
      using pending_bytes_le[OF inv 2] by (simp add: pending_inv_def)
  qed
  then show "bt_ok (pe_fragments (entry_of sp now r))"
    and "pe_bytes (entry_of sp now r) = sum_list (map length (bt_values (pe_fragments (entry_of sp now r))))"
    and "pe_bytes (entry_of sp now r) \<le> ra_buffered r" by blast+
  show "k < split_count sp"
    if "pe_count (entry_of sp now r) = split_count sp"
      "k \<in> dom (bt_get (pe_fragments (entry_of sp now r)))"
    using P that by metis
qed

text \<open>A push keeps the invariant, whatever the fragment says.\<close>

lemma grown_fragments:
  assumes inv: "reassembler_inv r" and yes: "admits sp p now r"
  defines "e \<equiv> grown sp p (entry_of sp now r)"
  shows "bt_ok (pe_fragments e)" "pe_count e = split_count sp"
    "bt_get (pe_fragments e) = (bt_get (pe_fragments (entry_of sp now r)))(split_index sp \<mapsto> p)"
    "pe_bytes e = sum_list (map length (bt_values (pe_fragments e)))"
    "pe_bytes e = length p + pe_bytes (entry_of sp now r)"
    "\<forall>k \<in> dom (bt_get (pe_fragments e)). k < split_count sp"
    "bt_len (pe_fragments e) = Suc (bt_len (pe_fragments (entry_of sp now r)))"
proof -
  note ef = entry_of_facts[OF inv, where sp = sp and now = now]
  have fresh: "bt_get (pe_fragments (entry_of sp now r)) (split_index sp) = None"
    and cnt: "pe_count (entry_of sp now r) = split_count sp" "split_index sp < split_count sp"
    using yes by (simp_all add: admits_def)
  show "bt_ok (pe_fragments e)" using ef(1) by (simp add: e_def grown_def bt.invar_ins)
  show "pe_count e = split_count sp" using cnt by (simp add: e_def grown_def)
  show get: "bt_get (pe_fragments e)
      = (bt_get (pe_fragments (entry_of sp now r)))(split_index sp \<mapsto> p)"
    using ef(1) by (simp add: e_def grown_def bt.get_ins)
  show "pe_bytes e = length p + pe_bytes (entry_of sp now r)" by (simp add: e_def grown_def)
  then show "pe_bytes e = sum_list (map length (bt_values (pe_fragments e)))"
    using ef(2) bytes_insert_fresh[OF ef(1) fresh, of p] by (simp add: e_def grown_def)
  show "bt_len (pe_fragments e) = Suc (bt_len (pe_fragments (entry_of sp now r)))"
    using ef(1) fresh by (simp add: e_def grown_def bt_len_insert)
  show "\<forall>k \<in> dom (bt_get (pe_fragments e)). k < split_count sp"
    using ef(4)[OF cnt(1)] cnt(2) get by (auto split: if_splits)
qed

lemma reassembler_inv_push:
  assumes inv: "reassembler_inv r"
  shows "reassembler_inv (snd (reassembler_push f now r))
    \<and> ra_limits (snd (reassembler_push f now r)) = ra_limits r"
proof (cases "fr_split f")
  case None
  then show ?thesis using inv by (simp add: reassembler_push_def)
next
  case (Some sp)
  let ?p = "fr_payload f" let ?id = "split_id sp" let ?m = "ra_pending r"
  show ?thesis
  proof (cases "admits sp ?p now r")
    case False
    then show ?thesis using push_refused[OF inv Some] inv by force
  next
    case yes: True
    define e where "e = grown sp ?p (entry_of sp now r)"
    note g = grown_fragments[OF inv yes, folded e_def]
    have ok: "bt_ok ?m" "ra_buffered r = held_bytes ?m" using inv by (simp_all add: reassembler_inv_def)
    have held: "held_bytes (bt_insert ?id e ?m) = ra_buffered r + length ?p"
    proof (cases "bt_get ?m ?id")
      case None
      then show ?thesis using held_bytes_insert_fresh[OF ok(1) None, of e] g(5) ok(2)
        by (simp add: entry_of_def)
    next
      case (Some u)
      then show ?thesis using held_bytes_insert_present[OF ok(1) Some, of e] g(5) ok(2)
        by (simp add: entry_of_def)
    qed
    show ?thesis
    proof (cases "bt_len (pe_fragments e) < unat (split_count sp)")
      case True
      have "pending_inv (ra_limits r) e"
        using g True yes by (simp add: pending_inv_def admits_def)
      moreover have "bt_len (bt_insert ?id e ?m) \<le> max_pending (ra_limits r)"
        using yes inv by (auto simp: bt_len_insert[OF ok(1)] admits_def reassembler_inv_def)
      moreover have "ra_buffered r + length ?p \<le> max_payload (ra_limits r)"
        using yes by (simp add: admits_def)
      ultimately show ?thesis
        using push_admitted[OF inv Some yes, folded e_def] True ok held inv
        by (simp add: reassembler_inv_def bt.invar_ins bt.get_ins)
    next
      case False
      have held': "held_bytes (bt_remove ?id ?m) = ra_buffered r - pe_bytes (entry_of sp now r)"
      proof (cases "bt_get ?m ?id")
        case None
        then show ?thesis using ok by (simp add: entry_of_def bt_remove_absent)
      next
        case (Some u)
        then show ?thesis using held_bytes_remove[OF ok(1) Some] ok(2) by (simp add: entry_of_def)
      qed
      moreover have "bt_len (bt_remove ?id ?m) \<le> max_pending (ra_limits r)"
        using inv by (auto simp: bt_len_remove[OF ok(1)] reassembler_inv_def)
      moreover have "ra_buffered r - pe_bytes (entry_of sp now r) \<le> max_payload (ra_limits r)"
        using inv unfolding reassembler_inv_def by linarith
      ultimately show ?thesis
        using push_admitted[OF inv Some yes, folded e_def] False ok inv
        by (simp add: reassembler_inv_def bt.invar_del bt.get_del)
    qed
  qed
qed

text \<open>Expiry gives back exactly the bytes of what it drops.\<close>

lemma expire_buffered:
  "foldl (\<lambda>b e. if alive e then b else b - pe_bytes e)
      (c + sum_list (map (\<lambda>(k, e). pe_bytes e) m)) (map snd m)
    = c + sum_list (map (\<lambda>(k, e). pe_bytes e) (filter (\<lambda>(k, e). alive e) m))"
proof (induction m arbitrary: c)
  case (Cons x m)
  obtain k e where x: "x = (k, e)" by fastforce
  show ?case
    using Cons[of "c + pe_bytes e"] Cons[of c] by (simp add: x add.assoc add.left_commute)
qed simp

lemma expire_pending_get:
  assumes "reassembler_inv r"
  shows "bt_get (ra_pending (reassembler_expire now r)) k =
    (case bt_get (ra_pending r) k of
       None \<Rightarrow> None
     | Some e \<Rightarrow> if now - pe_first_seen e < split_timeout (ra_limits r) then Some e else None)"
  using assms by (simp add: reassembler_expire_def reassembler_inv_def bt_get_retain Let_def)

lemma reassembler_inv_expire:
  assumes inv: "reassembler_inv r"
  shows "reassembler_inv (reassembler_expire now r)
    \<and> ra_limits (reassembler_expire now r) = ra_limits r"
proof -
  let ?alive = "\<lambda>entry :: pending. now - pe_first_seen entry < split_timeout (ra_limits r)"
  let ?r = "reassembler_expire now r"
  have ok: "bt_ok (ra_pending r)" and buf: "ra_buffered r = held_bytes (ra_pending r)"
    using inv by (simp_all add: reassembler_inv_def)
  have held: "ra_buffered ?r = held_bytes (ra_pending ?r)"
    using expire_buffered[where m = "ra_pending r" and alive = ?alive and c = 0] buf
    by (simp add: reassembler_expire_def Let_def held_bytes_def bt_entries_def bt_values_def bt_retain_def)
  have "held_bytes (ra_pending ?r) \<le> held_bytes (ra_pending r)"
    by (simp add: reassembler_expire_def Let_def held_bytes_def bt_entries_def bt_retain_def
        sum_list_filter_le_nat)
  then have "ra_buffered ?r \<le> max_payload (ra_limits r)"
    using held buf inv by (simp add: reassembler_inv_def)
  moreover have "bt_len (ra_pending ?r) \<le> max_pending (ra_limits r)"
    using inv bt_retain_le[of "\<lambda>_. ?alive" "ra_pending r"]
    by (simp add: reassembler_expire_def Let_def reassembler_inv_def bt_len_def)
  moreover have "bt_ok (ra_pending ?r)" "ra_limits ?r = ra_limits r"
    using ok by (simp_all add: reassembler_expire_def Let_def bt_ok_retain)
  moreover have "pending_inv (ra_limits r) e" if "bt_get (ra_pending ?r) k = Some e" for k e
    using that expire_pending_get[OF inv, of now k] inv
    by (auto simp: reassembler_inv_def split: option.splits if_splits)
  ultimately show ?thesis using held by (simp add: reassembler_inv_def)
qed

section \<open>Fragments in any order\<close>

text \<open>Feeding a sequence of frames, each at its own time.\<close>

fun push_frames :: "(frame \<times> instant) list \<Rightarrow> reassembler
    \<Rightarrow> (split_error + bytes option) list \<times> reassembler" where
  "push_frames [] r = ([], r)"
| "push_frames ((f, now) # fs) r =
     (case reassembler_push f now r of (out, r') \<Rightarrow>
      (case push_frames fs r' of (outs, r'') \<Rightarrow> (out # outs, r'')))"

text \<open>
  \<open>collected r0 sid cs S r\<close>: since \<open>r0\<close>, which knew nothing of \<open>sid\<close>, the fragments with index in
  \<open>S\<close> of the chunks \<open>cs\<close> have arrived and nothing else changed.
\<close>

definition collected :: "reassembler \<Rightarrow> u16 \<Rightarrow> bytes list \<Rightarrow> nat set \<Rightarrow> reassembler \<Rightarrow> bool" where
  "collected r0 sid cs S r \<longleftrightarrow> reassembler_inv r \<and> ra_limits r = ra_limits r0
     \<and> bt_remove sid (ra_pending r) = ra_pending r0
     \<and> (bt_get (ra_pending r) sid = None \<longrightarrow> bt_len (ra_pending r) < max_pending (ra_limits r))
     \<and> ra_buffered r = ra_buffered r0 + (\<Sum>i \<in> S. length (cs ! i))
     \<and> (\<forall>sp now. split_id sp = sid \<longrightarrow> split_count sp = u32_or_max (length cs) \<longrightarrow>
          pe_count (entry_of sp now r) = u32_or_max (length cs)
          \<and> bt_get (pe_fragments (entry_of sp now r))
              = (\<lambda>k. if unat k \<in> S then Some (cs ! unat k) else None)
          \<and> bt_len (pe_fragments (entry_of sp now r)) = card S
          \<and> pe_bytes (entry_of sp now r) = (\<Sum>i \<in> S. length (cs ! i)))"

lemma collected_start:
  assumes "reassembler_inv r0" "bt_get (ra_pending r0) sid = None"
    "bt_len (ra_pending r0) < max_pending (ra_limits r0)"
  shows "collected r0 sid cs {} r0"
  using assms by (simp add: collected_def entry_of_def fun_eq_iff reassembler_inv_def bt_remove_absent)

lemma sum_lengths_le:
  assumes "i \<notin> S" "S \<subseteq> {..<length cs}" "i < length cs"
  shows "(\<Sum>j \<in> S. length (cs ! j)) + length (cs ! i) \<le> length (concat cs)"
proof -
  have "(\<Sum>j \<in> S. length (cs ! j)) + length (cs ! i) = (\<Sum>j \<in> insert i S. length (cs ! j))"
    using assms finite_subset[OF assms(2)] by simp
  also have "\<dots> \<le> (\<Sum>j < length cs. length (cs ! j))"
    using assms by (intro sum_mono2) auto
  also have "\<dots> = length (concat cs)"
    by (simp add: length_concat sum_list_sum_nth atLeast0LessThan)
  finally show ?thesis .
qed

lemma collected_push:
  assumes col: "collected r0 sid cs S r" and i: "i \<notin> S" "S \<subseteq> {..<length cs}" "i < length cs"
    and small: "length cs \<le> unat (max_fragments (ra_limits r0))"
    and room: "ra_buffered r0 + length (concat cs) \<le> max_payload (ra_limits r0)"
  defines "f \<equiv> fragment (u32_or_max (length cs)) sid i (cs ! i)"
  shows "if Suc (card S) < length cs
    then \<exists>r'. reassembler_push f now r = (Inr None, r') \<and> collected r0 sid cs (insert i S) r'
    else reassembler_push f now r = (Inr (Some (concat cs)), r0)"
proof -
  let ?N = "u32_or_max (length cs)"
  define sp where "sp = \<lparr>split_count = ?N, split_id = sid, split_index = u32_or_max i\<rparr>"
  have spf: "fr_split f = Some sp" "fr_payload f = cs ! i"
    by (simp_all add: f_def fragment_def sp_def)
  have spix: "split_index sp = u32_or_max i" by (simp add: sp_def)
  have lim: "length cs < 2 ^ 32"
    using small unat_lt_32[of "max_fragments (ra_limits r0)"] by linarith
  have N: "unat ?N = length cs" using lim by (rule unat_u32_or_max)
  have ix: "unat (u32_or_max i) = i" using lim i(3) by (simp add: unat_u32_or_max)
  have inv: "reassembler_inv r" and lims: "ra_limits r = ra_limits r0"
    and pend: "bt_remove sid (ra_pending r) = ra_pending r0"
    and buf: "ra_buffered r = ra_buffered r0 + (\<Sum>j \<in> S. length (cs ! j))"
    using col by (simp_all add: collected_def)
  have ent: "pe_count (entry_of sp now r) = ?N"
    "bt_get (pe_fragments (entry_of sp now r)) = (\<lambda>k. if unat k \<in> S then Some (cs ! unat k) else None)"
    "bt_len (pe_fragments (entry_of sp now r)) = card S"
    "pe_bytes (entry_of sp now r) = (\<Sum>j \<in> S. length (cs ! j))"
    using col by (simp_all add: collected_def sp_def)
  have fin: "finite S" using i(2) finite_subset by blast
  have "ra_buffered r + length (cs ! i) \<le> max_payload (ra_limits r)"
    using room sum_lengths_le[OF i] buf lims by simp
  moreover have "bt_get (ra_pending r) sid = None \<longrightarrow> bt_len (ra_pending r) < max_pending (ra_limits r)"
    using col unfolding collected_def by blast
  ultimately have yes: "admits sp (fr_payload f) now r"
    using ent i small N ix
    by (simp add: admits_def sp_def spf word_less_nat_alt word_le_nat_alt lims)
  define e where "e = grown sp (fr_payload f) (entry_of sp now r)"
  note g = grown_fragments[OF inv yes, folded e_def]
  have get: "bt_get (pe_fragments e) = (\<lambda>k. if unat k \<in> insert i S then Some (cs ! unat k) else None)"
    using ix spix unfolding g(3) ent(2) spf(2) by (auto simp: fun_eq_iff word_unat_eq_iff)
  have len: "bt_len (pe_fragments e) = Suc (card S)" using g(7) ent(3) by simp
  note push = push_admitted[OF inv spf(1) yes, folded e_def]
  have sp_simps: "split_count sp = ?N" "split_id sp = sid" by (simp_all add: sp_def)
  have ok: "bt_ok (ra_pending r)" using inv by (simp add: reassembler_inv_def)
  show ?thesis
  proof (cases "Suc (card S) < length cs")
    case True
    let ?r = "r\<lparr>ra_pending := bt_insert sid e (ra_pending r),
        ra_buffered := ra_buffered r + length (cs ! i)\<rparr>"
    have pushed: "reassembler_push f now r = (Inr None, ?r)"
      using push True len N by (simp add: sp_simps spf)
    have "reassembler_inv ?r" using reassembler_inv_push[OF inv, of f now] pushed by simp
    moreover have "entry_of sp' now' ?r = e" if "split_id sp' = sid" for sp' now'
      using that ok by (simp add: entry_of_def bt.get_ins)
    moreover have "pe_count e = ?N" using g(2) by (simp add: sp_simps)
    moreover have "pe_bytes e = (\<Sum>j \<in> insert i S. length (cs ! j))"
      using g(5) ent(4) i(1) fin by (simp add: spf)
    ultimately have "collected r0 sid cs (insert i S) ?r"
      using get len lims pend buf ok i(1) fin
      by (simp add: collected_def bt_remove_insert bt.get_ins)
    with pushed True show ?thesis by auto
  next
    case False
    have "card S \<le> length cs - 1"
      using card_mono[of "{..<length cs} - {i}" S] i by fastforce
    then have full: "Suc (card S) = length cs" using False i(3) by linarith
    have "insert i S \<subseteq> {..<length cs}" "card (insert i S) = card {..<length cs}"
      using i fin full by auto
    then have all: "insert i S = {..<length cs}" by (metis card_subset_eq finite_lessThan)
    have "bt_get (pe_fragments e) (of_nat j) = Some (cs ! j)" if "j < length cs" for j
      using that lim unfolding get all by (simp add: unat_of_nat_small)
    then have "bt_values (pe_fragments e) = map (\<lambda>j. cs ! j) [0..<length cs]"
      using bt_dense_values[OF g(1) lim, of "\<lambda>j. cs ! j"] len full by simp
    then have vals: "bt_values (pe_fragments e) = cs" by (simp add: map_nth)
    have "r\<lparr>ra_pending := ra_pending r0, ra_buffered := ra_buffered r0\<rparr> = r0"
      using lims by (cases r; cases r0) simp
    then have "reassembler_push f now r = (Inr (Some (concat cs)), r0)"
      using push False len N vals pend buf ent(4) by (simp add: sp_simps)
    with False show ?thesis by simp
  qed
qed

lemma collected_push_all:
  assumes "collected r0 sid cs S r" "S \<union> set is = {..<length cs}" "set is \<inter> S = {}" "distinct is"
    and "is \<noteq> []" "length ts = length is"
    and "length cs \<le> unat (max_fragments (ra_limits r0))"
    and "ra_buffered r0 + length (concat cs) \<le> max_payload (ra_limits r0)"
  shows "push_frames (zip (map (\<lambda>i. fragment (u32_or_max (length cs)) sid i (cs ! i)) is) ts) r
    = (replicate (length is - 1) (Inr None) @ [Inr (Some (concat cs))], r0)"
  using assms(1-6)
proof (induction "is" arbitrary: S r ts)
  case Nil
  then show ?case by simp
next
  case (Cons i js)
  obtain t ts' where ts: "ts = t # ts'" using Cons.prems(6) by (cases ts) auto
  have i: "i \<notin> S" "S \<subseteq> {..<length cs}" "i < length cs" using Cons.prems(2,3) by auto
  note step = collected_push[OF Cons.prems(1) i assms(7,8), of t]
  have fin: "finite S" using i(2) finite_subset by blast
  have "card (S \<union> set (i # js)) = length cs" using Cons.prems(2) by simp
  then have card: "card S + Suc (length js) = length cs"
    using Cons.prems(3,4) fin by (subst (asm) card_Un_disjoint) (auto simp: distinct_card)
  show ?case
  proof (cases js)
    case Nil
    then show ?thesis using step card by (simp add: ts)
  next
    case (Cons k ks)
    then have "Suc (card S) < length cs" using card by simp
    then obtain r' where push: "reassembler_push
        (fragment (u32_or_max (length cs)) sid i (cs ! i)) t r = (Inr None, r')"
      and col: "collected r0 sid cs (insert i S) r'" using step by auto
    have "push_frames (zip (map (\<lambda>i. fragment (u32_or_max (length cs)) sid i (cs ! i)) js) ts') r'
        = (replicate (length js - 1) (Inr None) @ [Inr (Some (concat cs))], r0)"
      using Cons.IH[OF col] Cons.prems Cons by (auto simp: ts)
    then show ?thesis using push Cons by (simp add: ts)
  qed
qed

section \<open>A whole run\<close>

datatype reassembly_event =
    Fragment frame instant
  | Expire instant

fun reassembly_step :: "reassembly_event \<Rightarrow> reassembler \<Rightarrow> reassembler" where
  "reassembly_step (Fragment f now) r = snd (reassembler_push f now r)"
| "reassembly_step (Expire now) r = reassembler_expire now r"

lemma reassembler_inv_run:
  assumes "reassembler_inv r"
  shows "reassembler_inv (fold reassembly_step evs r)
    \<and> ra_limits (fold reassembly_step evs r) = ra_limits r"
  using assms
proof (induction evs arbitrary: r)
  case (Cons ev evs)
  then show ?case
    using reassembler_inv_push reassembler_inv_expire by (cases ev) fastforce+
qed simp

text \<open>Where the fragments of the open entries came from.\<close>

definition sent_in :: "reassembly_event list \<Rightarrow> u16 \<Rightarrow> u32 \<Rightarrow> u32 \<Rightarrow> bytes \<Rightarrow> bool" where
  "sent_in evs sid c i p \<longleftrightarrow> (\<exists>f now. Fragment f now \<in> set evs \<and> fr_payload f = p
     \<and> fr_split f = Some \<lparr>split_count = c, split_id = sid, split_index = i\<rparr>)"

definition traced :: "reassembly_event list \<Rightarrow> reassembler \<Rightarrow> bool" where
  "traced evs r \<longleftrightarrow> (\<forall>sid e i p. bt_get (ra_pending r) sid = Some e \<longrightarrow>
     bt_get (pe_fragments e) i = Some p \<longrightarrow> sent_in evs sid (pe_count e) i p)"

lemma sent_in_mono: "sent_in evs sid c i p \<Longrightarrow> set evs \<subseteq> set evs' \<Longrightarrow> sent_in evs' sid c i p"
  by (auto simp: sent_in_def)

lemma tracedD:
  "traced evs r \<Longrightarrow> bt_get (ra_pending r) sid = Some e \<Longrightarrow> bt_get (pe_fragments e) i = Some p
     \<Longrightarrow> sent_in evs sid (pe_count e) i p"
  unfolding traced_def by blast

lemma traced_mono: "traced evs r \<Longrightarrow> set evs \<subseteq> set evs' \<Longrightarrow> traced evs' r"
  unfolding traced_def using sent_in_mono by blast

lemma grown_traced:
  assumes inv: "reassembler_inv r" and tr: "traced evs r"
    and sp: "fr_split f = Some sp" and yes: "admits sp (fr_payload f) now r"
    and get: "bt_get (pe_fragments (grown sp (fr_payload f) (entry_of sp now r))) i = Some p"
  shows "sent_in (evs @ [Fragment f now]) (split_id sp) (split_count sp) i p"
proof (cases "i = split_index sp")
  case True
  then have "p = fr_payload f" using grown_fragments(3)[OF inv yes] get by simp
  then show ?thesis using True sp by (auto simp: sent_in_def)
next
  case False
  then have old: "bt_get (pe_fragments (entry_of sp now r)) i = Some p"
    using grown_fragments(3)[OF inv yes] get by simp
  then obtain e where "bt_get (ra_pending r) (split_id sp) = Some e" "entry_of sp now r = e"
    by (auto simp: entry_of_def split: option.splits)
  then have "sent_in evs (split_id sp) (split_count sp) i p"
    using tracedD[OF tr] old yes unfolding admits_def by metis
  then show ?thesis by (rule sent_in_mono) auto
qed

lemma traced_push:
  assumes inv: "reassembler_inv r" and tr: "traced evs r"
  shows "traced (evs @ [Fragment f now]) (snd (reassembler_push f now r))"
proof (cases "fr_split f")
  case None
  then show ?thesis using traced_mono[OF tr, of "evs @ [Fragment f now]"] by (auto simp: reassembler_push_def)
next
  case (Some sp)
  have keep: "traced (evs @ [Fragment f now]) r" using tr by (rule traced_mono) auto
  have ok: "bt_ok (ra_pending r)" using inv by (simp add: reassembler_inv_def)
  show ?thesis
  proof (cases "admits sp (fr_payload f) now r")
    case False
    then show ?thesis using push_refused[OF inv Some] keep by force
  next
    case True
    have "pe_count (grown sp (fr_payload f) (entry_of sp now r)) = split_count sp"
      by (rule grown_fragments(2)[OF inv True])
    then show ?thesis
      using push_admitted[OF inv Some True] grown_traced[OF inv tr Some True] keep ok
      by (auto simp: traced_def bt.get_ins bt.get_del split: if_splits)
  qed
qed

lemma traced_run:
  assumes "reassembler_inv r" "traced h r"
  shows "traced (h @ evs) (fold reassembly_step evs r)"
  using assms
proof (induction evs arbitrary: h r)
  case (Cons ev evs)
  have "traced (h @ [ev]) (reassembly_step ev r)"
  proof (cases ev)
    case (Fragment f now)
    then show ?thesis using traced_push[OF Cons.prems] by simp
  next
    case (Expire now)
    then show ?thesis
      using traced_mono[OF Cons.prems(2), of "h @ [ev]"] expire_pending_get[OF Cons.prems(1), of now]
      by (auto simp: traced_def split: option.splits if_splits)
  qed
  moreover have "reassembler_inv (reassembly_step ev r)"
    using reassembler_inv_run[OF Cons.prems(1), of "[ev]"] by simp
  ultimately show ?case using Cons.IH[of "reassembly_step ev r" "h @ [ev]"] by simp
qed simp

section \<open>Properties\<close>

text \<open>C16: A payload cut by the splitter comes out of the reassembler whole.  The fragments may
  arrive in any order and at any times (no expiry in between), into any reassembler that does
  not know the split id and has room: every push but the last answers that more is needed, the
  last one hands out the payload, and the reassembler is back in the state it started from.\<close>

theorem split_reassemble:
  assumes "reassembler_inv r" "bt_get (ra_pending r) (next_id s) = None"
    and "bt_len (ra_pending r) < max_pending (ra_limits r)"
    and "0 < capacity" "capacity < length payload"
    and "div_ceil (length payload) capacity \<le> unat (max_fragments (ra_limits r))"
    and "ra_buffered r + length payload \<le> max_payload (ra_limits r)"
    and "mset (map fst fs) = mset (fst (splitter_split payload capacity s))"
  shows "push_frames fs r = (replicate (length fs - 1) (Inr None) @ [Inr (Some payload)], r)"
proof -
  let ?cs = "chunks capacity payload" let ?g = "\<lambda>i. fragment (u32_or_max (length ?cs)) (next_id s) i (?cs ! i)"
  let ?idx = "\<lambda>f. unat (split_index (the (fr_split f)))"
  have len: "length ?cs \<le> unat (max_fragments (ra_limits r))"
    using assms(4,6) by (simp add: length_chunks)
  have lim: "length ?cs < 2 ^ 32" using len unat_lt_32 order_le_less_trans by blast
  have frames: "mset (map fst fs) = mset (map ?g [0..<length ?cs])"
    using assms(8) by (simp add: splitter_split_frames[OF assms(4,5)])
  have idx: "?idx (?g i) = i" if "i < length ?cs" for i
    using that lim by (simp add: fragment_def unat_u32_or_max)
  let ?is = "map (?idx \<circ> fst) fs"
  have "mset ?is = image_mset ?idx (mset (map fst fs))" by (simp add: image_mset.compositionality)
  also have "\<dots> = mset (map (?idx \<circ> ?g) [0..<length ?cs])"
    unfolding frames by (simp add: image_mset.compositionality comp_def)
  also have "map (?idx \<circ> ?g) [0..<length ?cs] = [0..<length ?cs]"
    using idx by (intro map_idI) simp
  finally have perm: "mset ?is = mset [0..<length ?cs]" .
  have "fst f = ?g (?idx (fst f))" if "f \<in> set fs" for f
  proof -
    have "fst f \<in> set (map ?g [0..<length ?cs])" using that mset_eq_setD[OF frames] by auto
    then obtain i where "i < length ?cs" "fst f = ?g i" by auto
    then show ?thesis using idx by simp
  qed
  then have "map fst fs = map ?g ?is" by simp
  then have zip: "fs = zip (map ?g ?is) (map snd fs)" by (metis zip_map_fst_snd)
  have dist: "distinct ?is" using mset_eq_imp_distinct_iff[OF perm] by simp
  have all: "set ?is = {..<length ?cs}" using mset_eq_setD[OF perm] by (simp add: atLeast0LessThan)
  have ne: "?is \<noteq> []" using all length_chunks_gt[OF assms(4,5)] by (cases fs) auto
  have conc: "concat ?cs = payload" using assms(4) by (rule concat_chunks)
  have "push_frames (zip (map ?g ?is) (map snd fs)) r
      = (replicate (length ?is - 1) (Inr None) @ [Inr (Some (concat ?cs))], r)"
    using collected_push_all[OF collected_start[OF assms(1,2,3), of ?cs], of ?is "map snd fs"]
      dist all ne len assms(7) conc by simp
  then show ?thesis using conc zip by simp
qed

lemma split_reassemble_witness:
  "push_frames
     [(fragment 3 0 2 [5], 7), (fragment 3 0 0 [1, 2], 8), (fragment 3 0 1 [3, 4], 9)]
     (new_reassembler default_limits)
   = ([Inr None, Inr None, Inr (Some [1, 2, 3, 4, 5])], new_reassembler default_limits)"
proof -
  have "fst (splitter_split [1, 2, 3, 4, 5] 2 new_splitter)
      = [fragment 3 0 0 [1, 2], fragment 3 0 1 [3, 4], fragment 3 0 2 [5]]"
    by (simp add: splitter_split_def new_splitter_def chunks_step u32_or_max_def Let_def
        flip: numeral_2_eq_2)
  then show ?thesis
    using split_reassemble[of "new_reassembler default_limits" new_splitter 2 "[1, 2, 3, 4, 5]"
        "[(fragment 3 0 2 [5], 7), (fragment 3 0 0 [1, 2], 8), (fragment 3 0 1 [3, 4], 9)]"]
    by (simp add: reassembler_inv_new)
      (simp add: new_reassembler_def default_limits_def new_splitter_def div_ceil_def)
qed

text \<open>C17: Whatever a peer sends and however time moves, a reassembler holds at most
  \<^verbatim>\<open>max_payload\<close> bytes in at most \<^verbatim>\<open>max_pending\<close> reassemblies, none of more fragments than
  \<^verbatim>\<open>max_fragments\<close>, and its byte counter is the sum of what it really holds.\<close>

theorem reassembly_bounded:
  "let r = fold reassembly_step evs (new_reassembler l) in
     ra_buffered r = sum_list (map (\<lambda>(_, e). sum_list (map length (bt_values (pe_fragments e))))
                       (bt_entries (ra_pending r)))
     \<and> ra_buffered r \<le> max_payload l
     \<and> bt_len (ra_pending r) \<le> max_pending l
     \<and> list_all (\<lambda>(_, e). bt_len (pe_fragments e) < unat (max_fragments l)) (bt_entries (ra_pending r))"
proof -
  define r where "r = fold reassembly_step evs (new_reassembler l)"
  have inv: "reassembler_inv r" "ra_limits r = l"
    using reassembler_inv_run[OF reassembler_inv_new[of l], of evs]
    by (simp_all add: r_def new_reassembler_def)
  have entry: "pending_inv l e" if "(k, e) \<in> set (bt_entries (ra_pending r))" for k e
    using that inv bt.in_entries_iff[of "ra_pending r" k e] by (auto simp: reassembler_inv_def)
  have "ra_buffered r = sum_list (map (\<lambda>(_, e). sum_list (map length (bt_values (pe_fragments e))))
      (bt_entries (ra_pending r)))"
    using inv(1) entry
    by (auto simp: reassembler_inv_def held_bytes_def pending_inv_def intro!: arg_cong[of _ _ sum_list])
  moreover have "bt_len (pe_fragments e) < unat (max_fragments l)"
    if "(k, e) \<in> set (bt_entries (ra_pending r))" for k e
    using entry[OF that] by (auto simp: pending_inv_def word_le_nat_alt)
  ultimately show ?thesis
    using inv unfolding r_def[symmetric] Let_def list_all_iff reassembler_inv_def by auto
qed

text \<open>A refused fragment changes nothing: whenever \<^verbatim>\<open>push\<close> answers an error, the
  reassembler is the one it was.\<close>

lemma refused_fragment_changes_nothing:
  assumes "reassembler_inv r" "reassembler_push f now r = (Inl e, r')"
  shows "r' = r"
proof (cases "fr_split f")
  case None
  then show ?thesis using assms(2) by (simp add: reassembler_push_def)
next
  case (Some sp)
  show ?thesis
  proof (cases "admits sp (fr_payload f) now r")
    case True
    then show ?thesis using push_admitted[OF assms(1) Some True] assms(2) by (simp split: if_splits)
  next
    case False
    then show ?thesis using push_refused[OF assms(1) Some False] assms(2) by auto
  qed
qed

text \<open>Nothing is invented: a payload handed out for a split frame is the concatenation, in
  index order, of as many fragments as announced, each of them sent under the same split id and
  the same count earlier in the run.\<close>

lemma reassembled_from_what_was_sent:
  assumes "reassembler_push f now (fold reassembly_step evs (new_reassembler l)) = (Inr (Some p), r')"
    and "fr_split f = Some sp"
  shows "\<exists>cs. length cs = unat (split_count sp) \<and> p = concat cs
    \<and> (\<forall>i < length cs. sent_in (evs @ [Fragment f now]) (split_id sp) (split_count sp) (of_nat i) (cs ! i))"
proof -
  define r where "r = fold reassembly_step evs (new_reassembler l)"
  have inv: "reassembler_inv r" and tr: "traced evs r"
    using reassembler_inv_run[OF reassembler_inv_new[of l], of evs]
      traced_run[OF reassembler_inv_new[of l], of "[]" evs]
    by (simp_all add: r_def traced_def new_reassembler_def)
  have yes: "admits sp (fr_payload f) now r"
    using push_refused[OF inv assms(2), of now] assms(1) by (auto simp: r_def)
  define e where "e = grown sp (fr_payload f) (entry_of sp now r)"
  note g = grown_fragments[OF inv yes, folded e_def]
  let ?n = "unat (split_count sp)" let ?D = "dom (bt_get (pe_fragments e))"
  have p: "p = concat (bt_values (pe_fragments e))" and full: "?n \<le> bt_len (pe_fragments e)"
    using push_admitted[OF inv assms(2) yes, folded e_def] assms(1)
    by (auto simp: r_def[symmetric] split: if_splits)
  have sub: "unat ` ?D \<subseteq> {..<?n}" using g(6) by (auto simp: word_less_nat_alt)
  have card: "card (unat ` ?D) = bt_len (pe_fragments e)"
    using g(1) by (simp add: bt_len_card card_image inj_on_def word_unat_eq_iff)
  have len: "bt_len (pe_fragments e) = ?n"
    using card_mono[OF _ sub] full card by simp
  then have all: "unat ` ?D = {..<?n}"
    using card card_subset_eq[OF _ sub] by simp
  define g' where "g' i = the (bt_get (pe_fragments e) (of_nat i))" for i
  have get: "bt_get (pe_fragments e) (of_nat i) = Some (g' i)" if "i < ?n" for i
  proof -
    have "i \<in> unat ` ?D" using all that by simp
    then obtain k where "k \<in> ?D" "i = unat k" by blast
    then show ?thesis by (auto simp: g'_def)
  qed
  have "bt_values (pe_fragments e) = map g' [0..<?n]"
    using bt_dense_values[OF g(1) unat_lt_32 get len] by simp
  moreover have "sent_in (evs @ [Fragment f now]) (split_id sp) (split_count sp) (of_nat i) (g' i)"
    if "i < ?n" for i
    using grown_traced[OF inv tr assms(2) yes, folded e_def, OF get[OF that]] .
  ultimately show ?thesis using p by (intro exI[of _ "map g' [0..<?n]"]) simp
qed

end
