(* ===== verification/Retransmit.thy ===== *)
theory Retransmit
  imports Datagram Ordmap
begin

text \<open>
  \<^verbatim>\<open>bedrock-raknet/src/retransmit.rs\<close>: reliable datagrams are kept until acknowledged, with
  a timeout after RFC 6298 and Karn's rule.

  A duration is a number of nanoseconds; the overflow of \<^verbatim>\<open>Duration\<close> at about 585 billion
  years is modelled only where the code saturates at it.  What may panic has an option type:
  \<^verbatim>\<open>clamp\<close> with the floor above the ceiling, and \<^verbatim>\<open>BTreeMap::range\<close> with the start above the
  end.
\<close>

section \<open>The round trip estimate\<close>

record rtt =
  smoothed :: "duration option"
  variation :: duration
  rtt_min :: duration
  rtt_max :: duration

definition new_rtt :: "duration \<Rightarrow> duration \<Rightarrow> rtt" where
  "new_rtt mn mx = \<lparr>smoothed = None, variation = 0, rtt_min = mn, rtt_max = mx\<rparr>"

definition abs_diff :: "duration \<Rightarrow> duration \<Rightarrow> duration" where
  "abs_diff a b = (if a < b then b - a else a - b)"

definition rtt_sample :: "duration \<Rightarrow> rtt \<Rightarrow> rtt" where
  "rtt_sample m s =
     (case smoothed s of
        None \<Rightarrow> s\<lparr>smoothed := Some m, variation := m div 2\<rparr>
      | Some sm \<Rightarrow>
          let delta = abs_diff sm m in
          s\<lparr>variation := (variation s * 3 + delta) div 4,
            smoothed := Some ((sm * 7 + m) div 8)\<rparr>)"

text \<open>\<^verbatim>\<open>Ord::clamp\<close> asserts \<^verbatim>\<open>min <= max\<close>.\<close>

definition clamp :: "duration \<Rightarrow> duration \<Rightarrow> duration \<Rightarrow> duration option" where
  "clamp mn mx d = (if mn \<le> mx then Some (if d < mn then mn else if d > mx then mx else d) else None)"

definition rtt_timeout :: "rtt \<Rightarrow> duration option" where
  "rtt_timeout s =
     (case smoothed s of
        None \<Rightarrow> Some (rtt_max s)
      | Some sm \<Rightarrow> clamp (rtt_min s) (rtt_max s) (sm + variation s * 4))"

section \<open>The retransmitter\<close>

record retransmit_limits =
  min_rto :: duration
  max_rto :: duration
  max_retries :: u32
  max_in_flight :: nat

definition default_retransmit_limits :: retransmit_limits where
  "default_retransmit_limits = \<lparr>min_rto = 100 * 10 ^ 6, max_rto = 2 * 10 ^ 9, max_retries = 8,
     max_in_flight = 512\<rparr>"

datatype window_full = WindowFull

record in_flight =
  if_datagram :: bytes
  if_sent_at :: instant
  if_retries :: u32

record retransmitter =
  rt_limits :: retransmit_limits
  rt_rtt :: rtt
  rt_in_flight :: "(u32, in_flight) btree"
  rt_dead :: bool

definition new_retransmitter :: "retransmit_limits \<Rightarrow> retransmitter" where
  "new_retransmitter l = \<lparr>rt_limits = l, rt_rtt = new_rtt (min_rto l) (max_rto l),
     rt_in_flight = bt_new, rt_dead = False\<rparr>"

definition in_flight_count :: "retransmitter \<Rightarrow> nat" where
  "in_flight_count r = bt_len (rt_in_flight r)"

definition track :: "u32 \<Rightarrow> bytes \<Rightarrow> instant \<Rightarrow> retransmitter \<Rightarrow> (window_full + unit) \<times> retransmitter" where
  "track sequence datagram now r =
     (if bt_len (rt_in_flight r) \<ge> max_in_flight (rt_limits r) then (Inl WindowFull, r)
      else (Inr (), r\<lparr>rt_in_flight := bt_insert sequence
              \<lparr>if_datagram = datagram, if_sent_at = now, if_retries = 0\<rparr> (rt_in_flight r)\<rparr>))"

definition ack_one :: "instant \<Rightarrow> u32 \<Rightarrow> retransmitter \<Rightarrow> retransmitter" where
  "ack_one now sequence r =
     (case bt_get (rt_in_flight r) sequence of
        None \<Rightarrow> r
      | Some entry \<Rightarrow>
          let r = r\<lparr>rt_in_flight := bt_remove sequence (rt_in_flight r)\<rparr> in
          if if_retries entry = 0
          then r\<lparr>rt_rtt := rtt_sample (now - if_sent_at entry) (rt_rtt r)\<rparr>
          else r)"

fun ack_ranges :: "(u32 \<times> u32) list \<Rightarrow> instant \<Rightarrow> retransmitter \<Rightarrow> retransmitter option" where
  "ack_ranges [] now r = Some r"
| "ack_ranges ((start, end) # rs) now r =
     (case bt_range_keys start end (rt_in_flight r) of
        None \<Rightarrow> None
      | Some acked \<Rightarrow> ack_ranges rs now (fold (ack_one now) acked r))"

definition on_ack :: "acknowledgement \<Rightarrow> instant \<Rightarrow> retransmitter \<Rightarrow> retransmitter option" where
  "on_ack ack now r = ack_ranges (ranges ack) now r"

definition check_retries :: "retransmitter \<Rightarrow> retransmitter" where
  "check_retries r =
     (if list_ex (\<lambda>entry. if_retries entry > max_retries (rt_limits r)) (bt_values (rt_in_flight r))
      then r\<lparr>rt_dead := True\<rparr> else r)"

text \<open>An entry goes out again: one more retry, sent now.\<close>

definition resend :: "instant \<Rightarrow> in_flight \<Rightarrow> in_flight" where
  "resend now entry = entry\<lparr>if_retries := if_retries entry + 1, if_sent_at := now\<rparr>"

definition nack_one :: "instant \<Rightarrow> u32 \<Rightarrow> bytes list \<times> retransmitter \<Rightarrow> bytes list \<times> retransmitter" where
  "nack_one now sequence = (\<lambda>(out, r).
     case bt_get (rt_in_flight r) sequence of
       None \<Rightarrow> (out, r)
     | Some entry \<Rightarrow> (out @ [if_datagram entry],
         r\<lparr>rt_in_flight := bt_insert sequence (resend now entry) (rt_in_flight r)\<rparr>))"

fun nack_ranges :: "(u32 \<times> u32) list \<Rightarrow> instant \<Rightarrow> bytes list \<times> retransmitter
    \<Rightarrow> (bytes list \<times> retransmitter) option" where
  "nack_ranges [] now s = Some s"
| "nack_ranges ((start, end) # rs) now s =
     (case bt_range_keys start end (rt_in_flight (snd s)) of
        None \<Rightarrow> None
      | Some missing \<Rightarrow> nack_ranges rs now (fold (nack_one now) missing s))"

definition on_nack :: "acknowledgement \<Rightarrow> instant \<Rightarrow> retransmitter \<Rightarrow> (bytes list \<times> retransmitter) option" where
  "on_nack nack now r =
     map_option (\<lambda>(out, r). (out, check_retries r)) (nack_ranges (ranges nack) now ([], r))"

text \<open>\<^verbatim>\<open>Duration::MAX\<close> and \<^verbatim>\<open>Duration::saturating_mul\<close>.\<close>

definition duration_max :: duration where
  "duration_max = 2 ^ 64 * 10 ^ 9 - 1"

definition backoff :: "duration \<Rightarrow> duration \<Rightarrow> u32 \<Rightarrow> duration" where
  "backoff base mx retries =
     (let factor = (if unat retries < 32 then push_bit (unat retries) 1 else - 1 :: u32)
      in min (min (base * unat factor) duration_max) mx)"

definition is_due :: "duration \<Rightarrow> duration \<Rightarrow> instant \<Rightarrow> in_flight \<Rightarrow> bool" where
  "is_due base mx now entry \<longleftrightarrow> now - if_sent_at entry \<ge> backoff base mx (if_retries entry)"

text \<open>The loop over \<^verbatim>\<open>values_mut\<close>: entries are visited in key order and updated in place.\<close>

definition due :: "instant \<Rightarrow> retransmitter \<Rightarrow> (bytes list \<times> retransmitter) option" where
  "due now r =
     (case rtt_timeout (rt_rtt r) of
        None \<Rightarrow> None
      | Some base \<Rightarrow>
          let mx = max_rto (rt_limits r);
              out = map if_datagram (filter (is_due base mx now) (bt_values (rt_in_flight r)));
              r = r\<lparr>rt_in_flight := bt_map_values
                     (\<lambda>entry. if is_due base mx now entry then resend now entry else entry)
                     (rt_in_flight r)\<rparr>
          in Some (out, check_retries r))"

lemma backoff_is:
  "backoff base mx n = min (min (base * (if unat n < 32 then 2 ^ unat n else 2 ^ 32 - 1)) duration_max) mx"
proof -
  have "unat (2 ^ k :: u32) = 2 ^ k" if "k < 32" for k
  proof -
    have "(2 :: nat) ^ k < 2 ^ LENGTH(32)" using that by (intro power_strict_increasing) simp_all
    from unat_of_nat_small[OF this] show ?thesis by simp
  qed
  moreover have "unat (- 1 :: u32) = 2 ^ 32 - 1" by (simp add: unsigned_minus_1_eq_mask mask_eq_exp_minus_1)
  ultimately show ?thesis by (simp add: backoff_def)
qed

section \<open>The estimate\<close>

lemma rtt_sample_bounds [simp]:
  "rtt_min (rtt_sample m s) = rtt_min s" "rtt_max (rtt_sample m s) = rtt_max s"
  by (simp_all add: rtt_sample_def Let_def split: option.splits)

lemma rtt_timeout_total: "rtt_min s \<le> rtt_max s \<Longrightarrow> rtt_timeout s \<noteq> None"
  by (simp add: rtt_timeout_def clamp_def split: option.splits)

lemma rtt_timeout_clamped:
  "rtt_min s \<le> rtt_max s \<Longrightarrow> rtt_timeout s = Some t \<Longrightarrow> rtt_min s \<le> t \<and> t \<le> rtt_max s"
  by (auto simp: rtt_timeout_def clamp_def split: option.splits if_splits)

text \<open>A weighted mean stays between its terms, also when it is rounded down.\<close>

lemma smoothed_between:
  fixes a b s m :: nat
  assumes "a \<le> s" "s \<le> b" "a \<le> m" "m \<le> b"
  shows "a \<le> (s * 7 + m) div 8" "(s * 7 + m) div 8 \<le> b"
  using assms by simp_all

lemma rtt_sample_between:
  assumes "a \<le> m" "m \<le> b" "\<forall>sm. smoothed s = Some sm \<longrightarrow> a \<le> sm \<and> sm \<le> b" "variation s \<le> b"
  shows "\<exists>sm. smoothed (rtt_sample m s) = Some sm \<and> a \<le> sm \<and> sm \<le> b \<and> variation (rtt_sample m s) \<le> b"
proof (cases "smoothed s")
  case None
  then show ?thesis using assms by (simp add: rtt_sample_def)
next
  case (Some sm)
  then have sm: "a \<le> sm" "sm \<le> b" using assms(3) by simp_all
  have "abs_diff sm m \<le> b" using sm assms(1,2) by (auto simp: abs_diff_def)
  then have "(variation s * 3 + abs_diff sm m) div 4 \<le> b" using assms(4) by simp
  then show ?thesis using smoothed_between[OF sm assms(1,2)] Some by (simp add: rtt_sample_def Let_def)
qed

section \<open>Acknowledgements\<close>

definition retransmitter_inv :: "retransmitter \<Rightarrow> bool" where
  "retransmitter_inv r \<longleftrightarrow> bt_ok (rt_in_flight r)
     \<and> bt_len (rt_in_flight r) \<le> max_in_flight (rt_limits r)
     \<and> rtt_min (rt_rtt r) = min_rto (rt_limits r) \<and> rtt_max (rt_rtt r) = max_rto (rt_limits r)"

lemma retransmitter_inv_new: "retransmitter_inv (new_retransmitter l)"
  by (simp add: retransmitter_inv_def new_retransmitter_def new_rtt_def)

lemma retransmitter_inv_track:
  "retransmitter_inv r \<Longrightarrow> retransmitter_inv (snd (track k d now r))"
  by (auto simp: retransmitter_inv_def track_def bt.invar_ins bt_len_insert)

lemma ack_one_frame [frame_cond, simp]:
  "rt_limits (ack_one now k r) = rt_limits r" "rt_dead (ack_one now k r) = rt_dead r"
  by (simp_all add: ack_one_def Let_def split: option.splits)

lemma retransmitter_inv_ack_one: "retransmitter_inv r \<Longrightarrow> retransmitter_inv (ack_one now k r)"
  by (auto simp: retransmitter_inv_def ack_one_def Let_def bt.invar_del bt_len_remove split: option.splits)

lemma get_ack_one:
  "retransmitter_inv r \<Longrightarrow>
     bt_get (rt_in_flight (ack_one now k r)) = (bt_get (rt_in_flight r))(k := None)"
  by (auto simp: retransmitter_inv_def ack_one_def Let_def bt.get_del fun_eq_iff split: option.splits)

lemma retransmitter_inv_ack_fold:
  assumes "retransmitter_inv r"
  shows "retransmitter_inv (fold (ack_one now) ks r)
    \<and> rt_limits (fold (ack_one now) ks r) = rt_limits r
    \<and> rt_dead (fold (ack_one now) ks r) = rt_dead r
    \<and> bt_get (rt_in_flight (fold (ack_one now) ks r))
        = (\<lambda>k. if k \<in> set ks then None else bt_get (rt_in_flight r) k)"
  using assms
proof (induction ks arbitrary: r)
  case (Cons k ks)
  then show ?case
    using Cons.IH[OF retransmitter_inv_ack_one[OF Cons.prems, of now k]]
    by (auto simp: get_ack_one fun_eq_iff)
qed simp

lemma bt_range_keys_None: "bt_range_keys a b m = None \<longleftrightarrow> b < a"
  by (auto simp: bt_range_keys_def)

lemma bt_range_keys_set:
  assumes "bt_ok m" "bt_range_keys a b m = Some ks"
  shows "set ks = {k \<in> dom (bt_get m). a \<le> k \<and> k \<le> b}"
  using assms by (force simp: bt_range_keys_def bt.dom_entries bt_entries_def split: if_splits)

lemma ack_contains_Cons:
  "ack_contains \<lparr>ranges = (a, b) # rs\<rparr> k \<longleftrightarrow> (a \<le> k \<and> k \<le> b) \<or> ack_contains \<lparr>ranges = rs\<rparr> k"
  by (simp add: ack_contains_def)

lemma ack_contains_Nil [simp]: "\<not> ack_contains \<lparr>ranges = []\<rparr> k"
  by (simp add: ack_contains_def)

text \<open>The standard library's \<^verbatim>\<open>range\<close> panics on a reversed range, and nothing in between checks.\<close>

definition ordered_ranges :: "acknowledgement \<Rightarrow> bool" where
  "ordered_ranges a \<longleftrightarrow> list_all (\<lambda>(s, e). s \<le> e) (ranges a)"

lemma ack_ranges_None: "ack_ranges rs now r = None \<longleftrightarrow> \<not> list_all (\<lambda>(s, e). s \<le> e) rs"
proof (induction rs arbitrary: r)
  case (Cons x rs)
  obtain s e where x: "x = (s, e)" by fastforce
  show ?case
    using Cons bt_range_keys_None[of s e "rt_in_flight r"]
    by (auto simp: x not_le split: option.splits)
qed simp

lemma ack_ranges_spec:
  assumes "retransmitter_inv r" "ack_ranges rs now r = Some r'"
  shows "retransmitter_inv r' \<and> rt_limits r' = rt_limits r \<and> rt_dead r' = rt_dead r
    \<and> (\<forall>k. bt_get (rt_in_flight r') k
        = (if ack_contains \<lparr>ranges = rs\<rparr> k then None else bt_get (rt_in_flight r) k))"
  using assms
proof (induction rs arbitrary: r)
  case Nil
  then show ?case by simp
next
  case (Cons x rs)
  obtain s e where x: "x = (s, e)" by fastforce
  obtain ks where ks: "bt_range_keys s e (rt_in_flight r) = Some ks"
    and rest: "ack_ranges rs now (fold (ack_one now) ks r) = Some r'"
    using Cons.prems(2) by (auto simp: x split: option.splits)
  have ok: "bt_ok (rt_in_flight r)" using Cons.prems(1) by (simp add: retransmitter_inv_def)
  note f = retransmitter_inv_ack_fold[OF Cons.prems(1), of now ks]
  note IH = Cons.IH[OF _ rest]
  have "k \<in> set ks \<longleftrightarrow> s \<le> k \<and> k \<le> e" if "bt_get (rt_in_flight r) k \<noteq> None" for k
    using bt_range_keys_set[OF ok ks] that by auto
  then have "(if k \<in> set ks then None else bt_get (rt_in_flight r) k)
      = (if s \<le> k \<and> k \<le> e then None else bt_get (rt_in_flight r) k)" for k
    by (cases "bt_get (rt_in_flight r) k") auto
  then show ?case using IH f by (auto simp: x ack_contains_Cons)
qed

lemma on_ack_None: "on_ack a now r = None \<longleftrightarrow> \<not> ordered_ranges a"
  by (simp add: on_ack_def ack_ranges_None ordered_ranges_def)

lemma on_ack_spec:
  assumes "retransmitter_inv r" "on_ack a now r = Some r'"
  shows "retransmitter_inv r'" "rt_limits r' = rt_limits r" "rt_dead r' = rt_dead r"
    "bt_get (rt_in_flight r') k = (if ack_contains a k then None else bt_get (rt_in_flight r) k)"
  using ack_ranges_spec[OF assms(1) assms(2)[unfolded on_ack_def]] by simp_all

text \<open>Karn: entries sent more than once leave the estimate alone.\<close>

lemma ack_fold_karn:
  assumes "retransmitter_inv r"
    and "\<forall>k \<in> set ks. \<forall>e. bt_get (rt_in_flight r) k = Some e \<longrightarrow> if_retries e \<noteq> 0"
  shows "rt_rtt (fold (ack_one now) ks r) = rt_rtt r"
  using assms
proof (induction ks arbitrary: r)
  case (Cons k ks)
  have "rt_rtt (ack_one now k r) = rt_rtt r"
    using Cons.prems(2) by (simp add: ack_one_def split: option.splits)
  moreover have "\<forall>k' \<in> set ks. \<forall>e. bt_get (rt_in_flight (ack_one now k r)) k' = Some e \<longrightarrow> if_retries e \<noteq> 0"
    using Cons.prems by (simp add: get_ack_one)
  ultimately show ?case
    using Cons.IH[OF retransmitter_inv_ack_one[OF Cons.prems(1), of now k]] by simp
qed simp

lemma ack_ranges_karn:
  assumes "retransmitter_inv r" "ack_ranges rs now r = Some r'"
    and "\<forall>k e. ack_contains \<lparr>ranges = rs\<rparr> k \<longrightarrow> bt_get (rt_in_flight r) k = Some e \<longrightarrow> if_retries e \<noteq> 0"
  shows "rt_rtt r' = rt_rtt r"
  using assms
proof (induction rs arbitrary: r)
  case (Cons x rs)
  obtain s e where x: "x = (s, e)" by fastforce
  obtain ks where ks: "bt_range_keys s e (rt_in_flight r) = Some ks"
    and rest: "ack_ranges rs now (fold (ack_one now) ks r) = Some r'"
    using Cons.prems(2) by (auto simp: x split: option.splits)
  have ok: "bt_ok (rt_in_flight r)" using Cons.prems(1) by (simp add: retransmitter_inv_def)
  note f = retransmitter_inv_ack_fold[OF Cons.prems(1), of now ks]
  have "rt_rtt (fold (ack_one now) ks r) = rt_rtt r"
    using Cons.prems(3) bt_range_keys_set[OF ok ks]
    by (intro ack_fold_karn[OF Cons.prems(1)]) (auto simp: x ack_contains_Cons)
  moreover have "\<forall>k e. ack_contains \<lparr>ranges = rs\<rparr> k \<longrightarrow>
      bt_get (rt_in_flight (fold (ack_one now) ks r)) k = Some e \<longrightarrow> if_retries e \<noteq> 0"
    using Cons.prems(3) f by (auto simp: x ack_contains_Cons)
  ultimately show ?case using Cons.IH[OF _ rest] f by simp
qed simp

section \<open>Negative acknowledgements and timeouts\<close>

lemma check_retries_frame [frame_cond, simp]:
  "rt_limits (check_retries r) = rt_limits r" "rt_rtt (check_retries r) = rt_rtt r"
  "rt_in_flight (check_retries r) = rt_in_flight r"
  by (simp_all add: check_retries_def)

lemma retransmitter_inv_check [simp]: "retransmitter_inv (check_retries r) = retransmitter_inv r"
  by (simp add: retransmitter_inv_def)

lemma check_retries_dead:
  assumes "bt_ok (rt_in_flight r)"
  shows "rt_dead (check_retries r) \<longleftrightarrow> rt_dead r \<or>
    (\<exists>k e. bt_get (rt_in_flight r) k = Some e \<and> if_retries e > max_retries (rt_limits r))"
  using bt_values_get[OF assms] by (auto simp: check_retries_def list_ex_iff)

text \<open>Sending again changes the retries and the time of an entry, nothing else.\<close>

definition same_datagrams :: "retransmitter \<Rightarrow> retransmitter \<Rightarrow> bool" where
  "same_datagrams r r' \<longleftrightarrow> rt_limits r' = rt_limits r \<and> rt_rtt r' = rt_rtt r
     \<and> (\<forall>k. map_option if_datagram (bt_get (rt_in_flight r') k)
            = map_option if_datagram (bt_get (rt_in_flight r) k))"

lemma same_datagrams_refl [simp]: "same_datagrams r r"
  by (simp add: same_datagrams_def)

lemma same_datagrams_trans: "same_datagrams a b \<Longrightarrow> same_datagrams b c \<Longrightarrow> same_datagrams a c"
  by (simp add: same_datagrams_def)

lemma same_datagrams_check: "same_datagrams r (check_retries r)"
  by (simp add: same_datagrams_def)

lemma nack_one_spec:
  assumes "retransmitter_inv r" "nack_one now k (out, r) = (out', r')"
  shows "retransmitter_inv r' \<and> same_datagrams r r'
    \<and> out' = out @ (case bt_get (rt_in_flight r) k of None \<Rightarrow> [] | Some e \<Rightarrow> [if_datagram e])"
  using assms
  by (auto simp: nack_one_def retransmitter_inv_def same_datagrams_def resend_def bt.invar_ins
      bt.get_ins bt_len_insert split: option.splits)

lemma nack_fold_spec:
  assumes "retransmitter_inv r" "fold (nack_one now) ks (out, r) = (out', r')"
  shows "retransmitter_inv r' \<and> same_datagrams r r'
    \<and> out' = out @ concat (map (\<lambda>k. case bt_get (rt_in_flight r) k of None \<Rightarrow> [] | Some e \<Rightarrow> [if_datagram e]) ks)"
  using assms
proof (induction ks arbitrary: out r)
  case (Cons k ks)
  obtain o1 r1 where one: "nack_one now k (out, r) = (o1, r1)" by fastforce
  note s = nack_one_spec[OF Cons.prems(1) one]
  have "fold (nack_one now) ks (o1, r1) = (out', r')" using Cons.prems(2) one by simp
  note IH = Cons.IH[OF _ this]
  have "(case bt_get (rt_in_flight r1) j of None \<Rightarrow> [] | Some e \<Rightarrow> [if_datagram e])
      = (case bt_get (rt_in_flight r) j of None \<Rightarrow> [] | Some e \<Rightarrow> [if_datagram e])" for j
  proof -
    have "map_option if_datagram (bt_get (rt_in_flight r1) j)
        = map_option if_datagram (bt_get (rt_in_flight r) j)"
      using s by (simp add: same_datagrams_def)
    then show ?thesis
      by (cases "bt_get (rt_in_flight r1) j"; cases "bt_get (rt_in_flight r) j") auto
  qed
  then show ?case using IH s by (auto intro: same_datagrams_trans)
qed auto

text \<open>What the peer reported missing goes out again, once a range that covers it.\<close>

lemma nack_ranges_spec:
  assumes "retransmitter_inv r" "nack_ranges rs now (out, r) = Some (out', r')"
  shows "retransmitter_inv r' \<and> same_datagrams r r'
    \<and> (\<exists>more. out' = out @ more \<and> set more
        = {if_datagram e | k e. bt_get (rt_in_flight r) k = Some e \<and> ack_contains \<lparr>ranges = rs\<rparr> k})"
  using assms
proof (induction rs arbitrary: out r)
  case Nil
  then show ?case by simp
next
  case (Cons x rs)
  obtain a b where x: "x = (a, b)" by fastforce
  obtain ks where ks: "bt_range_keys a b (rt_in_flight r) = Some ks"
    and rest: "nack_ranges rs now (fold (nack_one now) ks (out, r)) = Some (out', r')"
    using Cons.prems(2) by (auto simp: x split: option.splits)
  obtain o1 r1 where f: "fold (nack_one now) ks (out, r) = (o1, r1)" by fastforce
  note s = nack_fold_spec[OF Cons.prems(1) f]
  have ok: "bt_ok (rt_in_flight r)" using Cons.prems(1) by (simp add: retransmitter_inv_def)
  obtain more where more: "out' = o1 @ more" "set more
      = {if_datagram e | k e. bt_get (rt_in_flight r1) k = Some e \<and> ack_contains \<lparr>ranges = rs\<rparr> k}"
    and r': "retransmitter_inv r'" "same_datagrams r1 r'"
    using Cons.IH[of r1 o1] s rest f by auto
  have same: "(\<exists>e. bt_get (rt_in_flight r1) k = Some e \<and> d = if_datagram e)
      \<longleftrightarrow> (\<exists>e. bt_get (rt_in_flight r) k = Some e \<and> d = if_datagram e)" for k d
  proof -
    have "map_option if_datagram (bt_get (rt_in_flight r1) k)
        = map_option if_datagram (bt_get (rt_in_flight r) k)"
      using s by (simp add: same_datagrams_def)
    then show ?thesis
      by (cases "bt_get (rt_in_flight r1) k"; cases "bt_get (rt_in_flight r) k") auto
  qed
  let ?first = "concat (map (\<lambda>k. case bt_get (rt_in_flight r) k of None \<Rightarrow> [] | Some e \<Rightarrow> [if_datagram e]) ks)"
  have "set ?first = {if_datagram e | k e. bt_get (rt_in_flight r) k = Some e \<and> a \<le> k \<and> k \<le> b}"
    using bt_range_keys_set[OF ok ks] by (auto split: option.splits) blast+
  moreover have "set more
      = {if_datagram e | k e. bt_get (rt_in_flight r) k = Some e \<and> ack_contains \<lparr>ranges = rs\<rparr> k}"
    unfolding more(2) using same by blast
  ultimately have "set (?first @ more) = {if_datagram e | k e. bt_get (rt_in_flight r) k = Some e
      \<and> ack_contains \<lparr>ranges = x # rs\<rparr> k}"
    unfolding x ack_contains_Cons by auto
  moreover have "out' = out @ (?first @ more)" using more(1) s by simp
  ultimately show ?case using r' s same_datagrams_trans by blast
qed

lemma on_nack_spec:
  assumes "retransmitter_inv r" "on_nack nack now r = Some (out, r')"
  shows "retransmitter_inv r'" "same_datagrams r r'"
    "set out = {if_datagram e | k e. bt_get (rt_in_flight r) k = Some e \<and> ack_contains nack k}"
proof -
  obtain r1 where r1: "nack_ranges (ranges nack) now ([], r) = Some (out, r1)" "r' = check_retries r1"
    using assms(2) by (auto simp: on_nack_def)
  note s = nack_ranges_spec[OF assms(1) r1(1)]
  show "retransmitter_inv r'" using s by (simp add: r1(2))
  show "same_datagrams r r'"
    using s same_datagrams_trans same_datagrams_check by (auto simp: r1(2))
  show "set out = {if_datagram e | k e. bt_get (rt_in_flight r) k = Some e \<and> ack_contains nack k}"
    using s by auto
qed

lemma due_spec:
  assumes "retransmitter_inv r" "due now r = Some (out, r')" "rtt_timeout (rt_rtt r) = Some base"
  shows "retransmitter_inv r'" "same_datagrams r r'"
    "out = map if_datagram (filter (is_due base (max_rto (rt_limits r)) now) (bt_values (rt_in_flight r)))"
    "bt_get (rt_in_flight r') k = map_option
       (\<lambda>e. if is_due base (max_rto (rt_limits r)) now e then resend now e else e)
       (bt_get (rt_in_flight r) k)"
proof -
  let ?d = "is_due base (max_rto (rt_limits r)) now"
  have out: "out = map if_datagram (filter ?d (bt_values (rt_in_flight r)))"
    and r': "r' = check_retries (r\<lparr>rt_in_flight := bt_map_values
        (\<lambda>e. if ?d e then resend now e else e) (rt_in_flight r)\<rparr>)"
    using assms(2,3) by (simp_all add: due_def Let_def)
  show "out = map if_datagram (filter ?d (bt_values (rt_in_flight r)))" by (rule out)
  show "retransmitter_inv r'"
    using assms(1) by (simp add: r' retransmitter_inv_def bt_ok_map_values)
  show "bt_get (rt_in_flight r') k
      = map_option (\<lambda>e. if ?d e then resend now e else e) (bt_get (rt_in_flight r) k)"
    by (simp add: r' bt_get_map_values)
  show "same_datagrams r r'"
    by (simp add: r' same_datagrams_def bt_get_map_values option.map_comp comp_def resend_def if_distrib
        cong: if_cong)
qed

section \<open>A whole run\<close>

datatype retransmit_event =
    Track u32 bytes instant
  | OnAck acknowledgement instant
  | OnNack acknowledgement instant
  | Due instant

fun retransmit_step :: "retransmit_event \<Rightarrow> retransmitter \<Rightarrow> retransmitter option" where
  "retransmit_step (Track k d now) r = Some (snd (track k d now r))"
| "retransmit_step (OnAck a now) r = on_ack a now r"
| "retransmit_step (OnNack a now) r = map_option snd (on_nack a now r)"
| "retransmit_step (Due now) r = map_option snd (due now r)"

fun retransmit_run :: "retransmit_event list \<Rightarrow> retransmitter \<Rightarrow> retransmitter option" where
  "retransmit_run [] r = Some r"
| "retransmit_run (ev # evs) r =
     (case retransmit_step ev r of None \<Rightarrow> None | Some r' \<Rightarrow> retransmit_run evs r')"

text \<open>The events after which a datagram may no longer be held.\<close>

fun releases :: "u32 \<Rightarrow> retransmit_event \<Rightarrow> bool" where
  "releases k (Track j d now) \<longleftrightarrow> j = k"
| "releases k (OnAck a now) \<longleftrightarrow> ack_contains a k"
| "releases k (OnNack a now) \<longleftrightarrow> False"
| "releases k (Due now) \<longleftrightarrow> False"

lemma due_timeout: "due now r = Some x \<Longrightarrow> \<exists>base. rtt_timeout (rt_rtt r) = Some base"
  by (auto simp: due_def split: option.splits)

lemma retransmit_step_inv:
  assumes "retransmitter_inv r" "retransmit_step ev r = Some r'"
  shows "retransmitter_inv r' \<and> rt_limits r' = rt_limits r"
proof (cases ev)
  case (Track k d now)
  then show ?thesis
    using assms retransmitter_inv_track[OF assms(1), of k d now] by (auto simp: track_def)
next
  case (OnAck a now)
  then show ?thesis using on_ack_spec[OF assms(1), of a now r'] assms(2) by simp
next
  case (OnNack a now)
  then show ?thesis
    using on_nack_spec(1,2)[OF assms(1), of a now] assms(2) by (auto simp: same_datagrams_def)
next
  case (Due now)
  then obtain out where d: "due now r = Some (out, r')" using assms(2) by auto
  then show ?thesis
    using due_spec(1,2)[OF assms(1) d] due_timeout[OF d] by (auto simp: same_datagrams_def)
qed

lemma map_option_SomeD: "map_option f x = map_option f (Some v) \<Longrightarrow> \<exists>w. x = Some w \<and> f w = f v"
  by (cases x) auto

lemma same_datagrams_get:
  assumes "same_datagrams r r'" "bt_get (rt_in_flight r) k = Some e"
  shows "\<exists>e'. bt_get (rt_in_flight r') k = Some e' \<and> if_datagram e' = if_datagram e"
proof (rule map_option_SomeD)
  have "map_option if_datagram (bt_get (rt_in_flight r') k)
      = map_option if_datagram (bt_get (rt_in_flight r) k)"
    using assms(1) unfolding same_datagrams_def by blast
  then show "map_option if_datagram (bt_get (rt_in_flight r') k) = map_option if_datagram (Some e)"
    by (simp add: assms(2))
qed

lemma retransmit_step_keeps:
  assumes "retransmitter_inv r" "retransmit_step ev r = Some r'" "\<not> releases k ev"
    and "bt_get (rt_in_flight r) k = Some e"
  shows "\<exists>e'. bt_get (rt_in_flight r') k = Some e' \<and> if_datagram e' = if_datagram e"
proof (cases ev)
  case (Track j d now)
  then show ?thesis
    using assms by (auto simp: track_def bt.get_ins retransmitter_inv_def split: if_splits)
next
  case (OnAck a now)
  then show ?thesis using on_ack_spec(4)[OF assms(1), of a now r' k] assms by simp
next
  case (OnNack a now)
  then obtain out where "on_nack a now r = Some (out, r')" using assms(2) by auto
  from on_nack_spec(2)[OF assms(1) this] assms(4) show ?thesis by (rule same_datagrams_get)
next
  case (Due now)
  then obtain out where d: "due now r = Some (out, r')" using assms(2) by auto
  then obtain base where "rtt_timeout (rt_rtt r) = Some base" using due_timeout by blast
  from due_spec(2)[OF assms(1) d this] assms(4) show ?thesis by (rule same_datagrams_get)
qed

lemma retransmit_run_inv:
  "retransmitter_inv r \<Longrightarrow> retransmit_run evs r = Some r' \<Longrightarrow>
     retransmitter_inv r' \<and> rt_limits r' = rt_limits r"
proof (induction evs arbitrary: r)
  case (Cons ev evs)
  then obtain r1 where r1: "retransmit_step ev r = Some r1" "retransmit_run evs r1 = Some r'"
    by (auto split: option.splits)
  from retransmit_step_inv[OF Cons.prems(1) r1(1)] Cons.IH[OF _ r1(2)] show ?case by simp
qed simp

section \<open>Giving up\<close>

lemma backoff_le: "backoff base mx n \<le> mx"
  by (simp add: backoff_def Let_def)

lemma due_total:
  assumes "retransmitter_inv r" "min_rto (rt_limits r) \<le> max_rto (rt_limits r)"
  shows "\<exists>base out r'. rtt_timeout (rt_rtt r) = Some base \<and> due now r = Some (out, r')"
  using rtt_timeout_total[of "rt_rtt r"] assms
  by (auto simp: retransmitter_inv_def due_def Let_def)

lemma due_keeps_dead: "due now r = Some (out, r') \<Longrightarrow> rt_dead r \<Longrightarrow> rt_dead r'"
  by (auto simp: due_def Let_def check_retries_def split: option.splits if_splits)

text \<open>Ticks at the given times.\<close>

fun due_all :: "instant list \<Rightarrow> retransmitter \<Rightarrow> retransmitter option" where
  "due_all [] r = Some r"
| "due_all (now # ts) r = (case due now r of None \<Rightarrow> None | Some (_, r') \<Rightarrow> due_all ts r')"

text \<open>Every time at least \<open>gap\<close> after the one before it.\<close>

fun spaced :: "duration \<Rightarrow> instant \<Rightarrow> instant list \<Rightarrow> bool" where
  "spaced gap t [] \<longleftrightarrow> True"
| "spaced gap t (u # us) \<longleftrightarrow> t + gap \<le> u \<and> spaced gap u us"

lemma due_all_dead:
  assumes "retransmitter_inv r" "min_rto (rt_limits r) \<le> max_rto (rt_limits r)" "rt_dead r"
  shows "\<exists>r'. due_all ts r = Some r' \<and> rt_dead r'"
  using assms
proof (induction ts arbitrary: r)
  case (Cons t ts)
  obtain base out r1 where d: "rtt_timeout (rt_rtt r) = Some base" "due t r = Some (out, r1)"
    using due_total[OF Cons.prems(1,2)] by blast
  note s = due_spec(1,2)[OF Cons.prems(1) d(2,1)]
  show ?case
    using Cons.IH[of r1] s Cons.prems(2) due_keeps_dead[OF d(2) Cons.prems(3)] d(2)
    by (simp add: same_datagrams_def)
qed simp

lemma unat_suc_less: "unat (w :: u32) < unat (m :: u32) + 1 \<Longrightarrow> m < - 1 \<Longrightarrow> unat (w + 1) = Suc (unat w)"
  by (simp add: unat_word_ariths word_less_nat_alt unsigned_minus_1_eq_mask mask_eq_exp_minus_1)

lemma due_all_gives_up:
  assumes "retransmitter_inv r" "min_rto (rt_limits r) \<le> max_rto (rt_limits r)"
    and "max_retries (rt_limits r) < - 1"
    and "bt_get (rt_in_flight r) k = Some e" "if_retries e \<le> max_retries (rt_limits r)"
    and "spaced (max_rto (rt_limits r)) (if_sent_at e) ts"
    and "unat (max_retries (rt_limits r)) < unat (if_retries e) + length ts"
  shows "\<exists>r'. due_all ts r = Some r' \<and> rt_dead r'"
  using assms
proof (induction ts arbitrary: r e)
  case Nil
  then show ?case by (simp add: word_le_nat_alt)
next
  case (Cons t ts)
  obtain base out r1 where d: "rtt_timeout (rt_rtt r) = Some base" "due t r = Some (out, r1)"
    using due_total[OF Cons.prems(1,2)] by blast
  note s = due_spec[OF Cons.prems(1) d(2,1)]
  have lim: "rt_limits r1 = rt_limits r" using s(2) by (simp add: same_datagrams_def)
  have "is_due base (max_rto (rt_limits r)) t e"
    using Cons.prems(6) backoff_le[of base "max_rto (rt_limits r)" "if_retries e"]
    by (simp add: is_due_def le_diff_conv2)
  then have e': "bt_get (rt_in_flight r1) k = Some (resend t e)"
    using s(4)[of k] Cons.prems(4) by simp
  have suc: "unat (if_retries e + 1) = Suc (unat (if_retries e))"
    using Cons.prems(3,5) by (intro unat_suc_less[of _ "max_retries (rt_limits r)"])
      (simp_all add: word_le_nat_alt)
  have due1: "due_all (t # ts) r = due_all ts r1" using d(2) by simp
  show ?case
  proof (cases "if_retries e + 1 \<le> max_retries (rt_limits r)")
    case True
    then show ?thesis
      using Cons.IH[of r1 "resend t e"] Cons.prems s(1) lim e' suc due1 by (simp add: resend_def)
  next
    case False
    have "rt_dead r1"
    proof -
      obtain r0 where r0: "r1 = check_retries r0" using d by (auto simp: due_def Let_def)
      have "if_retries (resend t e) > max_retries (rt_limits r)" using False by (simp add: resend_def)
      moreover have "bt_ok (rt_in_flight r0)" using s(1) by (simp add: r0 retransmitter_inv_def)
      ultimately show ?thesis
        using check_retries_dead[of r0] e' lim by (auto simp: r0)
    qed
    then show ?thesis using due_all_dead[of r1 ts] s(1) lim Cons.prems(2) due1 by simp
  qed
qed

lemma rtt_samples_between:
  assumes "\<forall>m \<in> set ms. a \<le> m \<and> m \<le> b" "\<forall>sm. smoothed s = Some sm \<longrightarrow> a \<le> sm \<and> sm \<le> b"
    "variation s \<le> b" "ms \<noteq> [] \<or> smoothed s \<noteq> None"
  shows "\<exists>sm. smoothed (fold rtt_sample ms s) = Some sm \<and> a \<le> sm \<and> sm \<le> b
    \<and> variation (fold rtt_sample ms s) \<le> b
    \<and> rtt_min (fold rtt_sample ms s) = rtt_min s \<and> rtt_max (fold rtt_sample ms s) = rtt_max s"
  using assms
proof (induction ms arbitrary: s)
  case (Cons m ms)
  have "a \<le> m" "m \<le> b" using Cons.prems(1) by simp_all
  note between = rtt_sample_between[OF this Cons.prems(2,3)]
  then obtain sm where sm: "smoothed (rtt_sample m s) = Some sm" "a \<le> sm" "sm \<le> b"
    "variation (rtt_sample m s) \<le> b" by blast
  show ?case using Cons.IH[of "rtt_sample m s"] Cons.prems(1) sm by simp
qed auto

lemma nack_ranges_None: "nack_ranges rs now s = None \<longleftrightarrow> \<not> list_all (\<lambda>(s, e). s \<le> e) rs"
proof (induction rs arbitrary: s)
  case (Cons x rs)
  obtain a b where x: "x = (a, b)" by fastforce
  show ?case
    using Cons bt_range_keys_None[of a b "rt_in_flight (snd s)"]
    by (auto simp: x not_le split: option.splits)
qed simp

section \<open>Properties\<close>

text \<open>C19: A reliable datagram is never forgotten: once tracked, it is still held, byte for byte,
  after any run of acknowledgements, negative acknowledgements, timeouts and other datagrams in
  which no acknowledgement covers its sequence number and the number is not used again.\<close>

theorem unacknowledged_datagram_kept:
  assumes "retransmitter_inv r" "bt_get (rt_in_flight r) k = Some e"
    and "list_all (\<lambda>ev. \<not> releases k ev) evs" "retransmit_run evs r = Some r'"
  shows "\<exists>e'. bt_get (rt_in_flight r') k = Some e' \<and> if_datagram e' = if_datagram e"
  using assms
proof (induction evs arbitrary: r e)
  case (Cons ev evs)
  then obtain r1 where r1: "retransmit_step ev r = Some r1" "retransmit_run evs r1 = Some r'"
    by (auto split: option.splits)
  have "\<not> releases k ev" using Cons.prems(3) by simp
  from retransmit_step_keeps[OF Cons.prems(1) r1(1) this Cons.prems(2)] obtain e1 where
    e1: "bt_get (rt_in_flight r1) k = Some e1" "if_datagram e1 = if_datagram e" by blast
  have "retransmitter_inv r1" using retransmit_step_inv[OF Cons.prems(1) r1(1)] by simp
  from Cons.IH[OF this e1(1) _ r1(2)] Cons.prems(3) e1(2) show ?case by simp
qed simp

definition sample_retransmitter :: retransmitter where
  "sample_retransmitter = snd (track 7 [1, 2] 0 (new_retransmitter default_retransmit_limits))"

lemma sample_retransmitter_facts:
  "retransmitter_inv sample_retransmitter"
  "bt_get (rt_in_flight sample_retransmitter) 7 = Some \<lparr>if_datagram = [1, 2], if_sent_at = 0, if_retries = 0\<rparr>"
  "rt_limits sample_retransmitter = default_retransmit_limits"
  by (simp_all add: sample_retransmitter_def retransmitter_inv_track retransmitter_inv_new)
    (simp_all add: track_def new_retransmitter_def default_retransmit_limits_def bt_get_def bt_new_def bt_len_def)

lemma unacknowledged_datagram_kept_witness:
  "\<exists>r' e'. retransmit_run [OnAck \<lparr>ranges = [(8, 9)]\<rparr> 5, OnNack \<lparr>ranges = [(0, 20)]\<rparr> 6]
      sample_retransmitter = Some r'
    \<and> bt_get (rt_in_flight r') 7 = Some e' \<and> if_datagram e' = [1, 2]"
proof -
  let ?evs = "[OnAck \<lparr>ranges = [(8, 9)]\<rparr> 5, OnNack \<lparr>ranges = [(0, 20)]\<rparr> 6]"
  obtain r1 where r1: "on_ack \<lparr>ranges = [(8, 9)]\<rparr> 5 sample_retransmitter = Some r1"
    using on_ack_None[of "\<lparr>ranges = [(8, 9)]\<rparr>" 5 sample_retransmitter]
    by (auto simp: ordered_ranges_def)
  obtain x where x: "nack_ranges [(0, 20)] 6 ([], r1) = Some x"
    using nack_ranges_None[of "[(0, 20)]" 6 "([], r1)"] by auto
  obtain r' where "retransmit_run ?evs sample_retransmitter = Some r'"
    using r1 x by (simp add: on_nack_def split: prod.splits)
  then show ?thesis
    using unacknowledged_datagram_kept[OF sample_retransmitter_facts(1,2), of ?evs r']
    by (simp add: ack_contains_def)
qed

text \<open>C24: An acknowledgement removes exactly the datagrams it covers, keeps the bounds, and
  panics exactly when one of its ranges is reversed.  If every covered datagram was sent more
  than once, the round trip estimate is left alone (Karn).\<close>

theorem acknowledgement_exact:
  assumes "retransmitter_inv r"
  shows "case on_ack a now r of
      None \<Rightarrow> \<not> ordered_ranges a
    | Some r' \<Rightarrow> ordered_ranges a \<and> retransmitter_inv r'
        \<and> (\<forall>k. bt_get (rt_in_flight r') k = (if ack_contains a k then None else bt_get (rt_in_flight r) k))
        \<and> ((\<forall>k e. ack_contains a k \<longrightarrow> bt_get (rt_in_flight r) k = Some e \<longrightarrow> if_retries e \<noteq> 0)
             \<longrightarrow> rt_rtt r' = rt_rtt r)"
proof (cases "on_ack a now r")
  case None
  then show ?thesis using on_ack_None[of a now r] by simp
next
  case (Some r')
  have "ordered_ranges a" using on_ack_None[of a now r] Some by simp
  moreover have "rt_rtt r' = rt_rtt r"
    if "\<forall>k e. ack_contains a k \<longrightarrow> bt_get (rt_in_flight r) k = Some e \<longrightarrow> if_retries e \<noteq> 0"
    using ack_ranges_karn[OF assms Some[unfolded on_ack_def]] that by simp
  ultimately show ?thesis using on_ack_spec[OF assms Some] Some by simp
qed

lemma acknowledgement_exact_witness:
  "\<exists>r'. on_ack \<lparr>ranges = [(0, 3), (7, 7)]\<rparr> 4 sample_retransmitter = Some r'
     \<and> bt_get (rt_in_flight r') 7 = None"
proof -
  have "ordered_ranges \<lparr>ranges = [(0, 3), (7, 7)]\<rparr>" by (simp add: ordered_ranges_def)
  then show ?thesis
    using acknowledgement_exact[OF sample_retransmitter_facts(1), of "\<lparr>ranges = [(0, 3), (7, 7)]\<rparr>" 4]
    by (auto simp: ack_contains_def split: option.splits)
qed

text \<open>C23: A timeout pass hands out, in sequence order, exactly the datagrams sent at least their backoff
  ago; the backoff doubles with each retry from the estimated timeout up to the ceiling.
  Those entries count one more retry and restart their clock, all others are untouched, and
  the session is dead from then on exactly when it was or some entry is over its retries.\<close>

theorem timeouts_resend_exactly_what_is_due:
  assumes "retransmitter_inv r" "rtt_timeout (rt_rtt r) = Some base"
  shows "let wait = (\<lambda>e. min (min (base * (if unat (if_retries e) < 32 then 2 ^ unat (if_retries e) else 2 ^ 32 - 1))
                            duration_max) (max_rto (rt_limits r)));
             late = (\<lambda>e. wait e \<le> now - if_sent_at e)
    in \<exists>out r'. due now r = Some (out, r')
      \<and> out = map if_datagram (filter late (bt_values (rt_in_flight r)))
      \<and> (\<forall>k. bt_get (rt_in_flight r') k = map_option
            (\<lambda>e. if late e then e\<lparr>if_retries := if_retries e + 1, if_sent_at := now\<rparr> else e)
            (bt_get (rt_in_flight r) k))
      \<and> (rt_dead r' \<longleftrightarrow> rt_dead r \<or>
           (\<exists>k e. bt_get (rt_in_flight r') k = Some e \<and> if_retries e > max_retries (rt_limits r)))"
proof -
  let ?late = "\<lambda>e. min (min (base * (if unat (if_retries e) < 32 then 2 ^ unat (if_retries e) else 2 ^ 32 - 1)) duration_max)
      (max_rto (rt_limits r)) \<le> now - if_sent_at e"
  obtain out r' where d: "due now r = Some (out, r')" using assms(2) by (simp add: due_def Let_def)
  note s = due_spec[OF assms(1) d assms(2)]
  obtain r0 where r0: "r' = check_retries r0" "rt_dead r0 = rt_dead r" "rt_limits r0 = rt_limits r"
    using d assms(2) by (auto simp: due_def Let_def)
  have "bt_ok (rt_in_flight r0)" using s(1) by (simp add: r0 retransmitter_inv_def)
  from check_retries_dead[OF this] have dead: "rt_dead r' \<longleftrightarrow> rt_dead r \<or>
      (\<exists>k e. bt_get (rt_in_flight r') k = Some e \<and> if_retries e > max_retries (rt_limits r))"
    by (simp add: r0)
  have late: "is_due base (max_rto (rt_limits r)) now = ?late"
    by (simp add: fun_eq_iff is_due_def backoff_is)
  show ?thesis unfolding Let_def
    by (intro exI[of _ out] exI[of _ r'] conjI allI d dead s(3)[unfolded late] s(4)[unfolded late resend_def])
qed

text \<open>Two datagrams in flight, sent two seconds apart; a second later only the first is due.\<close>

lemma timeouts_resend_exactly_what_is_due_witness:
  "\<exists>r'. due (3 * 10 ^ 9) (snd (track 9 [3] (2 * 10 ^ 9) sample_retransmitter)) = Some ([[1, 2]], r')
     \<and> bt_get (rt_in_flight r') 7 = Some \<lparr>if_datagram = [1, 2], if_sent_at = 3 * 10 ^ 9, if_retries = 1\<rparr>
     \<and> bt_get (rt_in_flight r') 9 = Some \<lparr>if_datagram = [3], if_sent_at = 2 * 10 ^ 9, if_retries = 0\<rparr>"
proof -
  let ?r = "snd (track 9 [3] (2 * 10 ^ 9) sample_retransmitter)"
  have inv: "retransmitter_inv ?r" using retransmitter_inv_track[OF sample_retransmitter_facts(1)] by simp
  have base: "rtt_timeout (rt_rtt ?r) = Some (2 * 10 ^ 9)" and limits: "rt_limits ?r = default_retransmit_limits"
    and flight: "rt_in_flight ?r = [(7, \<lparr>if_datagram = [1, 2], if_sent_at = 0, if_retries = 0\<rparr>),
        (9, \<lparr>if_datagram = [3], if_sent_at = 2 * 10 ^ 9, if_retries = 0\<rparr>)]"
    by (simp_all add: sample_retransmitter_def track_def new_retransmitter_def
        default_retransmit_limits_def rtt_timeout_def new_rtt_def bt_new_def bt_len_def)
  have "bt_get (rt_in_flight ?r) 7 = Some \<lparr>if_datagram = [1, 2], if_sent_at = 0, if_retries = 0\<rparr>"
    "bt_get (rt_in_flight ?r) 9 = Some \<lparr>if_datagram = [3], if_sent_at = 2 * 10 ^ 9, if_retries = 0\<rparr>"
    "bt_values (rt_in_flight ?r) = [\<lparr>if_datagram = [1, 2], if_sent_at = 0, if_retries = 0\<rparr>,
        \<lparr>if_datagram = [3], if_sent_at = 2 * 10 ^ 9, if_retries = 0\<rparr>]"
    unfolding flight by (simp_all add: bt_get_def bt_values_def)
  note here = this
  let ?wait = "\<lambda>e. min (min (2 * 10 ^ 9 * (if unat (if_retries e) < 32 then 2 ^ unat (if_retries e) else 2 ^ 32 - 1))
      duration_max) (max_rto default_retransmit_limits)"
  have scale: "min (min (2 * 10 ^ 9) duration_max) (max_rto default_retransmit_limits) = 2 * 10 ^ 9"
    by (simp add: default_retransmit_limits_def duration_max_def)
  then have wait: "?wait \<lparr>if_datagram = d, if_sent_at = t, if_retries = 0\<rparr> = 2 * 10 ^ 9" for d t by simp
  obtain out r' where r': "due (3 * 10 ^ 9) ?r = Some (out, r')"
    "out = map if_datagram (filter (\<lambda>e. ?wait e \<le> 3 * 10 ^ 9 - if_sent_at e) (bt_values (rt_in_flight ?r)))"
    "\<forall>k. bt_get (rt_in_flight r') k = map_option
        (\<lambda>e. if ?wait e \<le> 3 * 10 ^ 9 - if_sent_at e then e\<lparr>if_retries := if_retries e + 1, if_sent_at := 3 * 10 ^ 9\<rparr> else e)
        (bt_get (rt_in_flight ?r) k)"
    using timeouts_resend_exactly_what_is_due[OF inv base, of "3 * 10 ^ 9"] unfolding limits Let_def by blast
  have "out = [[1, 2]]" unfolding r'(2) here(3) using scale by simp
  moreover have "bt_get (rt_in_flight r') 7 = Some \<lparr>if_datagram = [1, 2], if_sent_at = 3 * 10 ^ 9, if_retries = 1\<rparr>"
    unfolding r'(3)[rule_format] here(1) using scale by simp
  moreover have "bt_get (rt_in_flight r') 9 = Some \<lparr>if_datagram = [3], if_sent_at = 2 * 10 ^ 9, if_retries = 0\<rparr>"
    unfolding r'(3)[rule_format] here(2) using scale by simp
  ultimately show ?thesis using r'(1) by blast
qed

text \<open>C22: A peer that never acknowledges is given up: with the floor below the ceiling, timeout
  passes at least the ceiling apart make the session dead after one pass more than the allowed
  retries.  No pass panics on the way.\<close>

theorem silent_peer_is_given_up:
  assumes "retransmitter_inv r" "min_rto (rt_limits r) \<le> max_rto (rt_limits r)"
    and "max_retries (rt_limits r) < - 1"
    and "bt_get (rt_in_flight r) k = Some e" "if_retries e \<le> max_retries (rt_limits r)"
    and "spaced (max_rto (rt_limits r)) (if_sent_at e) ts"
    and "unat (max_retries (rt_limits r)) < unat (if_retries e) + length ts"
  shows "\<exists>r'. due_all ts r = Some r' \<and> rt_dead r'"
  using assms by (rule due_all_gives_up)

lemma silent_peer_is_given_up_witness:
  "\<exists>r'. due_all (map (\<lambda>i. i * 2 * 10 ^ 9) [1..<10]) sample_retransmitter = Some r' \<and> rt_dead r'"
proof -
  have "spaced (2 * 10 ^ 9) 0 (map (\<lambda>i. i * 2 * 10 ^ 9) [1..<10])"
    by (simp add: upt_rec)
  then show ?thesis
    using silent_peer_is_given_up[OF sample_retransmitter_facts(1) _ _ sample_retransmitter_facts(2),
        of "map (\<lambda>i. i * 2 * 10 ^ 9) [1..<10]"]
    by (simp add: sample_retransmitter_facts(3)) (simp add: default_retransmit_limits_def)
qed

text \<open>However the traffic runs, a retransmitter never holds more datagrams than
  \<^verbatim>\<open>max_in_flight\<close>.\<close>

lemma in_flight_bounded:
  assumes "retransmit_run evs (new_retransmitter l) = Some r"
  shows "in_flight_count r \<le> max_in_flight l"
  using retransmit_run_inv[OF retransmitter_inv_new assms]
  by (auto simp: retransmitter_inv_def in_flight_count_def new_retransmitter_def)

text \<open>The estimate stays sane: after any samples within bounds, the smoothed round trip is
  within the same bounds, the variation does not exceed the upper one, and the timeout exists
  and lies between its floor and its ceiling.\<close>

lemma round_trip_estimate_bounded:
  assumes "ms \<noteq> []" "\<forall>m \<in> set ms. a \<le> m \<and> m \<le> b" "mn \<le> mx"
  shows "let s = fold rtt_sample ms (new_rtt mn mx) in
    (\<exists>sm. smoothed s = Some sm \<and> a \<le> sm \<and> sm \<le> b) \<and> variation s \<le> b
    \<and> (\<exists>t. rtt_timeout s = Some t \<and> mn \<le> t \<and> t \<le> mx)"
proof -
  let ?s = "fold rtt_sample ms (new_rtt mn mx)"
  have bounds: "\<exists>sm. smoothed ?s = Some sm \<and> a \<le> sm \<and> sm \<le> b \<and> variation ?s \<le> b
      \<and> rtt_min ?s = mn \<and> rtt_max ?s = mx"
    using rtt_samples_between[OF assms(2), of "new_rtt mn mx"] assms(1) by (simp add: new_rtt_def)
  then obtain t where "rtt_timeout ?s = Some t" using rtt_timeout_total[of ?s] assms(3) by auto
  then show ?thesis
    using bounds rtt_timeout_clamped[of ?s t] assms(3) by (auto simp: Let_def)
qed

end
