(* ===== verification/Order.thy ===== *)
theory Order
  imports Ordmap Wire
begin

text \<open>
  \<^verbatim>\<open>bedrock-raknet/src/order.rs\<close>: delivering reliable-ordered payloads in order and exactly
  once.  \<^verbatim>\<open>Ordering\<close> buffers payloads until the gap in front of them is filled; \<^verbatim>\<open>Dedup\<close>
  remembers which reliable indices were handled.

  The order indices of decoded frames are 24-bit (\<open>is_u24\<close>); the statements about a whole
  run of \<^verbatim>\<open>push\<close> carry that as their hypothesis.
\<close>

section \<open>Ordering\<close>

record out_of_window =
  ow_index :: u32
  ow_expected :: u32

record ordering =
  expected :: u32
  buffered :: "(u32, bytes) btree"
  window :: u32

definition new_ordering :: "u32 \<Rightarrow> ordering" where
  "new_ordering w = \<lparr>expected = 0, buffered = bt_new, window = w\<rparr>"

text \<open>The loop \<^verbatim>\<open>while let Some(next) = self.buffered.remove(&self.expected)\<close>.\<close>

function drain :: "u32 \<Rightarrow> (u32, bytes) btree \<Rightarrow> bytes list
    \<Rightarrow> bytes list \<times> u32 \<times> (u32, bytes) btree" where
  "drain e m ready =
     (case bt_get m e of
        None \<Rightarrow> (ready, e, m)
      | Some next \<Rightarrow> drain (e + 1) (bt_remove e m) (ready @ [next]))"
  by pat_completeness auto

lemma length_bt_remove_less: "bt_get m e = Some v \<Longrightarrow> length (bt_remove e m) < length m"
  by (auto simp: bt_get_def bt_remove_def dest!: map_of_SomeD intro!: length_filter_less)

termination drain
  by (relation "measure (\<lambda>(e, m, ready). length m)") (auto simp: length_bt_remove_less)

declare drain.simps [simp del]

definition ordering_push :: "u32 \<Rightarrow> bytes \<Rightarrow> ordering \<Rightarrow> (out_of_window + bytes list) \<times> ordering" where
  "ordering_push index payload s =
     (if index < expected s then (Inr [], s)
      else if word_saturating_sub index (expected s) \<ge> window s then
        (Inl \<lparr>ow_index = index, ow_expected = expected s\<rparr>, s)
      else
        (case drain (expected s) (bt_insert index payload (buffered s)) [] of
           (ready, e, m) \<Rightarrow> (Inr ready, s\<lparr>expected := e, buffered := m\<rparr>)))"

section \<open>Dedup\<close>

record dedup =
  seen :: "u32 set"
  floor_index :: u32
  dd_window :: u32

definition new_dedup :: "u32 \<Rightarrow> dedup" where
  "new_dedup w = \<lparr>seen = {}, floor_index = 0, dd_window = w\<rparr>"

text \<open>
  \<^verbatim>\<open>seen\<close> is a \<^verbatim>\<open>BTreeSet\<close>: its last element is the maximum, and \<^verbatim>\<open>split_off\<close> keeps what is
  not below the new floor.
\<close>

definition dedup_accept :: "u32 \<Rightarrow> dedup \<Rightarrow> bool \<times> dedup" where
  "dedup_accept index d =
     (if index < floor_index d then (False, d)
      else if index \<in> seen d then (False, d)
      else
        let s = insert index (seen d);
            highest = Max s;
            new_floor = word_saturating_sub highest (dd_window d)
        in if new_floor > floor_index d
           then (True, d\<lparr>seen := Set.filter (\<lambda>i. new_floor \<le> i) s, floor_index := new_floor\<rparr>)
           else (True, d\<lparr>seen := s\<rparr>))"

section \<open>Ordering: the invariant\<close>

text \<open>
  Everything held is ahead of the payload waited for, inside the window, and 24-bit.
\<close>

definition ordering_inv :: "ordering \<Rightarrow> bool" where
  "ordering_inv s \<longleftrightarrow> bt_ok (buffered s) \<and> unat (expected s) \<le> 2 ^ 24
     \<and> (\<forall>k \<in> dom (bt_get (buffered s)). is_u24 k \<and> unat (expected s) < unat k
          \<and> unat k < unat (expected s) + unat (window s))"

lemma ordering_invD:
  assumes "ordering_inv s" "bt_get (buffered s) k = Some p"
  shows "is_u24 k" "unat (expected s) < unat k" "unat k < unat (expected s) + unat (window s)"
  using assms unfolding ordering_inv_def by blast+

lemma unat_suc_u24: "unat (e :: u32) \<le> 2 ^ 24 \<Longrightarrow> unat (e + 1) = Suc (unat e)"
  by (simp add: unat_word_ariths)

text \<open>What the loop does: it takes the consecutive run of keys that starts at \<open>e\<close>.\<close>

lemma drain_spec:
  assumes "bt_ok m" "\<forall>k \<in> dom (bt_get m). is_u24 k \<and> unat e \<le> unat k" "unat e \<le> 2 ^ 24"
    and "drain e m ready = (out, e', m')"
  shows "bt_ok m' \<and> unat e \<le> unat e' \<and> unat e' \<le> 2 ^ 24 \<and> bt_get m e' = None
    \<and> (\<forall>i. unat e \<le> i \<and> i < unat e' \<longrightarrow> bt_get m (of_nat i) \<noteq> None)
    \<and> out = ready @ map (\<lambda>i. the (bt_get m (of_nat i))) [unat e..<unat e']
    \<and> (\<forall>k. bt_get m' k = (if unat k < unat e' then None else bt_get m k))"
  using assms
proof (induction e m ready arbitrary: out e' m' rule: drain.induct)
  case (1 e m ready)
  show ?case
  proof (cases "bt_get m e")
    case None
    have get: "\<forall>k. bt_get m k = (if unat k < unat e then None else bt_get m k)"
    proof
      fix k show "bt_get m k = (if unat k < unat e then None else bt_get m k)"
      proof (cases "bt_get m k")
        case (Some v)
        then have "k \<in> dom (bt_get m)" by blast
        then have "unat e \<le> unat k" using 1(3) by blast
        then show ?thesis by simp
      qed simp
    qed
    have eqs: "out = ready" "e' = e" "m' = m"
      using 1(5) None by (simp_all add: drain.simps[of e])
    show ?thesis
      unfolding eqs
    proof (intro conjI)
      show "bt_ok m" "unat e \<le> 2 ^ 24" "bt_get m e = None" using 1(2,4) None by blast+
      show "\<forall>k. bt_get m k = (if unat k < unat e then None else bt_get m k)" by (rule get)
    qed auto
  next
    case (Some nxt)
    have ok: "bt_ok (bt_remove e m)" using 1(2) by (rule bt.invar_del)
    have get: "bt_get (bt_remove e m) = (bt_get m)(e := None)" using 1(2) by (rule bt.get_del)
    have e24: "is_u24 e" using 1(3) Some by auto
    have suc: "unat (e + 1) = Suc (unat e)" using 1(4) by (rule unat_suc_u24)
    have above: "\<forall>k \<in> dom (bt_get (bt_remove e m)). is_u24 k \<and> unat (e + 1) \<le> unat k"
    proof
      fix k assume k: "k \<in> dom (bt_get (bt_remove e m))"
      then have "k \<noteq> e" "k \<in> dom (bt_get m)" by (auto simp: get split: if_splits)
      then have "unat k \<noteq> unat e" "is_u24 k" "unat e \<le> unat k"
        using 1(3) by (auto simp: word_unat_eq_iff)
      then show "is_u24 k \<and> unat (e + 1) \<le> unat k" by (simp add: suc)
    qed
    have rec: "drain (e + 1) (bt_remove e m) (ready @ [nxt]) = (out, e', m')"
      using 1(5) Some by (simp add: drain.simps[of e])
    have lim: "unat (e + 1) \<le> 2 ^ 24" using e24 by (simp add: suc is_u24_def)
    note IH = 1(1)[OF Some ok above lim rec]
    have in_range: "bt_get (bt_remove e m) (of_nat i) = bt_get m (of_nat i)"
      if "Suc (unat e) \<le> i" "i < unat e'" for i
    proof -
      have "i < 2 ^ LENGTH(32)" using that IH by simp
      then have "unat (of_nat i :: u32) = i" by (rule unat_of_nat_small)
      then have "(of_nat i :: u32) \<noteq> e" using that(1) by auto
      then show ?thesis by (simp add: get)
    qed
    have e': "unat e < unat e'" using IH suc by simp
    have "map (\<lambda>i. the (bt_get (bt_remove e m) (of_nat i))) [Suc (unat e)..<unat e']
        = map (\<lambda>i. the (bt_get m (of_nat i))) [Suc (unat e)..<unat e']"
      using in_range by (intro map_cong) auto
    moreover have "[unat e..<unat e'] = unat e # [Suc (unat e)..<unat e']"
      using e' by (simp add: upt_conv_Cons)
    ultimately have out: "out = ready @ map (\<lambda>i. the (bt_get m (of_nat i))) [unat e..<unat e']"
      using IH Some by (simp add: suc)
    have ne: "e' \<noteq> e" using e' by auto
    have keys: "bt_get m (of_nat i) \<noteq> None" if "unat e \<le> i" "i < unat e'" for i
    proof (cases "i = unat e")
      case True
      then show ?thesis using Some by simp
    next
      case False
      then have "Suc (unat e) \<le> i" using that(1) by simp
      then have "bt_get (bt_remove e m) (of_nat i) \<noteq> None" using IH suc that(2) by metis
      then show ?thesis using in_range \<open>Suc (unat e) \<le> i\<close> that(2) by metis
    qed
    have m': "bt_get m' k = (if unat k < unat e' then None else bt_get m k)" for k
      using IH e' by (cases "k = e") (auto simp: get)
    have none: "bt_get m e' = None" using IH ne by (simp add: get)
    show ?thesis using IH out keys m' none e' by auto
  qed
qed

lemma ordering_inv_new: "ordering_inv (new_ordering w)"
  by (simp add: ordering_inv_def new_ordering_def)

lemma push_window_arith:
  "\<not> index < e \<Longrightarrow> \<not> word_saturating_sub index e \<ge> w
     \<Longrightarrow> unat e \<le> unat index \<and> unat index < unat e + unat w"
  by (auto simp: word_le_nat_alt word_less_nat_alt unat_word_saturating_sub)

text \<open>A push that is taken: what is delivered, and what is held afterwards.\<close>

lemma push_taken:
  fixes payload :: bytes
  assumes inv: "ordering_inv s" and idx: "is_u24 index" "\<not> index < expected s"
    and win: "\<not> word_saturating_sub index (expected s) \<ge> window s"
  defines "m \<equiv> bt_insert index payload (buffered s)"
  shows "\<exists>e' m'. ordering_push index payload s
      = (Inr (map (\<lambda>i. the (bt_get m (of_nat i))) [unat (expected s)..<unat e']),
         s\<lparr>expected := e', buffered := m'\<rparr>)
    \<and> ordering_inv (s\<lparr>expected := e', buffered := m'\<rparr>) \<and> unat (expected s) \<le> unat e'
    \<and> (\<forall>i. unat (expected s) \<le> i \<and> i < unat e' \<longrightarrow> bt_get m (of_nat i) \<noteq> None)
    \<and> (\<forall>k. bt_get m' k = (if unat k < unat e' then None else bt_get m k))
    \<and> bt_get m e' = None"
proof -
  let ?e = "expected s"
  note ar = push_window_arith[OF idx(2) win]
  have ok: "bt_ok m" using inv by (simp add: m_def ordering_inv_def bt.invar_ins)
  have get: "bt_get m = (bt_get (buffered s))(index \<mapsto> payload)"
    using inv by (simp add: m_def ordering_inv_def bt.get_ins)
  have keys: "\<forall>k \<in> dom (bt_get m). is_u24 k \<and> unat ?e \<le> unat k \<and> unat k < unat ?e + unat (window s)"
  proof
    fix k assume "k \<in> dom (bt_get m)"
    then consider "k = index" | "k \<in> dom (bt_get (buffered s))" by (auto simp: get split: if_splits)
    then show "is_u24 k \<and> unat ?e \<le> unat k \<and> unat k < unat ?e + unat (window s)"
      using inv idx(1) ar by cases (auto dest: ordering_invD[OF inv])
  qed
  obtain out e' m' where d: "drain ?e m [] = (out, e', m')" by (metis prod_cases3)
  have "\<forall>k \<in> dom (bt_get m). is_u24 k \<and> unat ?e \<le> unat k" "unat ?e \<le> 2 ^ 24"
    using keys inv by (auto simp: ordering_inv_def)
  note sp = drain_spec[OF ok this d]
  have "ordering_inv (s\<lparr>expected := e', buffered := m'\<rparr>)"
    unfolding ordering_inv_def
  proof (intro conjI ballI)
    show "bt_ok (buffered (s\<lparr>expected := e', buffered := m'\<rparr>))" using sp by simp
    show "unat (expected (s\<lparr>expected := e', buffered := m'\<rparr>)) \<le> 2 ^ 24" using sp by simp
    fix k assume "k \<in> dom (bt_get (buffered (s\<lparr>expected := e', buffered := m'\<rparr>)))"
    then have k: "unat e' \<le> unat k" "k \<in> dom (bt_get m)" using sp by (auto simp: domIff split: if_splits)
    moreover have "k \<noteq> e'" using k(2) sp by auto
    then have "unat k \<noteq> unat e'" by (simp add: word_unat_eq_iff)
    ultimately have new: "is_u24 k" "unat e' < unat k" "unat k < unat e' + unat (window s)"
      using bspec[OF keys k(2)] sp by auto
    then show "is_u24 k" "unat (expected (s\<lparr>expected := e', buffered := m'\<rparr>)) < unat k"
      "unat k < unat (expected (s\<lparr>expected := e', buffered := m'\<rparr>))
        + unat (window (s\<lparr>expected := e', buffered := m'\<rparr>))" by simp_all
  qed
  then show ?thesis
    using sp d idx(2) win by (intro exI[of _ e'] exI[of _ m']) (auto simp: ordering_push_def m_def)
qed

lemma ordering_inv_push:
  assumes "ordering_inv s" "is_u24 index"
  shows "ordering_inv (snd (ordering_push index payload s))"
proof (cases "index < expected s \<or> word_saturating_sub index (expected s) \<ge> window s")
  case True
  then show ?thesis using assms by (auto simp: ordering_push_def)
next
  case False
  then show ?thesis using push_taken[OF assms, of payload] by auto
qed

lemma ordering_push_window [simp]: "window (snd (ordering_push index payload s)) = window s"
  by (simp add: ordering_push_def split: prod.splits)

text \<open>The buffer never holds as many payloads as the window is wide.\<close>

lemma ordering_buffer_bound:
  assumes "ordering_inv s"
  shows "bt_len (buffered s) \<le> unat (window s) - 1"
proof -
  let ?D = "dom (bt_get (buffered s))"
  have fin: "finite ?D" using assms by (simp add: ordering_inv_def bt.finite_dom)
  have "unat ` ?D \<subseteq> {Suc (unat (expected s))..<unat (expected s) + unat (window s)}"
  proof
    fix n assume "n \<in> unat ` ?D"
    then obtain k where "k \<in> ?D" "n = unat k" by blast
    then show "n \<in> {Suc (unat (expected s))..<unat (expected s) + unat (window s)}"
      using ordering_invD[OF assms] by (fastforce simp: Suc_le_eq)
  qed
  then have "card (unat ` ?D) \<le> unat (window s) - 1"
    using card_mono[of "{Suc (unat (expected s))..<unat (expected s) + unat (window s)}"] by simp
  moreover have "card (unat ` ?D) = card ?D"
    by (rule card_image) (simp add: inj_on_def word_unat_eq_iff)
  ultimately show ?thesis
    using assms by (simp add: bt_len_card ordering_inv_def)
qed

section \<open>Ordering: a whole run\<close>

text \<open>
  A run of pushes, as a session makes them: a refused push leaves the state alone.  The
  result is everything delivered, in the order of delivery, and whether any push was
  refused.
\<close>

fun push_all :: "(u32 \<times> bytes) list \<Rightarrow> ordering \<Rightarrow> bytes list \<times> bool \<times> ordering" where
  "push_all [] s = ([], False, s)"
| "push_all ((i, p) # ps) s =
     (case ordering_push i p s of
        (Inl e, s') \<Rightarrow> (case push_all ps s' of (out, refused, s'') \<Rightarrow> (out, True, s''))
      | (Inr ready, s') \<Rightarrow> (case push_all ps s' of (out, refused, s'') \<Rightarrow> (ready @ out, refused, s'')))"

text \<open>
  The relation between the history of a run and the state: \<open>P\<close> holds the pushes made so far,
  \<open>A\<close> the indices of those not refused, \<open>out\<close> what was delivered.
\<close>

definition run_inv :: "(u32 \<times> bytes) set \<Rightarrow> u32 set \<Rightarrow> bytes list \<Rightarrow> ordering \<Rightarrow> bool" where
  "run_inv P A out s \<longleftrightarrow> ordering_inv s \<and> length out = unat (expected s)
     \<and> (\<forall>k < length out. (of_nat k, out ! k) \<in> P)
     \<and> (\<forall>k p. bt_get (buffered s) k = Some p \<longrightarrow> (k, p) \<in> P)
     \<and> (\<forall>k \<in> A. unat k < length out \<or> bt_get (buffered s) k \<noteq> None)"

lemma run_inv_push:
  assumes inv: "run_inv P A out s" and idx: "is_u24 i"
    and push: "ordering_push i p s = (res, s')"
  shows "case res of
      Inl e \<Rightarrow> run_inv (insert (i, p) P) A out s'
    | Inr ready \<Rightarrow> run_inv (insert (i, p) P) (insert i A) (out @ ready) s'"
proof (cases "i < expected s \<or> word_saturating_sub i (expected s) \<ge> window s")
  case True
  then show ?thesis
    using inv push
    by (auto simp: run_inv_def ordering_push_def word_less_nat_alt split: if_splits)
next
  case False
  let ?m = "bt_insert i p (buffered s)"
  have oinv: "ordering_inv s" using inv by (simp add: run_inv_def)
  from False push_taken[OF oinv idx, of p] obtain e' m' where
    res: "res = Inr (map (\<lambda>i. the (bt_get ?m (of_nat i))) [unat (expected s)..<unat e'])"
    and s': "s' = s\<lparr>expected := e', buffered := m'\<rparr>" and inv': "ordering_inv s'"
    and le: "unat (expected s) \<le> unat e'"
    and run: "\<forall>i. unat (expected s) \<le> i \<and> i < unat e' \<longrightarrow> bt_get ?m (of_nat i) \<noteq> None"
    and m': "\<forall>k. bt_get m' k = (if unat k < unat e' then None else bt_get ?m k)"
    using push by auto
  have get: "bt_get ?m = (bt_get (buffered s))(i \<mapsto> p)"
    using oinv by (simp add: ordering_inv_def bt.get_ins)
  have inP: "(k, v) \<in> insert (i, p) P" if "bt_get ?m k = Some v" for k v
    using that inv by (auto simp: get run_inv_def split: if_splits)
  let ?ready = "map (\<lambda>i. the (bt_get ?m (of_nat i))) [unat (expected s)..<unat e']"
  have len: "length (out @ ?ready) = unat e'" using inv le by (simp add: run_inv_def)
  have nth: "(of_nat k, (out @ ?ready) ! k) \<in> insert (i, p) P" if "k < unat e'" for k
  proof (cases "k < length out")
    case True
    then show ?thesis using inv by (simp add: run_inv_def nth_append)
  next
    case False
    then have k: "unat (expected s) \<le> k" using inv by (simp add: run_inv_def)
    then obtain v where v: "bt_get ?m (of_nat k) = Some v" using run \<open>k < unat e'\<close> by blast
    have "(out @ ?ready) ! k = v"
      using False k v \<open>k < unat e'\<close> inv by (simp add: nth_append run_inv_def)
    with inP[OF v] show ?thesis by simp
  qed
  have held: "unat k < unat e' \<or> bt_get m' k \<noteq> None" if "k \<in> insert i A" for k
  proof (cases "k = i")
    case True
    then show ?thesis using m' get by auto
  next
    case False
    then have "unat k < unat (expected s) \<or> bt_get (buffered s) k \<noteq> None"
      using that inv by (auto simp: run_inv_def)
    then show ?thesis using m' get le False by auto
  qed
  have "run_inv (insert (i, p) P) (insert i A) (out @ ?ready) s'"
    unfolding run_inv_def
  proof (intro conjI)
    show "ordering_inv s'" by (rule inv')
    show "length (out @ ?ready) = unat (expected s')" using len by (simp add: s')
    show "\<forall>k < length (out @ ?ready). (of_nat k, (out @ ?ready) ! k) \<in> insert (i, p) P"
      using nth len by simp
    show "\<forall>k v. bt_get (buffered s') k = Some v \<longrightarrow> (k, v) \<in> insert (i, p) P"
      using m' inP by (auto simp: s' split: if_splits)
    show "\<forall>k \<in> insert i A. unat k < length (out @ ?ready) \<or> bt_get (buffered s') k \<noteq> None"
      using held len by (simp add: s')
  qed
  then show ?thesis by (simp add: res)
qed

lemma run_inv_push_all:
  assumes "run_inv P A out s" "\<forall>(i, p) \<in> set ps. is_u24 i" "push_all ps s = (out', refused, s')"
  shows "\<exists>A'. run_inv (P \<union> set ps) A' (out @ out') s' \<and> A \<subseteq> A'
    \<and> (\<not> refused \<longrightarrow> A' = A \<union> fst ` set ps)"
  using assms
proof (induction ps s arbitrary: P A out out' refused s' rule: push_all.induct)
  case (1 s)
  then show ?case by auto
next
  case (2 i p ps s)
  obtain res s1 where push: "ordering_push i p s = (res, s1)" by fastforce
  obtain o2 r2 s2 where rest: "push_all ps s1 = (o2, r2, s2)" by (metis prod_cases3)
  have idx: "is_u24 i" "\<forall>(i, p) \<in> set ps. is_u24 i" using 2(4) by auto
  note step = run_inv_push[OF 2(3) idx(1) push]
  show ?case
  proof (cases res)
    case (Inl e)
    then have "run_inv (insert (i, p) P) A out s1" using step by simp
    from 2(1)[OF push[symmetric] Inl this idx(2) rest] 2(5) push rest Inl
    show ?thesis by auto
  next
    case (Inr ready)
    then have "run_inv (insert (i, p) P) (insert i A) (out @ ready) s1" using step by simp
    from 2(2)[OF push[symmetric] Inr this idx(2) rest] 2(5) push rest Inr
    show ?thesis by auto
  qed
qed

lemma run_inv_start: "run_inv {} {} [] (new_ordering w)"
  by (simp add: run_inv_def ordering_inv_new) (simp add: new_ordering_def)

section \<open>Dedup: refinement of the set of accepted indices\<close>

text \<open>
  The abstract state is the set \<open>H\<close> of every index ever accepted.  The floor trails the
  highest one by the window; what is remembered is what is not below the floor.
\<close>

definition dedup_floor :: "u32 \<Rightarrow> u32 set \<Rightarrow> u32" where
  "dedup_floor w H = (if H = {} then 0 else word_saturating_sub (Max H) w)"

definition dedup_abs :: "u32 set \<Rightarrow> dedup \<Rightarrow> bool" where
  "dedup_abs H d \<longleftrightarrow> finite H \<and> floor_index d = dedup_floor (dd_window d) H
     \<and> seen d = {i \<in> H. floor_index d \<le> i}"

lemma dedup_abs_new: "dedup_abs {} (new_dedup w)"
  by (simp add: dedup_abs_def new_dedup_def dedup_floor_def)

lemma word_saturating_sub_mono: "a \<le> b \<Longrightarrow> word_saturating_sub a w \<le> word_saturating_sub b w"
  by (simp add: word_le_nat_alt unat_word_saturating_sub)

lemma word_saturating_sub_le: "word_saturating_sub a w \<le> a"
  by (simp add: word_le_nat_alt unat_word_saturating_sub)

text \<open>
  \<^verbatim>\<open>accept\<close> answers whether the index is new and not below the floor, and records it.
\<close>

lemma dedup_accept_refines:
  assumes abs: "dedup_abs H d"
  shows "fst (dedup_accept i d) \<longleftrightarrow> i \<notin> H \<and> dedup_floor (dd_window d) H \<le> i"
    and "dedup_abs (if fst (dedup_accept i d) then insert i H else H) (snd (dedup_accept i d))"
    and "dd_window (snd (dedup_accept i d)) = dd_window d"
proof -
  let ?w = "dd_window d" let ?f = "floor_index d"
  have fin: "finite H" and f: "?f = dedup_floor ?w H" and s: "seen d = {j \<in> H. ?f \<le> j}"
    using abs by (auto simp: dedup_abs_def)
  show "fst (dedup_accept i d) \<longleftrightarrow> i \<notin> H \<and> dedup_floor ?w H \<le> i"
    by (auto simp: dedup_accept_def Let_def s simp flip: f)
  show "dd_window (snd (dedup_accept i d)) = ?w"
    by (simp add: dedup_accept_def Let_def)
  show "dedup_abs (if fst (dedup_accept i d) then insert i H else H) (snd (dedup_accept i d))"
  proof (cases "i < ?f \<or> i \<in> seen d")
    case True
    then show ?thesis using abs by (auto simp: dedup_accept_def)
  next
    case False
    then have new: "i \<notin> H" "?f \<le> i" by (auto simp: s)
    have max_eq: "Max (insert i (seen d)) = Max (insert i H)"
    proof (cases "H = {}")
      case True
      then show ?thesis by (simp add: s)
    next
      case ne: False
      have mx: "Max H \<in> seen d"
        using fin ne by (simp add: s f dedup_floor_def word_saturating_sub_le)
      have "seen d \<subseteq> H" by (auto simp: s)
      then have "Max (seen d) = Max H"
        using fin ne mx by (metis Max_ge Max_mono antisym empty_iff finite_subset)
      moreover have "finite (seen d)" using fin by (simp add: s)
      ultimately show ?thesis using fin ne mx by (metis Max_insert empty_iff)
    qed
    let ?nf = "word_saturating_sub (Max (insert i H)) ?w"
    have nf: "dedup_floor ?w (insert i H) = ?nf" by (simp add: dedup_floor_def)
    have ge: "?f \<le> ?nf"
    proof (cases "H = {}")
      case True
      then show ?thesis by (simp add: f dedup_floor_def)
    next
      case False
      then have "Max H \<le> Max (insert i H)" using fin by (intro Max_mono) auto
      then show ?thesis using False by (simp add: f dedup_floor_def word_saturating_sub_mono)
    qed
    show ?thesis
    proof (cases "?nf > ?f")
      case True
      have "Set.filter (\<lambda>j. ?nf \<le> j) (insert i (seen d)) = {j \<in> insert i H. ?nf \<le> j}"
        using ge by (auto simp: s)
      then show ?thesis
        using False True fin nf max_eq by (auto simp: dedup_accept_def Let_def dedup_abs_def)
    next
      case stay: False
      then have eq: "?nf = ?f" using ge by simp
      have "insert i (seen d) = {j \<in> insert i H. ?f \<le> j}" using new by (auto simp: s)
      then show ?thesis
        using False stay fin nf max_eq eq by (auto simp: dedup_accept_def Let_def dedup_abs_def)
    qed
  qed
qed

text \<open>At most \<open>window + 1\<close> indices are remembered.\<close>

lemma dedup_tracked_bound:
  assumes "dedup_abs H d"
  shows "card (seen d) \<le> unat (dd_window d) + 1"
proof (cases "H = {}")
  case True
  then show ?thesis using assms by (simp add: dedup_abs_def)
next
  case False
  have "unat ` seen d \<subseteq> {unat (Max H) - unat (dd_window d)..unat (Max H)}"
  proof
    fix n assume "n \<in> unat ` seen d"
    then obtain i where i: "i \<in> seen d" "n = unat i" by blast
    then have "i \<in> H" "word_saturating_sub (Max H) (dd_window d) \<le> i"
      using assms False by (auto simp: dedup_abs_def dedup_floor_def)
    moreover from this(1) have "i \<le> Max H" using assms by (simp add: dedup_abs_def)
    ultimately show "n \<in> {unat (Max H) - unat (dd_window d)..unat (Max H)}"
      by (simp add: i(2) word_le_nat_alt unat_word_saturating_sub)
  qed
  then have "card (unat ` seen d) \<le> card {unat (Max H) - unat (dd_window d)..unat (Max H)}"
    by (intro card_mono) simp_all
  then have "card (unat ` seen d) \<le> unat (dd_window d) + 1" by simp
  moreover have "card (unat ` seen d) = card (seen d)"
    by (rule card_image) (simp add: inj_on_def word_unat_eq_iff)
  ultimately show ?thesis by simp
qed

section \<open>Accepting at most once\<close>

text \<open>
  The contract a session relies on: an index that was accepted is refused from then on.
  Any filter with these laws accepts an index at most once in a run.
\<close>

locale accept_once =
  fixes accept :: "'i \<Rightarrow> 's \<Rightarrow> bool \<times> 's"
    and good :: "'s \<Rightarrow> bool"
  assumes good_accept: "good s \<Longrightarrow> good (snd (accept i s))"
    and refused_after: "good s \<Longrightarrow> \<not> fst (accept i (snd (accept i s)))"
    and refused_stays: "good s \<Longrightarrow> \<not> fst (accept i s) \<Longrightarrow> \<not> fst (accept i (snd (accept j s)))"
begin

fun accept_all :: "'i list \<Rightarrow> 's \<Rightarrow> 'i list" where
  "accept_all [] s = []"
| "accept_all (i # is) s = (if fst (accept i s) then [i] else []) @ accept_all is (snd (accept i s))"

lemma refused_forever: "good s \<Longrightarrow> \<not> fst (accept i s) \<Longrightarrow> i \<notin> set (accept_all is s)"
proof (induction "is" arbitrary: s)
  case Nil
  then show ?case by simp
next
  case (Cons j js)
  then show ?case by (auto simp: good_accept refused_stays)
qed

lemma accepted_distinct: "good s \<Longrightarrow> distinct (accept_all is s)"
proof (induction "is" arbitrary: s)
  case Nil
  then show ?case by simp
next
  case (Cons i js)
  then show ?case by (auto simp: good_accept refused_after refused_forever)
qed

end

definition dedup_good :: "dedup \<Rightarrow> bool" where
  "dedup_good d \<longleftrightarrow> (\<exists>H. dedup_abs H d)"

interpretation dedup: accept_once dedup_accept dedup_good
proof unfold_locales
  fix d :: dedup and i j :: u32
  assume "dedup_good d"
  then obtain H where H: "dedup_abs H d" by (auto simp: dedup_good_def)
  note r = dedup_accept_refines[OF H]
  show "dedup_good (snd (dedup_accept i d))"
    using r(2)[of i] by (auto simp: dedup_good_def)
  show "\<not> fst (dedup_accept i (snd (dedup_accept i d)))"
    using dedup_accept_refines(1)[OF r(2)[of i], of i] r(1)[of i] r(3)[of i]
    by (auto split: if_splits)
  assume no: "\<not> fst (dedup_accept i d)"
  have mono: "dedup_floor w G \<le> dedup_floor w (insert j G)" if "finite G" for w G
    using that by (cases "G = {}") (auto simp: dedup_floor_def intro!: word_saturating_sub_mono)
  show "\<not> fst (dedup_accept i (snd (dedup_accept j d)))"
  proof
    assume yes: "fst (dedup_accept i (snd (dedup_accept j d)))"
    let ?H' = "if fst (dedup_accept j d) then insert j H else H"
    from dedup_accept_refines(1)[OF r(2)[of j], of i] yes
    have "i \<notin> ?H'" "dedup_floor (dd_window d) ?H' \<le> i" by (auto simp: r(3))
    moreover have "dedup_floor (dd_window d) H \<le> dedup_floor (dd_window d) ?H'"
      using mono H by (simp add: dedup_abs_def)
    ultimately show False using no r(1)[of i] by (auto split: if_splits)
  qed
qed

lemma dedup_good_new [simp]: "dedup_good (new_dedup w)"
  using dedup_abs_new by (auto simp: dedup_good_def)

section \<open>Properties\<close>

text \<open>C20: Ordering delivers in order, exactly once, and makes nothing up: after any run of pushes
  the payloads delivered so far are, position by position, ones that were pushed under index
  0, 1, 2 and so on.  If no push was refused and every index below \<open>n\<close> was pushed, at least \<open>n\<close>
  payloads are out.  Never as many as \<^verbatim>\<open>window\<close> are held back.\<close>

theorem ordering_run_in_order_exactly_once:
  assumes "\<forall>(i, p) \<in> set ps. is_u24 i" "push_all ps (new_ordering w) = (out, refused, s)"
  shows "length out = unat (expected s)
    \<and> (\<forall>k < length out. (of_nat k, out ! k) \<in> set ps)
    \<and> (\<not> refused \<longrightarrow> (\<forall>k < n. of_nat k \<in> fst ` set ps) \<longrightarrow> n \<le> length out)
    \<and> bt_len (buffered s) \<le> unat w - 1"
proof -
  obtain A where run: "run_inv (set ps) A out s" and A: "\<not> refused \<longrightarrow> A = fst ` set ps"
    using run_inv_push_all[OF run_inv_start assms] by auto
  have inv: "ordering_inv s" and len: "length out = unat (expected s)" using run by (simp_all add: run_inv_def)
  have "window s = w"
  proof -
    have "window (snd (snd (push_all qs t))) = window t" for qs t
    proof (induction qs t rule: push_all.induct)
      case (2 i p qs t)
      show ?case
        using 2 ordering_push_window[of i p t] by (auto split: prod.splits sum.splits simp del: ordering_push_window)
    qed simp
    from this[of ps "new_ordering w"] show ?thesis using assms(2) by (simp add: new_ordering_def)
  qed
  moreover have "n \<le> length out" if "\<not> refused" "\<forall>k < n. of_nat k \<in> fst ` set ps"
  proof (rule ccontr)
    assume "\<not> n \<le> length out"
    then have "of_nat (length out) \<in> A" using that A by simp
    moreover have e: "(of_nat (length out) :: u32) = expected s" using len by simp
    ultimately have "bt_get (buffered s) (expected s) \<noteq> None" using run len by (auto simp: run_inv_def)
    then show False using ordering_invD(2)[OF inv, of "expected s"] by auto
  qed
  ultimately show ?thesis
    using run len ordering_buffer_bound[OF inv] by (simp add: run_inv_def)
qed

lemma ordering_run_in_order_exactly_once_witness:
  "\<exists>out refused s. push_all [(1, [11]), (0, [10]), (1, [12]), (2, [13])] (new_ordering 4) = (out, refused, s)
    \<and> length out = unat (expected s) \<and> (3 \<le> length out \<or> refused)"
proof -
  let ?ps = "[(1, [11]), (0, [10]), (1, [12]), (2, [13])] :: (u32 \<times> bytes) list"
  obtain out refused s where run: "push_all ?ps (new_ordering 4) = (out, refused, s)" by (metis prod_cases3)
  have "\<forall>k < 3. (of_nat k :: u32) \<in> fst ` set ?ps"
    by (auto simp: less_Suc_eq numeral_3_eq_3)
  then show ?thesis
    using ordering_run_in_order_exactly_once[OF _ run, of 3] run by (auto simp: is_u24_def)
qed

text \<open>C21: Duplicate detection is exact inside its window: when \<open>H\<close> is the set of indices accepted so
  far, an index is accepted exactly when it is not in \<open>H\<close> and not more than the window below the
  highest one; the acceptance is then part of the history, and at most \<open>window + 1\<close> indices are
  remembered.\<close>

theorem dedup_exact_within_window:
  assumes "dedup_abs H d"
  shows "(fst (dedup_accept i d) \<longleftrightarrow>
      i \<notin> H \<and> (H \<noteq> {} \<longrightarrow> unat (Max H) - unat (dd_window d) \<le> unat i))
    \<and> dedup_abs (if fst (dedup_accept i d) then insert i H else H) (snd (dedup_accept i d))
    \<and> card (seen d) \<le> unat (dd_window d) + 1"
  using dedup_accept_refines(1,2)[OF assms, of i] dedup_tracked_bound[OF assms]
  by (auto simp: dedup_floor_def word_le_nat_alt unat_word_saturating_sub)

lemma dedup_exact_within_window_witness:
  "fst (dedup_accept 5 (snd (dedup_accept 9 (new_dedup 4)))) \<and> \<not> fst (dedup_accept 4 (snd (dedup_accept 9 (new_dedup 4))))"
proof -
  have "dedup_abs {9} (snd (dedup_accept 9 (new_dedup 4)))" "dd_window (snd (dedup_accept 9 (new_dedup 4))) = 4"
    using dedup_accept_refines[OF dedup_abs_new[of 4], of 9] by (simp_all add: dedup_floor_def new_dedup_def)
  then show ?thesis
    using dedup_exact_within_window[of "{9}" "snd (dedup_accept 9 (new_dedup 4))" 5]
      dedup_exact_within_window[of "{9}" "snd (dedup_accept 9 (new_dedup 4))" 4] by simp
qed

text \<open>No reliable index is accepted twice, whatever sequence of indices arrives.\<close>

lemma dedup_accepts_at_most_once: "distinct (dedup.accept_all indices (new_dedup w))"
  by (rule dedup.accepted_distinct) simp

end
