(* ===== verification/Online.thy ===== *)
theory Online
  imports Address
begin

text \<open>
  \<^verbatim>\<open>bedrock-raknet/src/online.rs\<close>: the packets of the handshake inside an open connection.
  The number of address slots is not on the wire; they are read until only the two trailing
  timestamps are left.
\<close>

definition id_connected_ping :: u8 where "id_connected_ping = 0x00"
definition id_connected_pong :: u8 where "id_connected_pong = 0x03"
definition id_connection_request :: u8 where "id_connection_request = 0x09"
definition id_connection_request_accepted :: u8 where "id_connection_request_accepted = 0x10"
definition id_new_incoming_connection :: u8 where "id_new_incoming_connection = 0x13"
definition id_disconnect :: u8 where "id_disconnect = 0x15"

lemmas online_ids = id_connected_ping_def id_connected_pong_def id_connection_request_def
  id_connection_request_accepted_def id_new_incoming_connection_def id_disconnect_def

definition system_address_count :: nat where
  "system_address_count = 20"

definition trailing_timestamps :: nat where
  "trailing_timestamps = 16"

datatype online_error =
    OnlineTruncated decode_error
  | OnlineUnexpectedId u8 u8
  | OnlineAddress address_error

definition online_expect :: "u8 \<Rightarrow> (online_error, unit) rd" where
  "online_expect i =
     rd_bind (rd_err OnlineTruncated read_u8) (\<lambda>found.
       if found = i then rd_return () else rd_fail (OnlineUnexpectedId i found))"

definition encode_connection_request :: "i64 \<Rightarrow> i64 \<Rightarrow> bytes" where
  "encode_connection_request client_guid time =
     (let w = new_writer;
          w = write_u8 id_connection_request w;
          w = write_i64 client_guid w;
          w = write_i64 time w
      in write_u8 0 w)"

record connection_request_accepted =
  cra_client_addr :: socket_addr
  cra_system_index :: u16
  cra_system_addresses :: "socket_addr list"
  cra_request_time :: i64
  cra_accepted_time :: i64

lemma eats_read_addr: "eats read_addr (\<lambda>n a. n = ipv4_len \<and> is_v4 a)"
  unfolding read_addr_def read_addr_inner_def Let_def
  by (rule eats_bind[OF eats_err[OF eats_prims(1)]], rule eats_if[OF eats_fail],
      rule eats_bind[OF eats_err[OF eats_prims(6)]], rule eats_bind[OF eats_err[OF eats_prims(2)]],
      rule eats_return) (simp add: ipv4_len_def)

lemma read_addr_progress:
  assumes "read_addr r = (Inr a, r')" "16 < remaining r"
  shows "remaining r' < remaining r"
proof -
  have "pos r \<le> length (buf r)" using assms(2) by (simp add: remaining_def)
  from eatsD[OF eats_read_addr assms(1) this] show ?thesis
    using assms(2) by (auto simp: advanced_def remaining_def ipv4_len_def)
qed

text \<open>The loop \<^verbatim>\<open>while r.remaining() > TRAILING_TIMESTAMPS\<close>.\<close>

function read_slots :: "socket_addr list \<Rightarrow> (online_error, socket_addr list) rd" where
  "read_slots slots r =
     (if remaining r > trailing_timestamps
      then (case read_addr r of
              (Inl e, r') \<Rightarrow> (Inl (OnlineAddress e), r')
            | (Inr a, r') \<Rightarrow> read_slots (slots @ [a]) r')
      else (Inr slots, r))"
  by pat_completeness auto
termination
  by (relation "measure (\<lambda>(slots, r). remaining r)")
    (auto simp: trailing_timestamps_def read_addr_progress[OF sym])

declare read_slots.simps [simp del]

definition decode_connection_request_accepted :: "bytes \<Rightarrow> online_error + connection_request_accepted" where
  "decode_connection_request_accepted b = fst (
     rd_bind (online_expect id_connection_request_accepted) (\<lambda>_.
     rd_bind (rd_err OnlineAddress read_addr) (\<lambda>client.
     rd_bind (rd_err OnlineTruncated read_u16) (\<lambda>index.
     rd_bind (read_slots []) (\<lambda>slots.
     rd_bind (rd_err OnlineTruncated read_i64) (\<lambda>req.
     rd_bind (rd_err OnlineTruncated read_i64) (\<lambda>acc.
       rd_return \<lparr>cra_client_addr = client, cra_system_index = index, cra_system_addresses = slots,
         cra_request_time = req, cra_accepted_time = acc\<rparr>)))))) (new_reader b))"

definition encode_new_incoming_connection :: "socket_addr \<Rightarrow> nat \<Rightarrow> i64 \<Rightarrow> i64 \<Rightarrow> bytes" where
  "encode_new_incoming_connection server slots request_time accepted_time =
     (let w = write_u8 id_new_incoming_connection new_writer;
          w = write_addr server w;
          w = (write_addr unassigned ^^ slots) w;
          w = write_i64 request_time w
      in write_i64 accepted_time w)"

definition encode_connected_ping :: "i64 \<Rightarrow> bytes" where
  "encode_connected_ping time = write_i64 time (write_u8 id_connected_ping new_writer)"

record connected_pong =
  cp_ping_time :: i64
  cp_pong_time :: i64

definition decode_connected_pong :: "bytes \<Rightarrow> online_error + connected_pong" where
  "decode_connected_pong b = fst (
     rd_bind (online_expect id_connected_pong) (\<lambda>_.
     rd_bind (rd_err OnlineTruncated read_i64) (\<lambda>ping.
     rd_bind (rd_err OnlineTruncated read_i64) (\<lambda>pong.
       rd_return \<lparr>cp_ping_time = ping, cp_pong_time = pong\<rparr>))) (new_reader b))"

definition encode_disconnect :: bytes where
  "encode_disconnect = [id_disconnect]"

section \<open>Round trips\<close>

lemma reads_expect: "reads (online_expect i) [i] ()"
  unfolding online_expect_def by (rule reads_bind_nil[OF reads_err[OF reads_u8]]) simp

lemma funpow_write_addr: "(write_addr a ^^ n) w = w @ concat (replicate n (write_addr a []))"
proof (induction n arbitrary: w)
  case (Suc n)
  have "concat (replicate n (write_addr a [])) @ write_addr a []
      = write_addr a [] @ concat (replicate n (write_addr a []))"
    by (induction n) simp_all
  then show ?case using write_addr_append[of a "(write_addr a ^^ n) w"] by (simp add: Suc)
qed simp

text \<open>
  The slot loop reads every slot and stops in front of the timestamps, whatever their number.
\<close>

lemma read_slots_written:
  assumes "length tail = trailing_timestamps"
    and "length (pre @ concat (map (\<lambda>a. write_addr a []) as) @ tail) \<le> usize_max"
  shows "read_slots acc \<lparr>buf = pre @ concat (map (\<lambda>a. write_addr a []) as) @ tail, pos = length pre\<rparr>
    = (Inr (acc @ map addr_as_v4 as),
       \<lparr>buf = pre @ concat (map (\<lambda>a. write_addr a []) as) @ tail,
        pos = length pre + length (concat (map (\<lambda>a. write_addr a []) as))\<rparr>)"
  using assms(2)
proof (induction as arbitrary: pre acc)
  case Nil
  then show ?case using assms(1) by (simp add: read_slots.simps remaining_def)
next
  case (Cons a as)
  let ?rest = "concat (map (\<lambda>a. write_addr a []) as) @ tail"
  have "read_addr \<lparr>buf = pre @ write_addr a [] @ ?rest, pos = length pre\<rparr>
    = (Inr (addr_as_v4 a), \<lparr>buf = pre @ write_addr a [] @ ?rest, pos = length pre + length (write_addr a [])\<rparr>)"
    using Cons.prems by (intro readsD reads_addr) simp
  then show ?case
    using Cons.IH[of "pre @ write_addr a []" "acc @ [addr_as_v4 a]"] Cons.prems assms(1)
    by (subst read_slots.simps) (simp add: remaining_def ipv4_len_def add.assoc)
qed

lemma decode_request_accepted_written:
  assumes "length slots \<le> 2 ^ 32"
  shows "decode_connection_request_accepted
      (id_connection_request_accepted # write_addr client [] @ be_bytes 2 index
        @ concat (map (\<lambda>a. write_addr a []) slots) @ be_bytes 8 req @ be_bytes 8 acc)
    = Inr \<lparr>cra_client_addr = addr_as_v4 client, cra_system_index = index,
        cra_system_addresses = map addr_as_v4 slots, cra_request_time = req, cra_accepted_time = acc\<rparr>"
proof -
  let ?slots = "concat (map (\<lambda>a. write_addr a []) slots)"
  let ?tail = "be_bytes 8 req @ be_bytes 8 acc"
  let ?head = "id_connection_request_accepted # write_addr client [] @ be_bytes 2 index"
  let ?b = "?head @ ?slots @ ?tail"
  have slots: "length ?slots = 7 * length slots"
    by (induction slots) (simp_all add: ipv4_len_def)
  have len: "length ?b \<le> usize_max"
    using assms slots by (simp add: usize_max_def ipv4_len_def)
  have head: "reads (online_expect id_connection_request_accepted) [id_connection_request_accepted] ()"
    by (rule reads_expect)
  have 1: "online_expect id_connection_request_accepted \<lparr>buf = ?b, pos = 0\<rparr> = (Inr (), \<lparr>buf = ?b, pos = 1\<rparr>)"
    using readsD[OF head, of "[]" "write_addr client [] @ be_bytes 2 index @ ?slots @ ?tail"] len by simp
  have 2: "read_addr \<lparr>buf = ?b, pos = 1\<rparr> = (Inr (addr_as_v4 client), \<lparr>buf = ?b, pos = 8\<rparr>)"
    using readsD[OF reads_addr[of client], of "[id_connection_request_accepted]"
        "be_bytes 2 index @ ?slots @ ?tail"] len by (simp add: ipv4_len_def)
  have 3: "read_u16 \<lparr>buf = ?b, pos = 8\<rparr> = (Inr index, \<lparr>buf = ?b, pos = 10\<rparr>)"
    using readsD[OF reads_u16[of index], of "id_connection_request_accepted # write_addr client []"
        "?slots @ ?tail"] len by (simp add: ipv4_len_def)
  have 4: "read_slots [] \<lparr>buf = ?b, pos = 10\<rparr>
      = (Inr (map addr_as_v4 slots), \<lparr>buf = ?b, pos = 10 + length ?slots\<rparr>)"
    using read_slots_written[of ?tail ?head slots "[]"] len
    by (simp add: trailing_timestamps_def ipv4_len_def)
  have 5: "read_i64 \<lparr>buf = ?b, pos = 10 + length ?slots\<rparr>
      = (Inr req, \<lparr>buf = ?b, pos = 18 + length ?slots\<rparr>)"
    using readsD[OF reads_i64[of req], of "?head @ ?slots" "be_bytes 8 acc"] len
    by (simp add: ipv4_len_def)
  have 6: "read_i64 \<lparr>buf = ?b, pos = 18 + length ?slots\<rparr>
      = (Inr acc, \<lparr>buf = ?b, pos = 26 + length ?slots\<rparr>)"
    using readsD[OF reads_i64[of acc], of "?head @ ?slots @ be_bytes 8 req" "[]"] len
    by (simp add: ipv4_len_def)
  have "decode_connection_request_accepted ?b
    = Inr \<lparr>cra_client_addr = addr_as_v4 client, cra_system_index = index,
        cra_system_addresses = map addr_as_v4 slots, cra_request_time = req, cra_accepted_time = acc\<rparr>"
    unfolding decode_connection_request_accepted_def new_reader_def
    by (simp only: rd_bind_def rd_err_def rd_return_def 1 2 3 4 5 6 prod.case sum.case map_err_simps
        fst_conv)
  then show ?thesis by simp
qed

lemma decode_connected_pong_written:
  "decode_connected_pong (id_connected_pong # be_bytes 8 ping @ be_bytes 8 pong)
     = Inr \<lparr>cp_ping_time = ping, cp_pong_time = pong\<rparr>"
proof -
  have "reads (rd_bind (online_expect id_connected_pong) (\<lambda>_.
     rd_bind (rd_err OnlineTruncated read_i64) (\<lambda>ping.
     rd_bind (rd_err OnlineTruncated read_i64) (\<lambda>pong.
       rd_return \<lparr>cp_ping_time = ping, cp_pong_time = pong\<rparr>))))
     ([id_connected_pong] @ be_bytes 8 ping @ be_bytes 8 pong) \<lparr>cp_ping_time = ping, cp_pong_time = pong\<rparr>"
    by (intro reads_bind[OF reads_expect] reads_bind[OF reads_err[OF reads_i64]]
        reads_bind_nil[OF reads_err[OF reads_i64]] reads_return)
  from readsD[OF this, of "[]" "[]"] show ?thesis
    by (simp add: decode_connected_pong_def new_reader_def usize_max_def)
qed

end
