(* ===== verification/Session.thy ===== *)
theory Session
  imports Split Retransmit Order Online
begin

text \<open>
  \<^verbatim>\<open>bedrock-raknet/src/session.rs\<close>: the state machine of one peer.  Datagrams and the current
  time go in, datagrams and delivered payloads come out.

  Every method is a function of the session that returns the session it leaves behind, also
  when it fails.  \<^const>\<open>None\<close> is a panic: \<open>session_receive\<close> and \<open>session_tick\<close> inherit it
  from the retransmitter.
\<close>

section \<open>State\<close>

definition user_packet_start :: u8 where
  "user_packet_start = 0x86"

datatype closed = ByPeer | Timeout | Unreachable | ByUs

datatype state = Connecting | Connected | Closed closed

record config =
  payload_limit :: nat
  cf_split :: limits
  cf_retransmit :: retransmit_limits
  order_window :: u32
  dedup_window :: u32
  keepalive :: duration
  cf_timeout :: duration
  max_outbox :: nat

definition default_config :: config where
  "default_config = \<lparr>payload_limit = 1472, cf_split = default_limits,
     cf_retransmit = default_retransmit_limits, order_window = 2048, dedup_window = 4096,
     keepalive = 5 * 10 ^ 9, cf_timeout = 20 * 10 ^ 9, max_outbox = 256\<rparr>"

datatype session_error =
    SeDatagram datagram_error
  | SeSplit split_error
  | SeOrder out_of_window
  | SeWindow window_full
  | OutboxFull
  | SeClosed

record session =
  se_config :: config
  se_peer :: socket_addr
  se_local :: socket_addr
  se_state :: state
  se_next_sequence :: u32
  se_next_reliable :: u32
  se_next_order :: u32
  se_splitter :: splitter
  se_retransmitter :: retransmitter
  se_outbox :: "bytes list"
  se_reassembler :: reassembler
  se_ordering :: ordering
  se_dedup :: dedup
  se_pending_acks :: "u32 list"
  se_started :: instant
  se_last_heard :: instant
  se_last_ping :: instant

definition new_session :: "socket_addr \<Rightarrow> socket_addr \<Rightarrow> config \<Rightarrow> instant \<Rightarrow> session" where
  "new_session peer local config now =
     \<lparr>se_config = config, se_peer = peer, se_local = local, se_state = Connecting,
      se_next_sequence = 0, se_next_reliable = 0, se_next_order = 0, se_splitter = new_splitter,
      se_retransmitter = new_retransmitter (cf_retransmit config), se_outbox = [],
      se_reassembler = new_reassembler (cf_split config),
      se_ordering = new_ordering (order_window config), se_dedup = new_dedup (dedup_window config),
      se_pending_acks = [], se_started = now, se_last_heard = now, se_last_ping = now\<rparr>"

definition is_closed :: "session \<Rightarrow> bool" where
  "is_closed s \<longleftrightarrow> (case se_state s of Closed _ \<Rightarrow> True | _ \<Rightarrow> False)"

definition closed_because :: "session \<Rightarrow> closed option" where
  "closed_because s = (case se_state s of Closed reason \<Rightarrow> Some reason | _ \<Rightarrow> None)"

text \<open>\<^verbatim>\<open>i64::try_from(..as_millis()).unwrap_or(i64::MAX)\<close>.\<close>

definition now_millis :: "session \<Rightarrow> instant \<Rightarrow> i64" where
  "now_millis s now =
     (let millis = (now - se_started s) div 10 ^ 6
      in if millis < 2 ^ 63 then of_nat millis else 2 ^ 63 - 1)"

definition poll_transmit :: "session \<Rightarrow> bytes option \<times> session" where
  "poll_transmit s =
     (case se_outbox s of
        [] \<Rightarrow> (None, s)
      | d # ds \<Rightarrow> (Some d, s\<lparr>se_outbox := ds\<rparr>))"

section \<open>Sending\<close>

fun datagrams_needed_loop :: "frame list \<Rightarrow> nat \<Rightarrow> nat \<Rightarrow> nat \<Rightarrow> nat" where
  "datagrams_needed_loop [] budget n used = n"
| "datagrams_needed_loop (f # fs) budget n used =
     (let size = encoded_len f in
      if used = 0 \<or> used + size > budget
      then datagrams_needed_loop fs budget (n + 1) size
      else datagrams_needed_loop fs budget n (used + size))"

definition datagrams_needed :: "frame list \<Rightarrow> nat \<Rightarrow> nat" where
  "datagrams_needed fs budget = datagrams_needed_loop fs budget 0 0"

definition flush_batch :: "frame list \<Rightarrow> instant \<Rightarrow> session \<Rightarrow> (session_error + unit) \<times> session" where
  "flush_batch frames now s =
     (let sequence = se_next_sequence s;
          s = s\<lparr>se_next_sequence := se_next_sequence s + 1\<rparr>;
          datagram = encode_datagram (FrameSet \<lparr>fs_sequence = sequence, fs_frames = frames\<rparr>) new_writer
      in case track sequence datagram now (se_retransmitter s) of
           (Inl e, rt) \<Rightarrow> (Inl (SeWindow e), s\<lparr>se_retransmitter := rt\<rparr>)
         | (Inr _, rt) \<Rightarrow> (Inr (), s\<lparr>se_retransmitter := rt, se_outbox := se_outbox s @ [datagram]\<rparr>))"

text \<open>The packing loop of \<^verbatim>\<open>send_frames\<close>; it yields the batch not flushed yet.\<close>

fun pack_frames :: "frame list \<Rightarrow> frame list \<Rightarrow> nat \<Rightarrow> nat \<Rightarrow> instant \<Rightarrow> session
    \<Rightarrow> (session_error + frame list) \<times> session" where
  "pack_frames [] batch used budget now s = (Inr batch, s)"
| "pack_frames (f # fs) batch used budget now s =
     (let f = f\<lparr>fr_reliable_index := se_next_reliable s\<rparr>;
          s = s\<lparr>se_next_reliable := se_next_reliable s + 1\<rparr>;
          f = f\<lparr>fr_order_index := se_next_order s\<rparr>;
          size = encoded_len f
      in if batch \<noteq> [] \<and> used + size > budget
         then (case flush_batch batch now s of
                 (Inl e, s) \<Rightarrow> (Inl e, s)
               | (Inr _, s) \<Rightarrow> pack_frames fs [f] size budget now s)
         else pack_frames fs (batch @ [f]) (used + size) budget now s)"

definition send_frames :: "frame list \<Rightarrow> instant \<Rightarrow> session \<Rightarrow> (session_error + unit) \<times> session" where
  "send_frames frames now s =
     (let budget = payload_limit (se_config s) - datagram_header_len;
          needed = datagrams_needed frames budget
      in if length (se_outbox s) + needed > max_outbox (se_config s)
            \<or> in_flight_count (se_retransmitter s) + needed > max_in_flight (cf_retransmit (se_config s))
         then (Inl OutboxFull, s)
         else (case pack_frames frames [] 0 budget now s of
                 (Inl e, s) \<Rightarrow> (Inl e, s)
               | (Inr batch, s) \<Rightarrow>
                   let s = s\<lparr>se_next_order := se_next_order s + 1\<rparr>
                   in if batch \<noteq> [] then flush_batch batch now s else (Inr (), s)))"

definition session_send :: "bytes \<Rightarrow> instant \<Rightarrow> session \<Rightarrow> (session_error + unit) \<times> session" where
  "session_send payload now s =
     (if is_closed s then (Inl SeClosed, s)
      else (case splitter_split payload (fragment_capacity (payload_limit (se_config s))) (se_splitter s) of
              (frames, sp) \<Rightarrow> send_frames frames now (s\<lparr>se_splitter := sp\<rparr>)))"

definition queue_raw :: "bytes \<Rightarrow> session \<Rightarrow> session" where
  "queue_raw b s =
     (if length (se_outbox s) < max_outbox (se_config s) then s\<lparr>se_outbox := se_outbox s @ [b]\<rparr> else s)"

section \<open>Receiving\<close>

definition encode_request_accepted :: "i64 \<Rightarrow> instant \<Rightarrow> session \<Rightarrow> bytes" where
  "encode_request_accepted request_time now s =
     (let w = write_u8 id_connection_request_accepted new_writer;
          w = write_addr (se_peer s) w;
          w = write_u16 0 w;
          w = (write_addr (se_local s) ^^ system_address_count) w;
          w = write_i64 request_time w
      in write_i64 (now_millis s now) w)"

text \<open>\<^verbatim>\<open>.unwrap_or(0)\<close> on what a reader closure yields.\<close>

definition read_or_zero :: "(decode_error, i64) rd \<Rightarrow> bytes \<Rightarrow> i64" where
  "read_or_zero m payload =
     (case fst (m (new_reader payload)) of Inl _ \<Rightarrow> 0 | Inr time \<Rightarrow> time)"

definition handle_internal :: "bytes \<Rightarrow> instant \<Rightarrow> session
    \<Rightarrow> (session_error + bytes option) \<times> session" where
  "handle_internal payload now s =
     (case payload of
        [] \<Rightarrow> (Inr None, s)
      | i # _ \<Rightarrow>
          if i = id_connection_request then
            (let time = read_or_zero (rd_bind read_u8 (\<lambda>_. rd_bind read_i64 (\<lambda>_. read_i64))) payload;
                 reply = encode_request_accepted time now s
             in case session_send reply now s of
                  (Inl e, s) \<Rightarrow> (Inl e, s) | (Inr _, s) \<Rightarrow> (Inr None, s))
          else if i = id_new_incoming_connection then (Inr None, s\<lparr>se_state := Connected\<rparr>)
          else if i = id_connected_ping then
            (let time = read_or_zero (rd_bind read_u8 (\<lambda>_. read_i64)) payload;
                 pong = write_i64 (now_millis s now) (write_i64 time (write_u8 id_connected_pong new_writer))
             in case session_send pong now s of
                  (Inl e, s) \<Rightarrow> (Inl e, s) | (Inr _, s) \<Rightarrow> (Inr None, s))
          else if i = id_connected_pong then (Inr None, s)
          else if i = id_disconnect then (Inr None, s\<lparr>se_state := Closed ByPeer\<rparr>)
          else if i \<ge> user_packet_start then (Inr (Some payload), s)
          else (Inr None, s))"

fun handle_payloads :: "bytes list \<Rightarrow> bytes list \<Rightarrow> instant \<Rightarrow> session
    \<Rightarrow> (session_error + bytes list) \<times> session" where
  "handle_payloads [] delivered now s = (Inr delivered, s)"
| "handle_payloads (p # ps) delivered now s =
     (case handle_internal p now s of
        (Inl e, s) \<Rightarrow> (Inl e, s)
      | (Inr None, s) \<Rightarrow> handle_payloads ps delivered now s
      | (Inr (Some p), s) \<Rightarrow> handle_payloads ps (delivered @ [p]) now s)"

text \<open>One frame of the loop in \<^verbatim>\<open>receive\<close>; a \<^verbatim>\<open>continue\<close> leaves \<open>delivered\<close> as it is.\<close>

definition receive_frame :: "frame \<Rightarrow> bytes list \<Rightarrow> instant \<Rightarrow> session
    \<Rightarrow> (session_error + bytes list) \<times> session" where
  "receive_frame f delivered now s =
     (let (fresh, s) = (if is_reliable (fr_reliability f)
                        then (case dedup_accept (fr_reliable_index f) (se_dedup s) of
                                (ok, d) \<Rightarrow> (ok, s\<lparr>se_dedup := d\<rparr>))
                        else (True, s))
      in if \<not> fresh then (Inr delivered, s)
         else (case reassembler_push f now (se_reassembler s) of
                 (Inl e, ra) \<Rightarrow> (Inl (SeSplit e), s\<lparr>se_reassembler := ra\<rparr>)
               | (Inr None, ra) \<Rightarrow> (Inr delivered, s\<lparr>se_reassembler := ra\<rparr>)
               | (Inr (Some payload), ra) \<Rightarrow>
                   let s = s\<lparr>se_reassembler := ra\<rparr> in
                   if is_ordered (fr_reliability f)
                   then (case ordering_push (fr_order_index f) payload (se_ordering s) of
                           (Inl e, od) \<Rightarrow> (Inl (SeOrder e), s\<lparr>se_ordering := od\<rparr>)
                         | (Inr payloads, od) \<Rightarrow>
                             handle_payloads payloads delivered now (s\<lparr>se_ordering := od\<rparr>))
                   else handle_payloads [payload] delivered now s))"

fun receive_frames :: "frame list \<Rightarrow> bytes list \<Rightarrow> instant \<Rightarrow> session
    \<Rightarrow> (session_error + bytes list) \<times> session" where
  "receive_frames [] delivered now s = (Inr delivered, s)"
| "receive_frames (f # fs) delivered now s =
     (case receive_frame f delivered now s of
        (Inl e, s) \<Rightarrow> (Inl e, s)
      | (Inr delivered, s) \<Rightarrow> receive_frames fs delivered now s)"

definition queue_resends :: "bytes list \<Rightarrow> session \<Rightarrow> session" where
  "queue_resends ds s = fold queue_raw ds s"

definition session_receive :: "bytes \<Rightarrow> instant \<Rightarrow> session
    \<Rightarrow> ((session_error + bytes list) \<times> session) option" where
  "session_receive b now s =
     (if is_closed s then Some (Inl SeClosed, s)
      else
        let s = s\<lparr>se_last_heard := now\<rparr> in
        case decode_datagram b of
          Inl e \<Rightarrow> Some (Inl (SeDatagram e), s)
        | Inr (Ack ack) \<Rightarrow>
            map_option (\<lambda>rt. (Inr [], s\<lparr>se_retransmitter := rt\<rparr>)) (on_ack ack now (se_retransmitter s))
        | Inr (Nack nack) \<Rightarrow>
            map_option (\<lambda>(ds, rt). (Inr [], queue_resends ds (s\<lparr>se_retransmitter := rt\<rparr>)))
              (on_nack nack now (se_retransmitter s))
        | Inr (FrameSet fs) \<Rightarrow>
            Some (receive_frames (fs_frames fs) [] now
              (s\<lparr>se_pending_acks := se_pending_acks s @ [fs_sequence fs]\<rparr>)))"

section \<open>Time\<close>

text \<open>Consecutive sequence numbers join the last range.\<close>

definition extend_ranges :: "u32 \<Rightarrow> (u32 \<times> u32) list \<Rightarrow> (u32 \<times> u32) list" where
  "extend_ranges sequence rs =
     (if rs \<noteq> [] \<and> sequence = snd (last rs) + 1
      then butlast rs @ [(fst (last rs), sequence)]
      else rs @ [(sequence, sequence)])"

definition ack_ranges_of :: "u32 list \<Rightarrow> (u32 \<times> u32) list" where
  "ack_ranges_of sequences = fold extend_ranges (remdups_adj (sort sequences)) []"

definition flush_acks :: "session \<Rightarrow> session" where
  "flush_acks s =
     (if se_pending_acks s = [] then s
      else queue_raw (encode_datagram (Ack \<lparr>ranges = ack_ranges_of (se_pending_acks s)\<rparr>) new_writer)
             (s\<lparr>se_pending_acks := []\<rparr>))"

definition session_tick :: "instant \<Rightarrow> session \<Rightarrow> session option" where
  "session_tick now s =
     (if is_closed s then Some s
      else if now - se_last_heard s \<ge> cf_timeout (se_config s)
      then Some (s\<lparr>se_state := Closed Timeout\<rparr>)
      else if rt_dead (se_retransmitter s)
      then Some (s\<lparr>se_state := Closed Unreachable\<rparr>)
      else
        let s = flush_acks s in
        case due now (se_retransmitter s) of
          None \<Rightarrow> None
        | Some (ds, rt) \<Rightarrow>
            let s = queue_resends ds (s\<lparr>se_retransmitter := rt\<rparr>);
                s = s\<lparr>se_reassembler := reassembler_expire now (se_reassembler s)\<rparr>
            in if now - se_last_ping s \<ge> keepalive (se_config s)
               then let s = s\<lparr>se_last_ping := now\<rparr>;
                        ping = encode_connected_ping (now_millis s now)
                    in Some (snd (session_send ping now s))
               else Some s)"

definition session_close :: "instant \<Rightarrow> session \<Rightarrow> session" where
  "session_close now s =
     (if is_closed s then s
      else (snd (session_send [id_disconnect] now s))\<lparr>se_state := Closed ByUs\<rparr>)"

end
