(* ===== verification/Sending.thy ===== *)
theory Sending
  imports Session
begin

text \<open>
  What \<^verbatim>\<open>Session::send\<close> does: an abstract account of the packing loop (\<open>batches\<close>), the proof
  that the loop of the code computes it, and the properties of sending that follow.
\<close>

section \<open>Packing, abstractly\<close>

text \<open>The frames of one payload as they go on the wire: consecutive reliable indices, one order index.\<close>

fun numbered :: "u32 \<Rightarrow> u32 \<Rightarrow> frame list \<Rightarrow> frame list" where
  "numbered rel ord [] = []"
| "numbered rel ord (f # fs) =
     f\<lparr>fr_reliable_index := rel, fr_order_index := ord\<rparr> # numbered (rel + 1) ord fs"

fun batches :: "nat \<Rightarrow> frame list \<Rightarrow> frame list \<Rightarrow> nat \<Rightarrow> frame list list" where
  "batches budget [] batch used = (if batch = [] then [] else [batch])"
| "batches budget (f # fs) batch used =
     (if batch \<noteq> [] \<and> used + encoded_len f > budget
      then batch # batches budget fs [f] (encoded_len f)
      else batches budget fs (batch @ [f]) (used + encoded_len f))"

text \<open>The datagrams of consecutive batches, each with its sequence number.\<close>

fun datagrams_of :: "u32 \<Rightarrow> frame list list \<Rightarrow> (u32 \<times> bytes) list" where
  "datagrams_of q [] = []"
| "datagrams_of q (b # bs) =
     (q, encode_datagram (FrameSet \<lparr>fs_sequence = q, fs_frames = b\<rparr>) []) # datagrams_of (q + 1) bs"

definition track_all :: "(u32 \<times> bytes) list \<Rightarrow> instant \<Rightarrow> retransmitter \<Rightarrow> retransmitter" where
  "track_all ds now rt = fold (\<lambda>(q, d) rt. snd (track q d now rt)) ds rt"

text \<open>The session after all batches are queued and tracked.\<close>

definition sent :: "frame list list \<Rightarrow> nat \<Rightarrow> instant \<Rightarrow> session \<Rightarrow> session" where
  "sent bs n now s = s\<lparr>
     se_next_sequence := se_next_sequence s + of_nat (length bs),
     se_next_reliable := se_next_reliable s + of_nat n,
     se_next_order := se_next_order s + 1,
     se_retransmitter := track_all (datagrams_of (se_next_sequence s) bs) now (se_retransmitter s),
     se_outbox := se_outbox s @ map snd (datagrams_of (se_next_sequence s) bs)\<rparr>"

lemma encoded_len_numbered [simp]:
  "encoded_len (f\<lparr>fr_reliable_index := i, fr_order_index := j\<rparr>) = encoded_len f"
  by (simp add: encoded_len_def)

lemma map_encoded_len_numbered [simp]: "map encoded_len (numbered rel ord fs) = map encoded_len fs"
  by (induction rel ord fs rule: numbered.induct) simp_all

lemma length_numbered [simp]: "length (numbered rel ord fs) = length fs"
  by (induction rel ord fs rule: numbered.induct) simp_all

lemma numbered_nth:
  "i < length fs \<Longrightarrow> numbered rel ord fs ! i
     = (fs ! i)\<lparr>fr_reliable_index := rel + of_nat i, fr_order_index := ord\<rparr>"
  by (induction rel ord fs arbitrary: i rule: numbered.induct) (auto simp: nth_Cons split: nat.splits)

lemma in_numbered:
  "f \<in> set (numbered rel ord fs) \<Longrightarrow> \<exists>g \<in> set fs. \<exists>i. f = g\<lparr>fr_reliable_index := i, fr_order_index := ord\<rparr>"
  by (induction rel ord fs rule: numbered.induct) auto

lemma length_datagrams_of [simp]: "length (datagrams_of q bs) = length bs"
  by (induction q bs rule: datagrams_of.induct) simp_all

lemma encoded_len_pos: "0 < encoded_len f"
  by (simp add: encoded_len_def)

lemma concat_batches: "concat (batches budget fs batch used) = batch @ fs"
  by (induction budget fs batch used rule: batches.induct) auto

lemma batches_nonempty: "b \<in> set (batches budget fs batch used) \<Longrightarrow> b \<noteq> []"
  by (induction budget fs batch used rule: batches.induct) (auto split: if_splits)

text \<open>A batch stays within the budget when every frame does.\<close>

lemma batches_within:
  assumes "\<forall>f \<in> set fs. encoded_len f \<le> budget" "used = sum_list (map encoded_len batch)" "used \<le> budget"
  shows "\<forall>b \<in> set (batches budget fs batch used). sum_list (map encoded_len b) \<le> budget"
  using assms
proof (induction budget fs batch used rule: batches.induct)
  case (2 budget f fs batch used)
  show ?case
  proof (cases "batch \<noteq> [] \<and> used + encoded_len f > budget")
    case True
    have "\<forall>b \<in> set (batches budget fs [f] (encoded_len f)). sum_list (map encoded_len b) \<le> budget"
      using 2(3) by (intro 2(1)[OF True]) simp_all
    then show ?thesis using True 2(4,5) by simp
  next
    case False
    have "batch = [] \<Longrightarrow> used = 0" using 2(4) by simp
    then have "used + encoded_len f \<le> budget" using False 2(3) by (cases "batch = []") auto
    then have "\<forall>b \<in> set (batches budget fs (batch @ [f]) (used + encoded_len f)).
        sum_list (map encoded_len b) \<le> budget"
      using 2(3,4) by (intro 2(2)[OF False]) simp_all
    then show ?thesis using False by (simp only: batches.simps if_False)
  qed
qed simp

text \<open>The reservation of the code counts exactly the batches the loop will make.\<close>

lemma datagrams_needed_loop_batches:
  assumes "used = 0 \<longleftrightarrow> batch = []" "map encoded_len fs = map encoded_len gs"
  shows "datagrams_needed_loop fs budget n used
    = n + length (batches budget gs batch used) - (if batch = [] then 0 else 1)"
  using assms
proof (induction fs arbitrary: gs batch used n)
  case Nil
  then show ?case by simp
next
  case (Cons f fs)
  obtain g gs' where g: "gs = g # gs'" "encoded_len g = encoded_len f"
    "map encoded_len fs = map encoded_len gs'" using Cons.prems(2) by (cases gs) auto
  have pos: "encoded_len f \<noteq> 0" using encoded_len_pos[of f] by simp
  have ge: "1 \<le> length (batches budget gs' (batch @ [g]) u)" for u batch
    using concat_batches[of budget gs' "batch @ [g]" u]
    by (cases "batches budget gs' (batch @ [g]) u") auto
  show ?case
  proof (cases "used = 0 \<or> used + encoded_len f > budget")
    case True
    have "datagrams_needed_loop fs budget (n + 1) (encoded_len f)
        = n + 1 + length (batches budget gs' [g] (encoded_len f)) - 1"
      using Cons.IH[of "encoded_len f" "[g]" gs' "n + 1"] pos g(3) by simp
    then show ?thesis
      using True Cons.prems(1) g(2) pos by (auto simp: g(1))
  next
    case False
    have "datagrams_needed_loop fs budget n (used + encoded_len f)
        = n + length (batches budget gs' (batch @ [g]) (used + encoded_len f)) - 1"
      using Cons.IH[of "used + encoded_len f" "batch @ [g]" gs' n] pos g(3) by simp
    then show ?thesis using False Cons.prems(1) g(2) by (simp add: g(1))
  qed
qed

lemma datagrams_needed_batches:
  "datagrams_needed fs budget = length (batches budget (numbered rel ord fs) [] 0)"
  using datagrams_needed_loop_batches[of 0 "[]" fs "numbered rel ord fs" budget 0]
  by (simp add: datagrams_needed_def)

section \<open>The loop of the code\<close>

lemma track_room:
  assumes "bt_len (rt_in_flight rt) < max_in_flight (rt_limits rt)"
  shows "fst (track q d now rt) = Inr ()" "track q d now rt = (Inr (), snd (track q d now rt))"
  using assms by (simp_all add: track_def)

lemma track_facts:
  "retransmitter_inv rt \<Longrightarrow> retransmitter_inv (snd (track q d now rt))
     \<and> rt_limits (snd (track q d now rt)) = rt_limits rt
     \<and> bt_len (rt_in_flight (snd (track q d now rt))) \<le> Suc (bt_len (rt_in_flight rt))"
  using retransmitter_inv_track[of rt q d now]
  by (auto simp: track_def retransmitter_inv_def bt_len_insert)

lemma flush_batch_room:
  assumes "bt_len (rt_in_flight (se_retransmitter s)) < max_in_flight (rt_limits (se_retransmitter s))"
  shows "flush_batch b now s = (Inr (), s\<lparr>
     se_next_sequence := se_next_sequence s + 1,
     se_retransmitter := snd (track (se_next_sequence s)
        (encode_datagram (FrameSet \<lparr>fs_sequence = se_next_sequence s, fs_frames = b\<rparr>) []) now
        (se_retransmitter s)),
     se_outbox := se_outbox s @
        [encode_datagram (FrameSet \<lparr>fs_sequence = se_next_sequence s, fs_frames = b\<rparr>) []]\<rparr>)"
proof -
  let ?d = "encode_datagram (FrameSet \<lparr>fs_sequence = se_next_sequence s, fs_frames = b\<rparr>) []"
  obtain rt where "track (se_next_sequence s) ?d now (se_retransmitter s) = (Inr (), rt)"
    using track_room(2)[OF assms] by metis
  then show ?thesis by (simp add: flush_batch_def Let_def new_writer_def del: encode_datagram.simps)
qed

text \<open>The loop followed by the flush of what is left.\<close>

definition pack_and_flush :: "frame list \<Rightarrow> frame list \<Rightarrow> nat \<Rightarrow> nat \<Rightarrow> instant \<Rightarrow> session
    \<Rightarrow> (session_error + unit) \<times> session" where
  "pack_and_flush frames batch used budget now s =
     (case pack_frames frames batch used budget now s of
        (Inl e, s) \<Rightarrow> (Inl e, s)
      | (Inr batch, s) \<Rightarrow>
          let s = s\<lparr>se_next_order := se_next_order s + 1\<rparr>
          in if batch \<noteq> [] then flush_batch batch now s else (Inr (), s))"

lemma track_all_simps [simp]:
  "track_all [] now rt = rt"
  "track_all ((q, d) # ds) now rt = track_all ds now (snd (track q d now rt))"
  by (simp_all add: track_all_def)

lemma pack_and_flush_sent:
  assumes "retransmitter_inv (se_retransmitter s)"
    and "bt_len (rt_in_flight (se_retransmitter s))
           + length (batches budget (numbered (se_next_reliable s) (se_next_order s) fs) batch used)
         \<le> max_in_flight (rt_limits (se_retransmitter s))"
  shows "pack_and_flush fs batch used budget now s
    = (Inr (), sent (batches budget (numbered (se_next_reliable s) (se_next_order s) fs) batch used)
                 (length fs) now s)"
  using assms
proof (induction fs arbitrary: batch used s)
  case Nil
  show ?case
  proof (cases "batch = []")
    case True
    then show ?thesis by (simp add: pack_and_flush_def sent_def Let_def)
  next
    case False
    then have "bt_len (rt_in_flight (se_retransmitter s)) < max_in_flight (rt_limits (se_retransmitter s))"
      using Nil.prems(2) by simp
    then show ?thesis
      using False by (simp add: pack_and_flush_def sent_def Let_def flush_batch_room)
  qed
next
  case (Cons f fs)
  let ?f = "f\<lparr>fr_reliable_index := se_next_reliable s, fr_order_index := se_next_order s\<rparr>"
  let ?s = "s\<lparr>se_next_reliable := se_next_reliable s + 1\<rparr>"
  show ?case
  proof (cases "batch \<noteq> [] \<and> used + encoded_len f > budget")
    case False
    have "pack_and_flush (f # fs) batch used budget now s
        = pack_and_flush fs (batch @ [?f]) (used + encoded_len f) budget now ?s"
      using False by (auto simp: pack_and_flush_def Let_def)
    then show ?thesis
      using Cons.IH[of ?s "batch @ [?f]" "used + encoded_len f"] Cons.prems False
      by (auto simp: sent_def)
  next
    case True
    let ?d = "encode_datagram (FrameSet \<lparr>fs_sequence = se_next_sequence s, fs_frames = batch\<rparr>) []"
    let ?rt = "snd (track (se_next_sequence s) ?d now (se_retransmitter s))"
    let ?s1 = "?s\<lparr>se_next_sequence := se_next_sequence s + 1, se_retransmitter := ?rt,
      se_outbox := se_outbox s @ [?d]\<rparr>"
    have room: "bt_len (rt_in_flight (se_retransmitter ?s)) < max_in_flight (rt_limits (se_retransmitter ?s))"
      using Cons.prems(2) True by simp
    have "pack_and_flush (f # fs) batch used budget now s
        = pack_and_flush fs [?f] (encoded_len f) budget now ?s1"
      using True flush_batch_room[OF room, of batch now] by (auto simp: pack_and_flush_def Let_def)
    then show ?thesis
      using Cons.IH[of ?s1 "[?f]" "encoded_len f"] Cons.prems True
        track_facts[OF Cons.prems(1), of "se_next_sequence s" ?d now]
      by (auto simp: sent_def add.assoc)
  qed
qed

section \<open>Outcomes of a send\<close>

text \<open>What every operation keeps of the sending half.\<close>

definition sender_ok :: "session \<Rightarrow> bool" where
  "sender_ok s \<longleftrightarrow> retransmitter_inv (se_retransmitter s)
     \<and> rt_limits (se_retransmitter s) = cf_retransmit (se_config s)"

definition split_frames :: "bytes \<Rightarrow> session \<Rightarrow> frame list" where
  "split_frames payload s =
     fst (splitter_split payload (fragment_capacity (payload_limit (se_config s))) (se_splitter s))"

definition split_state :: "bytes \<Rightarrow> session \<Rightarrow> splitter" where
  "split_state payload s =
     snd (splitter_split payload (fragment_capacity (payload_limit (se_config s))) (se_splitter s))"

definition batches_of :: "frame list \<Rightarrow> session \<Rightarrow> frame list list" where
  "batches_of fs s = batches (payload_limit (se_config s) - datagram_header_len)
     (numbered (se_next_reliable s) (se_next_order s) fs) [] 0"

definition outgoing :: "bytes \<Rightarrow> session \<Rightarrow> frame list list" where
  "outgoing payload s = batches_of (split_frames payload s) s"

definition has_room :: "nat \<Rightarrow> session \<Rightarrow> bool" where
  "has_room n s \<longleftrightarrow> length (se_outbox s) + n \<le> max_outbox (se_config s)
     \<and> in_flight_count (se_retransmitter s) + n \<le> max_in_flight (cf_retransmit (se_config s))"

lemma send_frames_outcome:
  assumes "sender_ok s"
  shows "send_frames fs now s =
    (if has_room (length (batches_of fs s)) s
     then (Inr (), sent (batches_of fs s) (length fs) now s) else (Inl OutboxFull, s))"
proof -
  let ?bs = "batches_of fs s"
  let ?budget = "payload_limit (se_config s) - datagram_header_len"
  have needed: "datagrams_needed fs ?budget = length ?bs"
    unfolding batches_of_def by (rule datagrams_needed_batches)
  have tail: "send_frames fs now s
      = (if has_room (length ?bs) s then pack_and_flush fs [] 0 ?budget now s else (Inl OutboxFull, s))"
    by (auto simp: send_frames_def pack_and_flush_def Let_def needed has_room_def not_less)
  show ?thesis
    using pack_and_flush_sent[of s ?budget fs "[]" 0 now] assms(1)
    by (auto simp: tail batches_of_def[symmetric] has_room_def sender_ok_def in_flight_count_def)
qed

lemma session_send_outcome:
  assumes "sender_ok s"
  shows "session_send payload now s =
    (if is_closed s then (Inl SeClosed, s)
     else if has_room (length (outgoing payload s)) s
     then (Inr (), sent (outgoing payload s) (length (split_frames payload s)) now
                     (s\<lparr>se_splitter := split_state payload s\<rparr>))
     else (Inl OutboxFull, s\<lparr>se_splitter := split_state payload s\<rparr>))"
proof (cases "is_closed s")
  case True
  then show ?thesis by (simp add: session_send_def)
next
  case False
  let ?s = "s\<lparr>se_splitter := split_state payload s\<rparr>"
  have ok: "sender_ok ?s" using assms by (simp add: sender_ok_def)
  have "session_send payload now s = send_frames (split_frames payload s) now ?s"
    using False by (simp add: session_send_def split_frames_def split_state_def split: prod.splits)
  then show ?thesis
    using False send_frames_outcome[OF ok, of "split_frames payload s" now]
    by (simp add: outgoing_def batches_of_def has_room_def)
qed

lemma outgoing_batches:
  assumes "b \<in> set (outgoing payload s)"
  shows "datagram_header_len + sum_list (map encoded_len b) \<le> payload_limit (se_config s)"
proof -
  let ?lim = "payload_limit (se_config s)"
  let ?fs = "numbered (se_next_reliable s) (se_next_order s) (split_frames payload s)"
  have fit: "datagram_header_len + encoded_len f \<le> ?lim" if "f \<in> set (split_frames payload s)" for f
    using that unfolding split_frames_def by (rule split_frame_fits)
  have fit': "\<forall>f \<in> set ?fs. datagram_header_len + encoded_len f \<le> ?lim"
    using fit by (auto dest!: in_numbered)
  have ne: "?fs \<noteq> []"
    using assms concat_batches[of "?lim - datagram_header_len" ?fs "[]" 0] batches_nonempty[of b]
    by (force simp: outgoing_def batches_of_def)
  then have lim: "datagram_header_len \<le> ?lim" using fit' by (cases ?fs) auto
  have "\<forall>f \<in> set ?fs. encoded_len f \<le> ?lim - datagram_header_len"
    using fit' by (auto simp: le_diff_conv2[OF lim] add.commute)
  then have "\<forall>b \<in> set (outgoing payload s). sum_list (map encoded_len b) \<le> ?lim - datagram_header_len"
    unfolding outgoing_def batches_of_def by (rule batches_within) simp_all
  then show ?thesis using assms lim by force
qed

lemma datagrams_of_nth:
  "i < length bs \<Longrightarrow> datagrams_of q bs ! i
     = (q + of_nat i, encode_datagram (FrameSet \<lparr>fs_sequence = q + of_nat i, fs_frames = bs ! i\<rparr>) [])"
  by (induction q bs arbitrary: i rule: datagrams_of.induct)
    (auto simp: nth_Cons add.assoc simp del: encode_datagram.simps split: nat.splits)

lemma sent_datagram_fits:
  assumes "d \<in> set (map snd (datagrams_of q (outgoing payload s)))"
  shows "length d \<le> payload_limit (se_config s)"
proof -
  obtain i where i: "i < length (outgoing payload s)" "d = snd (datagrams_of q (outgoing payload s) ! i)"
    using assms by (auto simp: in_set_conv_nth simp del: datagrams_of.simps)
  then show ?thesis
    using outgoing_batches[of "outgoing payload s ! i" payload s]
    by (simp add: datagrams_of_nth length_encode_frame_set del: encode_datagram.simps)
qed

section \<open>What the peer decodes\<close>

lemma unat_add_small:
  fixes q :: u32
  assumes "unat q + i < 2 ^ 32"
  shows "unat (q + of_nat i) = unat q + i"
  using assms by (simp add: unat_word_ariths unat_of_nat_small)

lemma u24_add: "unat (q :: u32) + i < 2 ^ 24 \<Longrightarrow> is_u24 (q + of_nat i)"
  by (simp add: is_u24_def unat_add_small)

lemma numbered_frame_ok:
  assumes "f \<in> set (numbered rel ord (split_frames payload s))" "payload \<noteq> []" "is_u24 ord"
    and "unat rel + length (split_frames payload s) \<le> 2 ^ 24"
  shows "frame_ok f"
proof -
  obtain i where i: "i < length (split_frames payload s)"
    "f = numbered rel ord (split_frames payload s) ! i"
    using assms(1) by (auto simp: in_set_conv_nth)
  let ?g = "split_frames payload s ! i"
  have "?g \<in> set (split_frames payload s)" using i(1) by simp
  from split_frame_cases[OF this[unfolded split_frames_def]]
  have g: "fr_reliability ?g = ReliableOrdered" "fr_sequence_index ?g = 0" "fr_payload ?g \<noteq> []"
    "length (fr_payload ?g) \<le> fragment_capacity (payload_limit (se_config s))"
    using assms(2) by (simp_all add: split_frames_def)
  have "is_u24 (rel + of_nat i)" using assms(4) i(1) by (intro u24_add) simp
  then show ?thesis
    using g i assms(3)
    by (simp add: numbered_nth frame_ok_def is_ordered_def max_frame_body_def fragment_capacity_def
        max_frame_payload_def)
qed

lemma sent_datagram_decodes:
  assumes "payload \<noteq> []" "is_u24 (se_next_order s)" "payload_limit (se_config s) \<le> usize_max"
    and "unat (se_next_reliable s) + length (split_frames payload s) \<le> 2 ^ 24"
    and "unat q + length (outgoing payload s) \<le> 2 ^ 24" "i < length (outgoing payload s)"
  shows "decode_datagram (snd (datagrams_of q (outgoing payload s) ! i))
    = Inr (FrameSet \<lparr>fs_sequence = q + of_nat i, fs_frames = outgoing payload s ! i\<rparr>)"
proof -
  let ?b = "outgoing payload s ! i"
  let ?d = "FrameSet \<lparr>fs_sequence = q + of_nat i, fs_frames = ?b\<rparr>"
  have b: "?b \<in> set (outgoing payload s)" using assms(6) by simp
  then have "set ?b \<subseteq> set (numbered (se_next_reliable s) (se_next_order s) (split_frames payload s))"
    using concat_batches[of "payload_limit (se_config s) - datagram_header_len"
        "numbered (se_next_reliable s) (se_next_order s) (split_frames payload s)" "[]" 0]
    by (auto simp: outgoing_def batches_of_def)
      (metis UN_I set_concat)
  then have "list_all frame_ok ?b"
    using numbered_frame_ok[OF _ assms(1,2,4)] by (auto simp: list_all_iff)
  moreover have "is_u24 (q + of_nat i)" using assms(5,6) by (intro u24_add) simp
  ultimately have "datagram_ok ?d" by simp
  moreover have "length (encode_datagram ?d []) \<le> usize_max"
    using outgoing_batches[OF b] assms(3) by (simp add: length_encode_frame_set del: encode_datagram.simps)
  ultimately show ?thesis
    using decode_encode_datagram[of ?d] by (simp add: datagrams_of_nth assms(6) del: encode_datagram.simps)
qed

section \<open>Properties\<close>

text \<open>C18: A send queues all of a payload or none of it.  On a closed session it is refused; without
  room for every datagram of the payload, in the outbox and in the retransmission window, it is
  refused before anything is numbered, tracked or queued; otherwise it succeeds, every datagram is
  tracked for retransmission and queued, and the counters advance by what was used.  A full
  window discovered halfway through cannot happen.\<close>

theorem send_all_or_nothing:
  assumes "sender_ok s"
  shows "session_send payload now s =
    (if is_closed s then (Inl SeClosed, s)
     else let frames = fst (splitter_split payload (fragment_capacity (payload_limit (se_config s))) (se_splitter s));
              sp = snd (splitter_split payload (fragment_capacity (payload_limit (se_config s))) (se_splitter s));
              bs = batches (payload_limit (se_config s) - datagram_header_len)
                     (numbered (se_next_reliable s) (se_next_order s) frames) [] 0;
              ds = datagrams_of (se_next_sequence s) bs
          in if length (se_outbox s) + length bs \<le> max_outbox (se_config s)
               \<and> in_flight_count (se_retransmitter s) + length bs
                   \<le> max_in_flight (cf_retransmit (se_config s))
             then (Inr (), s\<lparr>se_splitter := sp,
                se_next_sequence := se_next_sequence s + of_nat (length bs),
                se_next_reliable := se_next_reliable s + of_nat (length frames),
                se_next_order := se_next_order s + 1,
                se_retransmitter := track_all ds now (se_retransmitter s),
                se_outbox := se_outbox s @ map snd ds\<rparr>)
             else (Inl OutboxFull, s\<lparr>se_splitter := sp\<rparr>))"
  using session_send_outcome[OF assms, of payload now]
  by (auto simp: Let_def outgoing_def batches_of_def split_frames_def split_state_def sent_def
      has_room_def)

definition sample_session :: session where
  "sample_session = new_session (SockV4 10 0 0 1 7000) (SockV4 10 0 0 2 19132) default_config 0"

lemma sample_session_ok [simp]: "sender_ok sample_session"
  using retransmitter_inv_new[of "cf_retransmit default_config"]
  by (simp add: sender_ok_def sample_session_def new_session_def) (simp add: new_retransmitter_def)

lemma send_all_or_nothing_witness:
  "fst (session_send [1, 2, 3] 5 sample_session) = Inr ()"
proof -
  have "fst (splitter_split [1, 2, 3] (fragment_capacity (payload_limit (se_config sample_session)))
      (se_splitter sample_session)) = [new_frame ReliableOrdered [1, 2, 3]]"
    by (simp add: sample_session_def new_session_def default_config_def fragment_capacity_def
        datagram_header_len_def header_len_def is_ordered_def max_frame_payload_def splitter_split_def)
  then show ?thesis
    by (subst send_all_or_nothing[OF sample_session_ok])
      (simp add: Let_def sample_session_def new_session_def is_closed_def default_config_def
        in_flight_count_def new_retransmitter_def default_retransmit_limits_def)
qed

text \<open>No datagram a send queues is larger than the negotiated payload limit, whatever the
  payload and the limit.\<close>

lemma sent_datagrams_fit_the_limit:
  assumes "sender_ok s"
  shows "let s' = snd (session_send payload now s) in
    take (length (se_outbox s)) (se_outbox s') = se_outbox s
    \<and> list_all (\<lambda>d. length d \<le> payload_limit (se_config s)) (drop (length (se_outbox s)) (se_outbox s'))"
  using session_send_outcome[OF assms, of payload now]
    sent_datagram_fits[of _ "se_next_sequence s" payload s]
  by (simp add: sent_def Let_def list_all_iff)

end
