(* ===== verification/Receiving.thy ===== *)
theory Receiving
  imports Sending "HOL-Library.Sublist"
begin

text \<open>
  The session as a whole: the invariant every call keeps, the bounds it gives on what a peer can
  make the session hold, when a call panics, what is delivered, what a closed session does, and
  what the acknowledgements say.
\<close>

section \<open>The invariant\<close>

definition session_inv :: "config \<Rightarrow> session \<Rightarrow> bool" where
  "session_inv c s \<longleftrightarrow> se_config s = c
     \<and> retransmitter_inv (se_retransmitter s) \<and> rt_limits (se_retransmitter s) = cf_retransmit c
     \<and> reassembler_inv (se_reassembler s) \<and> ra_limits (se_reassembler s) = cf_split c
     \<and> ordering_inv (se_ordering s) \<and> window (se_ordering s) = order_window c
     \<and> dedup_good (se_dedup s) \<and> dd_window (se_dedup s) = dedup_window c
     \<and> length (se_outbox s) \<le> max_outbox c
     \<and> list_all is_u24 (se_pending_acks s)"

lemma session_inv_new: "session_inv c (new_session peer local c now)"
  by (simp add: session_inv_def new_session_def retransmitter_inv_new reassembler_inv_new
      ordering_inv_new) (simp add: new_retransmitter_def new_reassembler_def new_ordering_def new_dedup_def)

lemma session_inv_sender: "session_inv c s \<Longrightarrow> sender_ok s"
  by (simp add: session_inv_def sender_ok_def)

text \<open>Setting a field the invariant does not look at, or to a value it accepts.\<close>

lemma session_inv_frame [frame_cond, simp]:
  "session_inv c (s\<lparr>se_state := x\<rparr>) = session_inv c s"
  "session_inv c (s\<lparr>se_last_heard := t\<rparr>) = session_inv c s"
  "session_inv c (s\<lparr>se_last_ping := t\<rparr>) = session_inv c s"
  "session_inv c (s\<lparr>se_splitter := sp\<rparr>) = session_inv c s"
  by (simp_all add: session_inv_def)

lemma track_all_facts:
  "retransmitter_inv rt \<Longrightarrow> retransmitter_inv (track_all ds now rt)
     \<and> rt_limits (track_all ds now rt) = rt_limits rt"
proof (induction ds arbitrary: rt)
  case (Cons x ds)
  obtain q d where x: "x = (q, d)" by fastforce
  show ?case using Cons.IH[of "snd (track q d now rt)"] track_facts[OF Cons.prems, of q d now]
    by (simp add: x)
qed simp

lemma session_inv_send:
  assumes "session_inv c s"
  shows "session_inv c (snd (session_send payload now s))"
  using session_send_outcome[OF session_inv_sender[OF assms], of payload now] assms
    track_all_facts[of "se_retransmitter s" "datagrams_of (se_next_sequence s) (outgoing payload s)" now]
  by (auto simp: session_inv_def sent_def has_room_def)

lemma session_inv_queue_raw: "session_inv c s \<Longrightarrow> session_inv c (queue_raw b s)"
  by (auto simp: session_inv_def queue_raw_def)

lemma session_inv_resends: "session_inv c s \<Longrightarrow> session_inv c (queue_resends ds s)"
  unfolding queue_resends_def
  by (induction ds arbitrary: s) (auto intro: session_inv_queue_raw)

lemma session_inv_internal:
  assumes "session_inv c s"
  shows "session_inv c (snd (handle_internal p now s))"
proof -
  have send: "session_inv c (snd (case session_send x now s of
      (Inl e, s) \<Rightarrow> (Inl e, s) | (Inr _, s) \<Rightarrow> (Inr None :: session_error + bytes option, s)))" for x
    using session_inv_send[OF assms, of x now] by (auto split: prod.splits sum.splits)
  show ?thesis using assms send by (simp add: handle_internal_def Let_def split: list.splits)
qed

lemma session_inv_payloads:
  "session_inv c s \<Longrightarrow> session_inv c (snd (handle_payloads ps out now s))"
proof (induction ps out now s rule: handle_payloads.induct)
  case (2 p ps out now s)
  note inv = session_inv_internal[OF 2(3), of p now]
  show ?case
    using 2(1,2) inv by (fastforce split: prod.splits sum.splits option.splits)
qed simp

lemma session_inv_frame_step:
  assumes "session_inv c s" "header_wf f"
  shows "session_inv c (snd (receive_frame f out now s))"
proof -
  define fresh_s where "fresh_s = (if is_reliable (fr_reliability f)
      then (case dedup_accept (fr_reliable_index f) (se_dedup s) of (ok, d) \<Rightarrow> (ok, s\<lparr>se_dedup := d\<rparr>))
      else (True, s))"
  obtain fresh s1 where fs: "fresh_s = (fresh, s1)" by fastforce
  have dd: "dedup_good (snd (dedup_accept i (se_dedup s)))"
    "dd_window (snd (dedup_accept i (se_dedup s))) = dedup_window c" for i
    using assms(1) dedup.good_accept dedup_accept_refines(3)
    by (auto simp: session_inv_def dedup_good_def)
  have s1: "session_inv c s1"
    using fs assms(1) dd[of "fr_reliable_index f"]
    by (auto simp: fresh_s_def session_inv_def split: prod.splits if_splits)
  obtain res ra where push: "reassembler_push f now (se_reassembler s1) = (res, ra)" by fastforce
  have ra: "session_inv c (s1\<lparr>se_reassembler := ra\<rparr>)"
    using reassembler_inv_push[of "se_reassembler s1" f now] s1 push by (simp add: session_inv_def)
  have od: "session_inv c (s1\<lparr>se_reassembler := ra, se_ordering := snd (ordering_push (fr_order_index f) p (se_ordering s1))\<rparr>)"
    for p
    using ra assms(2) ordering_inv_push[of "se_ordering s1" "fr_order_index f" p]
    by (simp add: session_inv_def header_wf_def)
  have rf: "receive_frame f out now s =
    (if \<not> fresh then (Inr out, s1)
     else (case (res, ra) of
             (Inl e, ra) \<Rightarrow> (Inl (SeSplit e), s1\<lparr>se_reassembler := ra\<rparr>)
           | (Inr None, ra) \<Rightarrow> (Inr out, s1\<lparr>se_reassembler := ra\<rparr>)
           | (Inr (Some p), ra) \<Rightarrow>
               let s1 = s1\<lparr>se_reassembler := ra\<rparr> in
               if is_ordered (fr_reliability f)
               then (case ordering_push (fr_order_index f) p (se_ordering s1) of
                       (Inl e, od) \<Rightarrow> (Inl (SeOrder e), s1\<lparr>se_ordering := od\<rparr>)
                     | (Inr ps, od) \<Rightarrow> handle_payloads ps out now (s1\<lparr>se_ordering := od\<rparr>))
               else handle_payloads [p] out now s1))"
    unfolding receive_frame_def fresh_s_def[symmetric] fs push[symmetric] by simp
  show ?thesis
  proof (cases "fresh \<and> (\<exists>p. res = Inr (Some p))")
    case False
    then show ?thesis using s1 ra rf by (cases res) (auto split: option.splits)
  next
    case True
    then obtain p where p: "res = Inr (Some p)" "fresh" by blast
    obtain r od' where o: "ordering_push (fr_order_index f) p (se_ordering s1) = (r, od')" by fastforce
    show ?thesis
      using p rf ra od[of p] o session_inv_payloads
      by (cases r) (auto simp: Let_def simp del: handle_payloads.simps)
  qed
qed

lemma session_inv_frames:
  "session_inv c s \<Longrightarrow> list_all header_wf fs \<Longrightarrow> session_inv c (snd (receive_frames fs out now s))"
proof (induction fs out now s rule: receive_frames.induct)
  case (2 f fs out now s)
  have "session_inv c (snd (receive_frame f out now s))"
    using 2 by (intro session_inv_frame_step) simp_all
  then show ?case using 2(1,3) by (auto split: prod.splits sum.splits)
qed simp

lemma decoded_frames_wf:
  "decode_datagram b = Inr (FrameSet fs) \<Longrightarrow> is_u24 (fs_sequence fs) \<and> list_all header_wf (fs_frames fs)"
  using decode_datagram_within[of b "FrameSet fs"] by (auto simp: list_all_iff frame_wf_def)

lemma session_inv_receive:
  assumes inv: "session_inv c s" and rec: "session_receive b now s = Some (res, s')"
  shows "session_inv c s'"
proof (cases "is_closed s")
  case True
  then show ?thesis using assms by (auto simp: session_receive_def)
next
  case False
  let ?s = "s\<lparr>se_last_heard := now\<rparr>"
  have inv0: "session_inv c ?s" using inv by simp
  show ?thesis
  proof (cases "decode_datagram b")
    case (Inl e)
    then show ?thesis using False rec inv0 by (simp add: session_receive_def Let_def)
  next
    case (Inr d)
    show ?thesis
    proof (cases d)
      case (FrameSet fs)
      have "session_inv c (?s\<lparr>se_pending_acks := se_pending_acks ?s @ [fs_sequence fs]\<rparr>)"
        using inv0 decoded_frames_wf[of b fs] Inr FrameSet by (simp add: session_inv_def)
      moreover have "receive_frames (fs_frames fs) [] now
          (?s\<lparr>se_pending_acks := se_pending_acks ?s @ [fs_sequence fs]\<rparr>) = (res, s')"
        using False rec Inr FrameSet by (simp add: session_receive_def Let_def)
      ultimately show ?thesis
        using session_inv_frames decoded_frames_wf[of b fs] Inr FrameSet by (metis snd_conv)
    next
      case (Ack a)
      then obtain rt where "on_ack a now (se_retransmitter s) = Some rt"
        "s' = ?s\<lparr>se_retransmitter := rt\<rparr>"
        using False rec Inr by (auto simp: session_receive_def Let_def)
      then show ?thesis
        using on_ack_spec(1,2)[of "se_retransmitter s" a now rt] inv by (simp add: session_inv_def)
    next
      case (Nack a)
      then obtain ds rt where n: "on_nack a now (se_retransmitter s) = Some (ds, rt)"
        "s' = queue_resends ds (?s\<lparr>se_retransmitter := rt\<rparr>)"
        using False rec Inr by (auto simp: session_receive_def Let_def)
      have "session_inv c (?s\<lparr>se_retransmitter := rt\<rparr>)"
        using on_nack_spec(1,2)[OF _ n(1)] inv by (simp add: session_inv_def same_datagrams_def)
      then show ?thesis unfolding n(2) by (rule session_inv_resends)
    qed
  qed
qed

lemma session_inv_flush_acks: "session_inv c s \<Longrightarrow> session_inv c (flush_acks s)"
proof -
  assume "session_inv c s"
  then have "session_inv c (s\<lparr>se_pending_acks := []\<rparr>)" by (simp add: session_inv_def)
  then show ?thesis
    using \<open>session_inv c s\<close> session_inv_queue_raw by (simp add: flush_acks_def del: encode_datagram.simps)
qed

lemma session_inv_tick:
  assumes inv: "session_inv c s" and tick: "session_tick now s = Some s'"
  shows "session_inv c s'"
proof (cases "is_closed s \<or> now - se_last_heard s \<ge> cf_timeout (se_config s) \<or> rt_dead (se_retransmitter s)")
  case True
  then show ?thesis using inv tick by (auto simp: session_tick_def split: if_splits)
next
  case False
  let ?s = "flush_acks s"
  have inv1: "session_inv c ?s" using inv by (rule session_inv_flush_acks)
  obtain ds rt where d: "due now (se_retransmitter ?s) = Some (ds, rt)"
    using False tick by (auto simp: session_tick_def Let_def split: option.splits)
  obtain base where "rtt_timeout (rt_rtt (se_retransmitter ?s)) = Some base" using due_timeout[OF d] by blast
  from due_spec(1,2)[OF _ d this] have "session_inv c (?s\<lparr>se_retransmitter := rt\<rparr>)"
    using inv1 by (simp add: session_inv_def same_datagrams_def)
  then have inv2: "session_inv c (queue_resends ds (?s\<lparr>se_retransmitter := rt\<rparr>))"
    by (rule session_inv_resends)
  let ?s2 = "queue_resends ds (?s\<lparr>se_retransmitter := rt\<rparr>)"
  let ?s3 = "?s2\<lparr>se_reassembler := reassembler_expire now (se_reassembler ?s2)\<rparr>"
  have inv3: "session_inv c ?s3"
    using inv2 reassembler_inv_expire[of "se_reassembler ?s2" now] by (simp add: session_inv_def)
  have "s' = ?s3 \<or> (\<exists>p. s' = snd (session_send p now (?s3\<lparr>se_last_ping := now\<rparr>)))"
    using False tick d by (auto simp: session_tick_def Let_def split: if_splits)
  then show ?thesis using inv3 session_inv_send[of c "?s3\<lparr>se_last_ping := now\<rparr>"] by auto
qed

lemma session_inv_close: "session_inv c s \<Longrightarrow> session_inv c (session_close now s)"
  using session_inv_send by (simp add: session_close_def)

lemma session_inv_poll: "session_inv c s \<Longrightarrow> session_inv c (snd (poll_transmit s))"
  by (auto simp: poll_transmit_def session_inv_def split: list.splits)

section \<open>Runs\<close>

datatype session_event =
    Send bytes instant
  | Receive bytes instant
  | Tick instant
  | Poll
  | Close instant

fun session_step :: "session_event \<Rightarrow> session \<Rightarrow> session option" where
  "session_step (Send p now) s = Some (snd (session_send p now s))"
| "session_step (Receive b now) s = map_option snd (session_receive b now s)"
| "session_step (Tick now) s = session_tick now s"
| "session_step Poll s = Some (snd (poll_transmit s))"
| "session_step (Close now) s = Some (session_close now s)"

fun session_run :: "session_event list \<Rightarrow> session \<Rightarrow> session option" where
  "session_run [] s = Some s"
| "session_run (ev # evs) s =
     (case session_step ev s of None \<Rightarrow> None | Some s' \<Rightarrow> session_run evs s')"

lemma session_inv_step:
  assumes "session_inv c s" "session_step ev s = Some s'"
  shows "session_inv c s'"
  using assms session_inv_send session_inv_tick session_inv_close session_inv_poll
  by (cases ev) (auto dest: session_inv_receive)

lemma session_inv_run:
  "session_inv c s \<Longrightarrow> session_run evs s = Some s' \<Longrightarrow> session_inv c s'"
proof (induction evs arbitrary: s)
  case (Cons ev evs)
  then show ?case using session_inv_step[of c s ev] by (auto split: option.splits)
qed simp

section \<open>When a datagram is a panic\<close>

definition reversed_ranges :: "datagram \<Rightarrow> bool" where
  "reversed_ranges d = (case d of
     FrameSet _ \<Rightarrow> False | Ack a \<Rightarrow> \<not> ordered_ranges a | Nack a \<Rightarrow> \<not> ordered_ranges a)"

lemma on_nack_None: "on_nack a now r = None \<longleftrightarrow> \<not> ordered_ranges a"
  by (simp add: on_nack_def nack_ranges_None ordered_ranges_def)

lemma receive_None:
  "session_receive b now s = None \<longleftrightarrow>
     \<not> is_closed s \<and> (\<exists>d. decode_datagram b = Inr d \<and> reversed_ranges d)"
proof (cases "decode_datagram b")
  case (Inr d)
  then show ?thesis
    by (cases d) (auto simp: session_receive_def Let_def reversed_ranges_def on_ack_None on_nack_None)
qed (simp add: session_receive_def Let_def)

section \<open>Delivered payloads\<close>

text \<open>A payload for the caller: not empty and with an id of the application's.\<close>

definition user_payload :: "bytes \<Rightarrow> bool" where
  "user_payload p \<longleftrightarrow> p \<noteq> [] \<and> user_packet_start \<le> hd p"

lemma handle_internal_delivers:
  assumes "handle_internal p now s = (Inr (Some q), s')"
  shows "q = p \<and> user_payload p \<and> s' = s"
proof -
  obtain i r where p: "p = i # r" using assms by (auto simp: handle_internal_def split: list.splits)
  show ?thesis
    using assms unfolding p handle_internal_def list.case Let_def
    by (auto simp: user_payload_def split: if_splits prod.splits sum.splits)
qed

lemma handle_payloads_delivers:
  assumes "handle_payloads ps out now s = (Inr out', s')"
  shows "\<exists>more. out' = out @ more \<and> subseq more ps \<and> list_all user_payload more"
  using assms
proof (induction ps out now s arbitrary: out' s' rule: handle_payloads.induct)
  case (1 out now s)
  then show ?case by simp
next
  case (2 p ps out now s)
  obtain r s1 where h: "handle_internal p now s = (r, s1)" by fastforce
  consider e where "r = Inl e" | "r = Inr None" | q where "r = Inr (Some q)"
    by (metis not_None_eq old.sum.exhaust)
  then show ?case
  proof cases
    case 1
    then show ?thesis using 2(3) h by simp
  next
    case none: 2
    then have "handle_payloads ps out now s1 = (Inr out', s')" using 2(3) h by simp
    then show ?thesis using 2(1)[OF h[symmetric] none refl] by (auto intro: subseq_Cons2_neq list_emb_Cons)
  next
    case (3 q)
    then have "handle_payloads ps (out @ [q]) now s1 = (Inr out', s')" using 2(3) h by simp
    then obtain more where more: "out' = (out @ [q]) @ more" "subseq more ps" "list_all user_payload more"
      using 2(2)[OF h[symmetric] 3 refl] by blast
    have "q = p" "user_payload p" using handle_internal_delivers[of p now s q s1] h 3 by simp_all
    then show ?thesis using more by (intro exI[of _ "p # more"]) simp
  qed
qed

lemma receive_frame_delivers:
  assumes "receive_frame f out now s = (Inr out', s')"
  shows "\<exists>more. out' = out @ more \<and> list_all user_payload more"
proof -
  obtain fresh s1 where fs: "(if is_reliable (fr_reliability f)
      then (case dedup_accept (fr_reliable_index f) (se_dedup s) of (ok, d) \<Rightarrow> (ok, s\<lparr>se_dedup := d\<rparr>))
      else (True, s)) = (fresh, s1)" by fastforce
  show ?thesis
    using assms unfolding receive_frame_def fs
    by (auto simp: Let_def simp del: handle_payloads.simps split: if_splits prod.splits sum.splits
        option.splits dest!: handle_payloads_delivers)
qed

lemma receive_frames_delivers:
  assumes "receive_frames fs out now s = (Inr out', s')"
  shows "\<exists>more. out' = out @ more \<and> list_all user_payload more"
  using assms
proof (induction fs out now s arbitrary: out' s' rule: receive_frames.induct)
  case (2 f fs out now s)
  obtain r s1 where f: "receive_frame f out now s = (r, s1)" by fastforce
  then obtain o1 where o1: "r = Inr o1" using 2(2) by (cases r) auto
  then have "receive_frames fs o1 now s1 = (Inr out', s')" using 2(2) f by simp
  from 2(1)[OF f[symmetric] o1 this] receive_frame_delivers[of f out now s o1 s1] f o1
  show ?case by auto
qed simp

section \<open>What the acknowledgements say\<close>

text \<open>The numbers covered by a list of ranges.\<close>

definition covered :: "(u32 \<times> u32) list \<Rightarrow> u32 set" where
  "covered rs = {k. \<exists>(a, b) \<in> set rs. a \<le> k \<and> k \<le> b}"



lemma covered_nil [simp]: "covered [] = {}"
  by (simp add: covered_def)






section \<open>Properties\<close>

lemma session_inv_bounds:
  assumes "session_inv c s"
  shows "length (se_outbox s) \<le> max_outbox c
    \<and> in_flight_count (se_retransmitter s) \<le> max_in_flight (cf_retransmit c)
    \<and> ra_buffered (se_reassembler s) \<le> max_payload (cf_split c)
    \<and> bt_len (ra_pending (se_reassembler s)) \<le> max_pending (cf_split c)
    \<and> bt_len (buffered (se_ordering s)) \<le> unat (order_window c) - 1
    \<and> card (seen (se_dedup s)) \<le> unat (dedup_window c) + 1"
proof -
  obtain H where "dedup_abs H (se_dedup s)" using assms by (auto simp: session_inv_def dedup_good_def)
  then show ?thesis
    using assms dedup_tracked_bound[of H "se_dedup s"] ordering_buffer_bound[of "se_ordering s"]
    by (auto simp: session_inv_def retransmitter_inv_def in_flight_count_def reassembler_inv_def)
qed

text \<open>C10: Whatever a peer sends and whatever the caller does, a session never holds more than its
  configuration allows: queued datagrams, datagrams in flight, bytes and entries of the
  reassembler, payloads ahead of a gap, and remembered reliable indices.\<close>

theorem session_holds_what_its_config_allows:
  assumes "session_run evs (new_session peer local c now) = Some s"
  shows "length (se_outbox s) \<le> max_outbox c
    \<and> in_flight_count (se_retransmitter s) \<le> max_in_flight (cf_retransmit c)
    \<and> ra_buffered (se_reassembler s) \<le> max_payload (cf_split c)
    \<and> bt_len (ra_pending (se_reassembler s)) \<le> max_pending (cf_split c)
    \<and> bt_len (buffered (se_ordering s)) \<le> unat (order_window c) - 1
    \<and> card (seen (se_dedup s)) \<le> unat (dedup_window c) + 1"
  using session_inv_bounds[OF session_inv_run[OF session_inv_new assms]] .

lemma session_holds_what_its_config_allows_witness:
  "\<exists>s. session_run [Receive [] 1, Poll, Close 3] (new_session (SockV4 1 2 3 4 5) (SockV4 5 6 7 8 9)
        default_config 0) = Some s
    \<and> length (se_outbox s) \<le> 256 \<and> in_flight_count (se_retransmitter s) \<le> 512
    \<and> card (seen (se_dedup s)) \<le> 4097"
proof -
  let ?evs = "[Receive [] 1, Poll, Close 3]"
  let ?s0 = "new_session (SockV4 1 2 3 4 5) (SockV4 5 6 7 8 9) default_config 0"
  have "decode_datagram [] \<noteq> Inr d" for d using decode_datagram_within[of "[]" d]
    by (cases d) (auto simp: datagram_header_len_def)
  then obtain r s1 where "session_receive [] 1 ?s0 = Some (r, s1)"
    using receive_None[of "[]" 1 ?s0] by (metis not_None_eq surj_pair)
  then obtain s where "session_run ?evs ?s0 = Some s" by simp
  then show ?thesis
    using session_holds_what_its_config_allows[of ?evs "SockV4 1 2 3 4 5" "SockV4 5 6 7 8 9" default_config 0 s]
    by (simp add: default_config_def default_retransmit_limits_def)
qed

text \<open>C27: A received datagram makes the session panic exactly when the session is open and the
  datagram is an acknowledgement, positive or negative, with a reversed range.  Every other byte
  string is answered with a value.\<close>

theorem receive_panics_exactly_on_reversed_ranges:
  "session_receive b now s = None \<longleftrightarrow>
     \<not> is_closed s \<and> (\<exists>d. decode_datagram b = Inr d \<and> reversed_ranges d)"
  by (rule receive_None)

text \<open>Ten bytes from the network take a process down: an acknowledgement of the range from
  5 down to 3 decodes, and every open session that receives it panics.\<close>

lemma reversed_acknowledgement_panics:
  assumes "\<not> is_closed s"
  shows "session_receive [0xC0, 0, 1, 0, 5, 0, 0, 3, 0, 0] now s = None"
proof -
  let ?a = "\<lparr>ranges = [(5, 3)]\<rparr>"
  have "encode_datagram (Ack ?a) [] = [0xC0, 0, 1, 0, 5, 0, 0, 3, 0, 0]"
    by (simp add: encode_ack_def encode_range_def writer_defs flag_valid_def flag_ack_def Let_def
        u16_or_max_def be_bytes_2)
  moreover have "datagram_ok (Ack ?a)" by (simp add: ack_ok_def range_ok_def is_u24_def)
  ultimately have "decode_datagram [0xC0, 0, 1, 0, 5, 0, 0, 3, 0, 0] = Inr (Ack ?a)"
    using decode_encode_datagram[of "Ack ?a"] by (simp add: usize_max_def)
  then show ?thesis
    using assms by (simp add: session_receive_def Let_def on_ack_None ordered_ranges_def)
qed

text \<open>What a session hands to its caller is never one of RakNet's own packets: every
  delivered payload is not empty and starts with an id of \<^verbatim>\<open>USER_PACKET_START\<close> or above.\<close>

lemma delivered_payloads_are_the_users:
  assumes "session_receive b now s = Some (Inr ps, s')"
  shows "list_all (\<lambda>p. p \<noteq> [] \<and> 0x86 \<le> hd p) ps"
proof -
  consider "ps = []" | fs s1 where "receive_frames fs [] now s1 = (Inr ps, s')"
    using assms by (auto simp: session_receive_def Let_def split: if_splits sum.splits datagram.splits)
  then show ?thesis
  proof cases
    case 2
    from receive_frames_delivers[OF this] show ?thesis
      by (simp add: user_payload_def user_packet_start_def list_all_iff)
  qed simp
qed

text \<open>A closed session stays closed and does nothing: sends and receives are refused, ticks and
  closes change nothing, and all that any run of calls can do is take queued datagrams out.\<close>

lemma closed_is_final:
  assumes "is_closed s"
  shows "\<exists>n. session_run evs s = Some (s\<lparr>se_outbox := drop n (se_outbox s)\<rparr>)"
  using assms
proof (induction evs arbitrary: s)
  case Nil
  show ?case by (intro exI[of _ 0]) simp
next
  case (Cons ev evs)
  obtain n where n: "session_step ev s = Some (s\<lparr>se_outbox := drop n (se_outbox s)\<rparr>)"
  proof (cases ev)
    case Poll
    then have "session_step ev s = Some (s\<lparr>se_outbox := drop 1 (se_outbox s)\<rparr>)"
      by (cases "se_outbox s") (simp_all add: poll_transmit_def)
    then show ?thesis using that by blast
  qed (use Cons.prems in \<open>auto simp: session_send_def session_receive_def session_tick_def
      session_close_def intro!: that[of 0]\<close>)
  let ?s = "s\<lparr>se_outbox := drop n (se_outbox s)\<rparr>"
  have "is_closed ?s" using Cons.prems by (simp add: is_closed_def)
  from Cons.IH[OF this] obtain m where
    "session_run evs ?s = Some (?s\<lparr>se_outbox := drop m (se_outbox ?s)\<rparr>)" by blast
  then show ?case using n by (intro exI[of _ "m + n"]) simp
qed

text \<open>A tick never panics under sane retransmission limits, and closes a session exactly when
  nothing was heard for the timeout or a datagram ran out of retries.\<close>

lemma tick_outcome:
  assumes "session_inv c s" "min_rto (cf_retransmit c) \<le> max_rto (cf_retransmit c)" "\<not> is_closed s"
  shows "\<exists>s'. session_tick now s = Some s' \<and> closed_because s' =
    (if now - se_last_heard s \<ge> cf_timeout c then Some Timeout
     else if rt_dead (se_retransmitter s) then Some Unreachable else None)"
proof -
  have c: "se_config s = c" using assms(1) by (simp add: session_inv_def)
  consider (timeout) "now - se_last_heard s \<ge> cf_timeout c"
    | (dead) "\<not> now - se_last_heard s \<ge> cf_timeout c" "rt_dead (se_retransmitter s)"
    | (alive) "\<not> now - se_last_heard s \<ge> cf_timeout c" "\<not> rt_dead (se_retransmitter s)" by blast
  then show ?thesis
  proof cases
    case alive
    let ?s = "flush_acks s"
    have raw: "se_state (queue_raw b x) = se_state x" for b x by (simp add: queue_raw_def)
    have st: "se_state ?s = se_state s" by (simp add: flush_acks_def raw del: encode_datagram.simps)
    have "session_inv c ?s" using assms(1) by (rule session_inv_flush_acks)
    then obtain ds rt where d: "due now (se_retransmitter ?s) = Some (ds, rt)"
      using due_total[of "se_retransmitter ?s" now] assms(2) by (auto simp: session_inv_def)
    have resend: "se_state (queue_resends ds x) = se_state x" for ds x
      unfolding queue_resends_def by (induction ds arbitrary: x) (simp_all add: raw)
    have send: "se_state (snd (session_send p now x)) = se_state x" if "sender_ok x" for p x
      using session_send_outcome[OF that, of p now] by (simp add: sent_def)
    have rt: "retransmitter_inv rt \<and> rt_limits rt = cf_retransmit c"
      using due_spec(1,2)[OF _ d] due_timeout[OF d] \<open>session_inv c ?s\<close>
      by (auto simp: session_inv_def same_datagrams_def)
    define s2 where "s2 = queue_resends ds (?s\<lparr>se_retransmitter := rt\<rparr>)"
    have conf: "se_config (queue_raw b x) = se_config x" "se_retransmitter (queue_raw b x) = se_retransmitter x"
      for b x by (simp_all add: queue_raw_def)
    have conf2: "se_config (queue_resends ds x) = se_config x"
      "se_retransmitter (queue_resends ds x) = se_retransmitter x" for ds x
      unfolding queue_resends_def by (induction ds arbitrary: x) (simp_all add: conf)
    have "se_config ?s = c" using c by (simp add: flush_acks_def conf del: encode_datagram.simps)
    then have ok: "sender_ok (s2\<lparr>se_reassembler := y, se_last_ping := now\<rparr>)" for y
      using rt by (simp add: s2_def sender_ok_def conf2)
    have state2: "se_state s2 = se_state s" by (simp add: s2_def resend st)
    have "closed_because x = None" if "se_state x = se_state s" for x
      using that assms(3) by (simp add: closed_because_def is_closed_def split: state.splits)
    moreover have "\<exists>s'. session_tick now s = Some s' \<and> se_state s' = se_state s"
      using alive assms(3) d send[OF ok] state2
      by (simp add: session_tick_def Let_def c s2_def[symmetric])
    ultimately show ?thesis using alive by auto
  qed (use assms(3) c in \<open>simp_all add: session_tick_def closed_because_def\<close>)
qed






section \<open>Where a session loses what it was sent\<close>

text \<open>An index is noted when it is accepted, so a frame that is refused afterwards, by the reassembler or by
  the ordering buffer, is dropped as a duplicate when it is sent again.\<close>

lemma accepted_is_seen: "dedup_accept i d = (True, d') \<Longrightarrow> dedup_accept i d' = (False, d')"
  by (auto simp: dedup_accept_def Let_def split: if_splits)

lemma frame_refused_by_reassembler_is_lost:
  assumes "is_reliable (fr_reliability f)" "dedup_accept (fr_reliable_index f) (se_dedup s) = (True, d)"
    "reassembler_push f now (se_reassembler s) = (Inl e, ra)"
  shows "\<exists>s'. receive_frame f ds now s = (Inl (SeSplit e), s') \<and> receive_frame f ds' later s' = (Inr ds', s')"
proof -
  have "x\<lparr>se_dedup := se_dedup x\<rparr> = x" for x :: session by simp
  with assms accepted_is_seen[OF assms(2)] show ?thesis
    by (intro exI[of _ "s\<lparr>se_dedup := d, se_reassembler := ra\<rparr>"]) (simp add: receive_frame_def)
qed

lemma frame_out_of_window_is_lost:
  assumes "is_reliable (fr_reliability f)" "is_ordered (fr_reliability f)"
    "dedup_accept (fr_reliable_index f) (se_dedup s) = (True, d)"
    "reassembler_push f now (se_reassembler s) = (Inr (Some payload), ra)"
    "ordering_push (fr_order_index f) payload (se_ordering s) = (Inl e, od)"
  shows "\<exists>s'. receive_frame f ds now s = (Inl (SeOrder e), s') \<and> receive_frame f ds' later s' = (Inr ds', s')"
  using assms accepted_is_seen[OF assms(3)]
  by (intro exI[of _ "s\<lparr>se_dedup := d, se_reassembler := ra, se_ordering := od\<rparr>"]) (simp add: receive_frame_def)

text \<open>The counters of a sender go on past the 24 bits of the wire: once the receiver waits for the payload after
  the last index the wire can carry, every ordered payload is taken for one that has passed.\<close>

lemma ordering_stalls_after_the_last_index:
  assumes "\<not> is_u24 (expected s)" "is_u24 index"
  shows "ordering_push index payload s = (Inr [], s)"
  using assms by (simp add: ordering_push_def is_u24_def word_less_nat_alt)

lemma last_index_ends_the_range:
  "ordering_push 0xFFFFFF payload \<lparr>expected = 0xFFFFFF, buffered = bt_new, window = 2048\<rparr>
     = (Inr [payload], \<lparr>expected = 2 ^ 24, buffered = bt_new, window = 2048\<rparr>)"
  by (simp add: ordering_push_def bt_new_def bt_get_def bt_remove_def drain.simps word_saturating_sub_def)

end
