(* ===== verification/Listener.thy ===== *)
theory Listener
  imports Receiving Offline
begin

text \<open>
  \<^verbatim>\<open>bedrock-raknet/src/listener.rs\<close>: the server side.  It answers the offline phase, limits how
  often one address is sent a pong, and owns one session per peer.

  A panic is \<^const>\<open>None\<close>.  The tables are hash maps; \<open>listener_tick\<close> takes the order in which it
  visits the sessions as an argument, since the program's order is not determined.
\<close>

section \<open>State\<close>

datatype event =
    EvConnected socket_addr
  | EvPayload socket_addr bytes
  | EvDisconnected socket_addr closed

record listener_config =
  lc_session :: config
  max_advertisement :: nat
  ping_interval :: duration
  max_tracked_sources :: nat
  max_sessions :: nat

definition default_listener_config :: listener_config where
  "default_listener_config = \<lparr>lc_session = default_config, max_advertisement = 256,
     ping_interval = 100 * 10 ^ 6, max_tracked_sources = 4096, max_sessions = 128\<rparr>"

record listener =
  li_local :: socket_addr
  li_guid :: i64
  li_advertisement :: bytes
  li_config :: listener_config
  li_sessions :: "(socket_addr, session) hash_map"
  li_outbox :: "(socket_addr \<times> bytes) list"
  li_last_ping :: "(ip_addr, instant) hash_map"

text \<open>
  \<^verbatim>\<open>String::truncate\<close>: nothing when the string is short enough, a panic when the cut is not on
  a character boundary.
\<close>

definition string_truncate :: "nat \<Rightarrow> bytes \<Rightarrow> bytes option" where
  "string_truncate n s =
     (if n > length s then Some s
      else if n = length s \<or> \<not> utf8_tail (s ! n) then Some (take n s)
      else None)"

definition new_listener :: "socket_addr \<Rightarrow> i64 \<Rightarrow> bytes \<Rightarrow> listener_config \<Rightarrow> listener option" where
  "new_listener local guid advertisement config =
     map_option (\<lambda>adv. \<lparr>li_local = local, li_guid = guid, li_advertisement = adv, li_config = config,
         li_sessions = hm_new, li_outbox = [], li_last_ping = hm_new\<rparr>)
       (string_truncate (max_advertisement config) advertisement)"

definition listener_sessions :: "listener \<Rightarrow> nat" where
  "listener_sessions l = hm_len (li_sessions l)"

definition listener_poll_transmit :: "listener \<Rightarrow> (socket_addr \<times> bytes) option \<times> listener" where
  "listener_poll_transmit l =
     (case li_outbox l of
        [] \<Rightarrow> (None, l)
      | d # ds \<Rightarrow> (Some d, l\<lparr>li_outbox := ds\<rparr>))"

text \<open>The loop \<^verbatim>\<open>while let Some(datagram) = session.poll_transmit()\<close>.\<close>

function drain_outbox :: "(socket_addr \<times> bytes) list \<Rightarrow> socket_addr \<Rightarrow> session
    \<Rightarrow> (socket_addr \<times> bytes) list \<times> session" where
  "drain_outbox outbox peer s =
     (case poll_transmit s of
        (None, s) \<Rightarrow> (outbox, s)
      | (Some datagram, s) \<Rightarrow> drain_outbox (outbox @ [(peer, datagram)]) peer s)"
  by pat_completeness auto
termination drain_outbox
  by (relation "measure (\<lambda>(out, peer, s). length (se_outbox s))")
    (auto simp: poll_transmit_def split: list.splits)

declare drain_outbox.simps [simp del]

definition listener_send :: "socket_addr \<Rightarrow> bytes \<Rightarrow> instant \<Rightarrow> listener
    \<Rightarrow> (session_error + unit) \<times> listener" where
  "listener_send peer payload now l =
     (case hm_get (li_sessions l) peer of
        None \<Rightarrow> (Inl SeClosed, l)
      | Some s \<Rightarrow>
          (case session_send payload now s of
             (Inl e, s) \<Rightarrow> (Inl e, l\<lparr>li_sessions := hm_insert peer s (li_sessions l)\<rparr>)
           | (Inr _, s) \<Rightarrow>
               (case drain_outbox (li_outbox l) peer s of
                  (outbox, s) \<Rightarrow> (Inr (),
                    l\<lparr>li_sessions := hm_insert peer s (li_sessions l), li_outbox := outbox\<rparr>))))"

definition listener_reply :: "socket_addr \<Rightarrow> bytes \<Rightarrow> listener \<Rightarrow> listener" where
  "listener_reply to b l = l\<lparr>li_outbox := li_outbox l @ [(to, b)]\<rparr>"

definition allow_ping :: "socket_addr \<Rightarrow> instant \<Rightarrow> listener \<Rightarrow> bool \<times> listener" where
  "allow_ping from now l =
     (let l = (if hm_len (li_last_ping l) \<ge> max_tracked_sources (li_config l)
               then l\<lparr>li_last_ping := hm_retain
                        (\<lambda>_ t. now - t < ping_interval (li_config l)) (li_last_ping l)\<rparr>
               else l);
          fresh = l\<lparr>li_last_ping := hm_insert (addr_ip from) now (li_last_ping l)\<rparr>
      in case hm_get (li_last_ping l) (addr_ip from) of
           Some t \<Rightarrow> if now - t < ping_interval (li_config l) then (False, l) else (True, fresh)
         | None \<Rightarrow> (True, fresh))"

section \<open>The offline phase\<close>

definition handle_ping :: "socket_addr \<Rightarrow> bytes \<Rightarrow> listener \<Rightarrow> listener" where
  "handle_ping from b l =
     (case fst (rd_bind read_u8 (\<lambda>_. read_i64) (new_reader b)) of
        Inl _ \<Rightarrow> l
      | Inr time \<Rightarrow>
          let w = write_u8 id_unconnected_pong new_writer;
              w = write_i64 time w;
              w = write_i64 (li_guid l) w;
              w = write_bytes magic w;
              w = write_u16 (u16_or_max (length (li_advertisement l))) w;
              w = write_bytes (li_advertisement l) w
          in listener_reply from w l)"

definition handle_request_1 :: "socket_addr \<Rightarrow> bytes \<Rightarrow> listener \<Rightarrow> listener" where
  "handle_request_1 from b l =
     (case fst (rd_bind read_u8 (\<lambda>_. rd_bind (read_array 16) (\<lambda>_. read_u8)) (new_reader b)) of
        Inl _ \<Rightarrow> l
      | Inr version \<Rightarrow>
          if version \<noteq> protocol_version then
            (let w = write_u8 id_incompatible_protocol_version new_writer;
                 w = write_u8 protocol_version w;
                 w = write_bytes magic w;
                 w = write_i64 (li_guid l) w
             in listener_reply from w l)
          else
            (let mtu = min (length b + udp_ip_overhead) (max_mtu + udp_ip_overhead);
                 w = write_u8 id_open_connection_reply_1 new_writer;
                 w = write_bytes magic w;
                 w = write_i64 (li_guid l) w;
                 w = write_u8 0 w;
                 w = write_u16 (u16_or_max mtu) w
             in listener_reply from w l))"

definition no_detail :: "address_error \<Rightarrow> decode_error" where
  "no_detail e = \<lparr>needed = 0, available = 0\<rparr>"

definition handle_request_2 :: "socket_addr \<Rightarrow> bytes \<Rightarrow> instant \<Rightarrow> listener \<Rightarrow> listener" where
  "handle_request_2 from b now l =
     (if hm_len (li_sessions l) \<ge> max_sessions (li_config l) then l
      else
        (case fst (rd_bind read_u8 (\<lambda>_. rd_bind (read_array 16) (\<lambda>_.
               rd_bind (rd_err no_detail read_addr) (\<lambda>_. read_u16))) (new_reader b)) of
           Inl _ \<Rightarrow> l
         | Inr mtu \<Rightarrow>
             let w = write_u8 id_open_connection_reply_2 new_writer;
                 w = write_bytes magic w;
                 w = write_i64 (li_guid l) w;
                 w = write_addr from w;
                 w = write_u16 mtu w;
                 w = write_u8 0 w;
                 l = listener_reply from w l;
                 config = (lc_session (li_config l))\<lparr>payload_limit := max (mtu_payload_limit mtu) 576\<rparr>
             in l\<lparr>li_sessions := hm_insert from (new_session from (li_local l) config now) (li_sessions l)\<rparr>))"

definition listener_offline :: "socket_addr \<Rightarrow> bytes \<Rightarrow> instant \<Rightarrow> listener \<Rightarrow> listener" where
  "listener_offline from b now l =
     (case b of
        [] \<Rightarrow> l
      | i # _ \<Rightarrow>
          if i = id_unconnected_ping
          then (case allow_ping from now l of (allowed, l) \<Rightarrow> if allowed then handle_ping from b l else l)
          else if i = id_open_connection_request_1 then handle_request_1 from b l
          else if i = id_open_connection_request_2 then handle_request_2 from b now l
          else l)"

section \<open>Connected peers\<close>

definition listener_receive :: "socket_addr \<Rightarrow> bytes \<Rightarrow> instant \<Rightarrow> listener
    \<Rightarrow> (event list \<times> listener) option" where
  "listener_receive from b now l =
     (case hm_get (li_sessions l) from of
        None \<Rightarrow> Some ([], listener_offline from b now l)
      | Some session \<Rightarrow>
          let before = se_state session in
          (case session_receive b now session of
             None \<Rightarrow> None
           | Some (result, session) \<Rightarrow>
               let payloads = (case result of Inl _ \<Rightarrow> [] | Inr ps \<Rightarrow> ps);
                   connected = (before \<noteq> Connected \<and> se_state session = Connected);
                   closed = closed_because session
               in (case drain_outbox (li_outbox l) from session of
                     (outbox, session) \<Rightarrow>
                       let l = l\<lparr>li_outbox := outbox, li_sessions := hm_insert from session (li_sessions l)\<rparr>;
                           events = map (EvPayload from) payloads
                       in (case closed of
                             Some reason \<Rightarrow> Some (events @ [EvDisconnected from reason],
                               l\<lparr>li_sessions := hm_remove from (li_sessions l)\<rparr>)
                           | None \<Rightarrow> Some (if connected then EvConnected from # events else events, l)))))"

text \<open>One session of the loop in \<^verbatim>\<open>tick\<close>; \<open>gone\<close> collects the peers that ended.\<close>

fun tick_sessions :: "socket_addr list \<Rightarrow> instant \<Rightarrow> (socket_addr \<times> closed) list \<Rightarrow> listener
    \<Rightarrow> ((socket_addr \<times> closed) list \<times> listener) option" where
  "tick_sessions [] now gone l = Some (gone, l)"
| "tick_sessions (peer # peers) now gone l =
     (case hm_get (li_sessions l) peer of
        None \<Rightarrow> tick_sessions peers now gone l
      | Some session \<Rightarrow>
          (case session_tick now session of
             None \<Rightarrow> None
           | Some session \<Rightarrow>
               (case drain_outbox (li_outbox l) peer session of
                  (outbox, session) \<Rightarrow>
                    let l = l\<lparr>li_outbox := outbox, li_sessions := hm_insert peer session (li_sessions l)\<rparr>
                    in tick_sessions peers now
                         (case closed_because session of Some reason \<Rightarrow> gone @ [(peer, reason)] | None \<Rightarrow> gone) l)))"

definition listener_tick :: "socket_addr list \<Rightarrow> instant \<Rightarrow> listener \<Rightarrow> (event list \<times> listener) option" where
  "listener_tick order now l =
     map_option (\<lambda>(gone, l).
         (map (\<lambda>(peer, reason). EvDisconnected peer reason) gone,
          fold (\<lambda>(peer, _) l. l\<lparr>li_sessions := hm_remove peer (li_sessions l)\<rparr>) gone l))
       (tick_sessions order now [] l)"

section \<open>Draining a session\<close>

lemma drain_outbox_all:
  "drain_outbox out peer s = (out @ map (Pair peer) (se_outbox s), s\<lparr>se_outbox := []\<rparr>)"
proof (induction "se_outbox s" arbitrary: out s)
  case Nil
  then have "se_outbox s = []" by simp
  moreover from this have "s\<lparr>se_outbox := []\<rparr> = s" by (cases s) simp
  ultimately show ?case by (simp add: drain_outbox.simps[of out] poll_transmit_def)
next
  case (Cons d ds)
  then have s: "se_outbox s = d # ds" by simp
  have "drain_outbox out peer s = drain_outbox (out @ [(peer, d)]) peer (s\<lparr>se_outbox := ds\<rparr>)"
    by (simp add: drain_outbox.simps[of out] poll_transmit_def s)
  also have "\<dots> = (out @ map (Pair peer) (d # ds), s\<lparr>se_outbox := []\<rparr>)"
    using Cons(1)[of "s\<lparr>se_outbox := ds\<rparr>" "out @ [(peer, d)]"] by simp
  finally show ?case by (simp add: s)
qed

section \<open>The invariant\<close>

text \<open>
  Between calls: the tables are maps, there are no more sessions than allowed, every session
  keeps its own invariant, is open, and has nothing queued.
\<close>

definition session_at_rest :: "session \<Rightarrow> bool" where
  "session_at_rest s \<longleftrightarrow> session_inv (se_config s) s \<and> \<not> is_closed s \<and> se_outbox s = []"

text \<open>A session is configured as the listener is, but for the payload limit, which was agreed with its peer.\<close>

definition same_limits :: "listener \<Rightarrow> session \<Rightarrow> bool" where
  "same_limits l s \<longleftrightarrow> se_config s = (lc_session (li_config l))\<lparr>payload_limit := payload_limit (se_config s)\<rparr>"

definition listener_inv :: "listener \<Rightarrow> bool" where
  "listener_inv l \<longleftrightarrow> hm_ok (li_sessions l) \<and> hm_ok (li_last_ping l)
     \<and> hm_len (li_sessions l) \<le> max_sessions (li_config l)
     \<and> (\<forall>p s. hm_get (li_sessions l) p = Some s \<longrightarrow> session_at_rest s \<and> same_limits l s)"

lemma session_inv_config: "session_inv c s \<Longrightarrow> se_config s = c"
  by (simp add: session_inv_def)

lemma session_inv_empty_outbox [simp]: "session_inv c s \<Longrightarrow> session_inv c (s\<lparr>se_outbox := []\<rparr>)"
  by (simp add: session_inv_def)

lemma is_closed_outbox [simp]: "is_closed (s\<lparr>se_outbox := x\<rparr>) = is_closed s"
  "closed_because (s\<lparr>se_outbox := x\<rparr>) = closed_because s"
  by (simp_all add: is_closed_def closed_because_def)

lemma closed_because_None: "closed_because s = None \<longleftrightarrow> \<not> is_closed s"
  by (simp add: closed_because_def is_closed_def split: state.splits)

lemma at_rest_drained:
  "session_inv c s \<Longrightarrow> \<not> is_closed s \<Longrightarrow> session_at_rest (s\<lparr>se_outbox := []\<rparr>)"
  using session_inv_config[of c s] by (simp add: session_at_rest_def)

lemma listener_inv_put:
  assumes "listener_inv l" "hm_get (li_sessions l) p = Some old" "session_at_rest s"
    "se_config s = se_config old"
  shows "listener_inv (l\<lparr>li_outbox := out, li_sessions := hm_insert p s (li_sessions l)\<rparr>)"
  using assms by (auto simp: listener_inv_def same_limits_def hm.get_ins hm.invar_ins hm_len_insert)

lemma listener_inv_drop:
  assumes "listener_inv l"
  shows "listener_inv (l\<lparr>li_sessions := hm_remove p (li_sessions l)\<rparr>)"
  using assms hm_len_remove_le[of p "li_sessions l"]
  by (auto simp: listener_inv_def same_limits_def hm.get_del hm.invar_del split: if_splits)

lemma listener_inv_outbox [simp]: "listener_inv (l\<lparr>li_outbox := x\<rparr>) = listener_inv l"
  by (simp add: listener_inv_def same_limits_def)

lemma listener_inv_new:
  "new_listener local guid adv c = Some l \<Longrightarrow> listener_inv l \<and> li_config l = c"
  by (auto simp: new_listener_def listener_inv_def hm.invar_emp hm.get_emp) (simp add: hm_new_def hm_len_def)

lemma listener_inv_allow_ping:
  assumes "listener_inv l"
  shows "listener_inv (snd (allow_ping from now l)) \<and> li_config (snd (allow_ping from now l)) = li_config l
    \<and> li_sessions (snd (allow_ping from now l)) = li_sessions l"
  using assms
  by (auto simp: allow_ping_def Let_def listener_inv_def same_limits_def hm_ok_retain hm.invar_ins
      split: option.splits)

lemma listener_inv_reply [simp]: "listener_inv (listener_reply to b l) = listener_inv l"
  "li_config (listener_reply to b l) = li_config l" "li_sessions (listener_reply to b l) = li_sessions l"
  "li_local (listener_reply to b l) = li_local l"
  by (simp_all add: listener_reply_def)

lemma new_session_at_rest: "session_at_rest (new_session p local c now)"
  using session_inv_new[of c p local now]
  by (simp add: session_at_rest_def) (simp add: new_session_def is_closed_def)

lemma listener_inv_request_2:
  assumes "listener_inv l" "hm_get (li_sessions l) from = None"
  shows "listener_inv (handle_request_2 from b now l) \<and> li_config (handle_request_2 from b now l) = li_config l"
proof -
  let ?c = "\<lambda>mtu. (lc_session (li_config l))\<lparr>payload_limit := max (mtu_payload_limit mtu) 576\<rparr>"
  have "listener_inv (l'\<lparr>li_sessions := hm_insert from (new_session from lo (?c mtu) now) (li_sessions l)\<rparr>)"
    if "li_sessions l' = li_sessions l" "li_config l' = li_config l" "li_last_ping l' = li_last_ping l"
      "hm_len (li_sessions l) < max_sessions (li_config l)" for l' lo mtu
    using assms that
    by (auto simp: listener_inv_def same_limits_def hm.get_ins hm.invar_ins hm_len_insert new_session_at_rest)
      (simp add: new_session_def)
  then show ?thesis
    using assms by (auto simp: handle_request_2_def Let_def listener_reply_def split: sum.splits)
qed

lemma listener_inv_offline:
  assumes "listener_inv l" "hm_get (li_sessions l) from = None"
  shows "listener_inv (listener_offline from b now l) \<and> li_config (listener_offline from b now l) = li_config l"
proof -
  have ping: "listener_inv (handle_ping from b l') = listener_inv l'" "li_config (handle_ping from b l') = li_config l'"
    for l' by (simp_all add: handle_ping_def Let_def split: sum.splits)
  have req1: "listener_inv (handle_request_1 from b l') = listener_inv l'"
    "li_config (handle_request_1 from b l') = li_config l'" for l'
    by (simp_all add: handle_request_1_def Let_def split: sum.splits)
  show ?thesis
    using assms listener_inv_allow_ping[OF assms(1), of "from" now] listener_inv_request_2[OF assms, of b now]
    by (auto simp: listener_offline_def ping req1 split: list.splits prod.splits)
qed

lemma listener_inv_receive:
  assumes inv: "listener_inv l" and rec: "listener_receive from b now l = Some (evs, l')"
  shows "listener_inv l' \<and> li_config l' = li_config l"
proof (cases "hm_get (li_sessions l) from")
  case None
  then show ?thesis using rec listener_inv_offline[OF inv None] by (auto simp: listener_receive_def)
next
  case (Some s)
  have s: "session_inv (se_config s) s" using inv Some by (simp add: listener_inv_def session_at_rest_def)
  obtain r s1 where r: "session_receive b now s = Some (r, s1)"
    using rec Some by (auto simp: listener_receive_def Let_def split: option.splits)
  have s1: "session_inv (se_config s) s1" using session_inv_receive[OF s r] .
  then have c: "se_config s1 = se_config s" by (rule session_inv_config)
  let ?put = "l\<lparr>li_outbox := li_outbox l @ map (Pair from) (se_outbox s1),
      li_sessions := hm_insert from (s1\<lparr>se_outbox := []\<rparr>) (li_sessions l)\<rparr>"
  show ?thesis
  proof (cases "closed_because s1")
    case None
    then have "listener_inv ?put"
      using at_rest_drained[OF s1] c closed_because_None by (intro listener_inv_put[OF inv Some]) auto
    moreover have "l' = ?put"
      using rec Some r None by (auto simp: listener_receive_def Let_def drain_outbox_all)
    ultimately show ?thesis by simp
  next
    case (Some reason)
    have "l' = ?put\<lparr>li_sessions := hm_remove from (li_sessions ?put)\<rparr>"
      using rec \<open>hm_get (li_sessions l) from = Some s\<close> r Some
      by (auto simp: listener_receive_def Let_def drain_outbox_all)
    moreover have "hm_get (hm_remove from (li_sessions ?put)) = hm_get (hm_remove from (li_sessions l))"
      "hm_ok (hm_remove from (li_sessions ?put))"
      using inv by (simp_all add: listener_inv_def hm.get_del hm.get_ins hm.invar_ins hm.invar_del)
    moreover have "hm_len (hm_remove from (li_sessions ?put)) \<le> hm_len (li_sessions l)"
      using inv hm_len_remove_le[of "from" "li_sessions ?put"] hm_len_insert[of "li_sessions l" "from"]
        \<open>hm_get (li_sessions l) from = Some s\<close>
      by (simp add: listener_inv_def)
    ultimately show ?thesis
      using inv by (auto simp: listener_inv_def same_limits_def hm.get_del split: if_splits)
  qed
qed

text \<open>While \<^verbatim>\<open>tick\<close> runs, sessions that ended are still in the table and in \<open>gone\<close>.\<close>

definition ticking_inv :: "(socket_addr \<times> closed) list \<Rightarrow> listener \<Rightarrow> bool" where
  "ticking_inv gone l \<longleftrightarrow> hm_ok (li_sessions l) \<and> hm_ok (li_last_ping l)
     \<and> hm_len (li_sessions l) \<le> max_sessions (li_config l)
     \<and> (\<forall>p s. hm_get (li_sessions l) p = Some s \<longrightarrow> session_inv (se_config s) s \<and> same_limits l s
          \<and> se_outbox s = [] \<and> (is_closed s \<longrightarrow> p \<in> fst ` set gone))"

lemma ticking_start: "listener_inv l \<Longrightarrow> ticking_inv [] l"
  by (simp add: listener_inv_def ticking_inv_def session_at_rest_def)

lemma ticking_step:
  assumes inv: "ticking_inv gone l" and get: "hm_get (li_sessions l) peer = Some s"
    and tick: "session_tick now s = Some s1"
  defines "gone' \<equiv> (case closed_because s1 of Some reason \<Rightarrow> gone @ [(peer, reason)] | None \<Rightarrow> gone)"
  shows "ticking_inv gone' (l\<lparr>li_outbox := out, li_sessions := hm_insert peer (s1\<lparr>se_outbox := []\<rparr>) (li_sessions l)\<rparr>)"
proof -
  have s: "session_inv (se_config s) s" "same_limits l s" using inv get by (simp_all add: ticking_inv_def)
  have s1: "session_inv (se_config s) s1" using session_inv_tick[OF s(1) tick] .
  then have c: "se_config s1 = se_config s" by (rule session_inv_config)
  have mem: "is_closed s1 \<Longrightarrow> peer \<in> fst ` set gone'"
    using closed_because_None[of s1] by (auto simp: gone'_def split: option.splits)
  have sub: "fst ` set gone \<subseteq> fst ` set gone'" by (auto simp: gone'_def split: option.splits)
  show ?thesis
    using inv get s s1 c mem sub
    by (auto simp: ticking_inv_def same_limits_def hm.get_ins hm.invar_ins hm_len_insert)
qed

lemma tick_sessions_inv:
  assumes "ticking_inv gone l" "tick_sessions order now gone l = Some (gone', l')"
  shows "ticking_inv gone' l' \<and> li_config l' = li_config l"
  using assms
proof (induction order now gone l arbitrary: gone' l' rule: tick_sessions.induct)
  case (2 peer peers now gone l)
  show ?case
  proof (cases "hm_get (li_sessions l) peer")
    case None
    then show ?thesis using 2 by simp
  next
    case (Some s)
    obtain s1 where s1: "session_tick now s = Some s1" using 2(4) Some by (auto split: option.splits)
    from 2(2)[OF Some s1 drain_outbox_all[symmetric] refl] ticking_step[OF 2(3) Some s1] 2(4) Some s1
    show ?thesis by (auto simp: drain_outbox_all Let_def)
  qed
qed simp

lemma drop_gone:
  assumes "ticking_inv gone l" "set rest \<subseteq> set gone" "\<forall>p s. hm_get (li_sessions l) p = Some s \<longrightarrow>
    is_closed s \<longrightarrow> p \<in> fst ` set rest"
  shows "listener_inv (fold (\<lambda>(peer, _) l. l\<lparr>li_sessions := hm_remove peer (li_sessions l)\<rparr>) rest l)
    \<and> li_config (fold (\<lambda>(peer, _) l. l\<lparr>li_sessions := hm_remove peer (li_sessions l)\<rparr>) rest l) = li_config l"
  using assms
proof (induction rest arbitrary: l)
  case Nil
  then show ?case by (auto simp: ticking_inv_def listener_inv_def session_at_rest_def)
next
  case (Cons x rest)
  obtain peer reason where x: "x = (peer, reason)" by fastforce
  let ?l = "l\<lparr>li_sessions := hm_remove peer (li_sessions l)\<rparr>"
  have "ticking_inv gone ?l"
    using Cons.prems(1) hm_len_remove_le[of peer "li_sessions l"]
    by (auto simp: ticking_inv_def same_limits_def hm.get_del hm.invar_del split: if_splits)
  moreover have "\<forall>p s. hm_get (li_sessions ?l) p = Some s \<longrightarrow> is_closed s \<longrightarrow> p \<in> fst ` set rest"
    using Cons.prems(1,3) by (auto simp: x ticking_inv_def hm.get_del split: if_splits)
  ultimately show ?case using Cons.IH[of ?l] Cons.prems(2) by (simp add: x)
qed

lemma listener_inv_tick:
  assumes "listener_inv l" "listener_tick order now l = Some (evs, l')"
  shows "listener_inv l' \<and> li_config l' = li_config l"
proof -
  obtain gone l1 where t: "tick_sessions order now [] l = Some (gone, l1)"
    "l' = fold (\<lambda>(peer, _) l. l\<lparr>li_sessions := hm_remove peer (li_sessions l)\<rparr>) gone l1"
    using assms(2) by (auto simp: listener_tick_def)
  from tick_sessions_inv[OF ticking_start[OF assms(1)] t(1)] drop_gone[of gone l1 gone] show ?thesis
    by (auto simp: t(2) ticking_inv_def)
qed

lemma listener_inv_send:
  assumes "listener_inv l"
  shows "listener_inv (snd (listener_send peer payload now l))
    \<and> li_config (snd (listener_send peer payload now l)) = li_config l"
proof (cases "hm_get (li_sessions l) peer")
  case None
  then show ?thesis using assms by (simp add: listener_send_def)
next
  case (Some s)
  have s: "session_inv (se_config s) s" "\<not> is_closed s" "se_outbox s = []"
    using assms Some by (simp_all add: listener_inv_def session_at_rest_def)
  obtain r s1 where r: "session_send payload now s = (r, s1)" by fastforce
  have s1: "session_inv (se_config s) s1" using session_inv_send[OF s(1), of payload now] r by simp
  then have c: "se_config s1 = se_config s" by (rule session_inv_config)
  note out = session_send_outcome[OF session_inv_sender[OF s(1)], of payload now]
  have open1: "\<not> is_closed s1" using out s(2) r by (auto simp: sent_def is_closed_def split: if_splits)
  have empty: "se_outbox s1 = []" if "r = Inl e" for e
    using out that s(2,3) r by (auto split: if_splits)
  have "listener_inv (l\<lparr>li_outbox := li_outbox l, li_sessions := hm_insert peer s1 (li_sessions l)\<rparr>)"
    if "r = Inl e" for e
    using s1 c open1 empty[OF that] by (intro listener_inv_put[OF assms Some]) (simp_all add: session_at_rest_def)
  moreover have "listener_inv (l\<lparr>li_outbox := li_outbox l, li_sessions := hm_insert peer (s1\<lparr>se_outbox := []\<rparr>) (li_sessions l)\<rparr>)"
    using at_rest_drained[OF s1 open1] c by (intro listener_inv_put[OF assms Some]) simp_all
  moreover have "l\<lparr>li_outbox := li_outbox l, li_sessions := x\<rparr> = l\<lparr>li_sessions := x\<rparr>" for x by simp
  moreover have "l\<lparr>li_sessions := x, li_outbox := y\<rparr> = l\<lparr>li_outbox := y, li_sessions := x\<rparr>" for x y by simp
  ultimately show ?thesis
    using Some r by (cases r) (simp_all add: listener_send_def drain_outbox_all)
qed

end
