(* ===== verification/Server.thy ===== *)
theory Server
  imports Columns Crypto StartGame Listener
begin

text \<open>
  \<^verbatim>\<open>bedrock-server/src/server.rs\<close>: where the transport meets the game protocol.

  The server is the record \<open>server\<close>; a handler takes it last and returns it updated, with the events
  it reports.  The cryptographic primitives are the first argument.  A panic of the transport is
  \<^const>\<open>None\<close>.  An \<^verbatim>\<open>i32\<close> coordinate is an integer, as in \<open>World\<close>.  \<open>ServerKey::generate\<close> draws from
  a supply, and \<open>sv_generated\<close> counts what was drawn.  The reason of a refusal is kept as the error, not
  as its text.
\<close>

section \<open>Stages\<close>

datatype stage = StageStartGame | StageWorld | StageRadius | StageChunks | StageSpawn

fun stage_rank :: "stage \<Rightarrow> nat" where
  "stage_rank StageStartGame = 0"
| "stage_rank StageWorld = 1"
| "stage_rank StageRadius = 2"
| "stage_rank StageChunks = 3"
| "stage_rank StageSpawn = 4"

lemma stage_rank_inject: "stage_rank a = stage_rank b \<Longrightarrow> a = b"
  by (cases a; cases b) simp_all

text \<open>The derived order is the order of the declaration.\<close>

instantiation stage :: linorder
begin

definition less_eq_stage :: "stage \<Rightarrow> stage \<Rightarrow> bool" where
  "less_eq_stage a b \<longleftrightarrow> stage_rank a \<le> stage_rank b"

definition less_stage :: "stage \<Rightarrow> stage \<Rightarrow> bool" where
  "less_stage a b \<longleftrightarrow> stage_rank a < stage_rank b"

instance
  by intro_classes (auto simp: less_eq_stage_def less_stage_def dest: stage_rank_inject)

end

definition stage_parse :: "bytes \<Rightarrow> stage option" where
  "stage_parse name =
     (if name = ascii ''start-game'' then Some StageStartGame
      else if name = ascii ''world'' then Some StageWorld
      else if name = ascii ''radius'' then Some StageRadius
      else if name = ascii ''chunks'' then Some StageChunks
      else if name = ascii ''spawn'' then Some StageSpawn
      else None)"

definition surface_height :: int where "surface_height = 80"
definition server_chunk_radius :: int where "server_chunk_radius = 4"
definition forget_margin :: int where "forget_margin = 2"
definition target_protocol :: u32 where "target_protocol = game_protocol_version"

section \<open>What is reported\<close>

datatype reject_reason = NoIssuerKeys | NoWallClock | IdentityNotJson | IdentityWithoutToken | TokenRefused jwt_error

datatype server_event =
    SConnected socket_addr
  | SNetworkSettingsRequested socket_addr u32
  | SUnhandled socket_addr u32 bytes
  | SLoginAccepted socket_addr u32 "bytes option"
  | SLoginRejected socket_addr reject_reason
  | SHandshakeAccepted socket_addr
  | SPlayStatusSent socket_addr status
  | SPacksAnswered socket_addr response
  | SReadyForWorld socket_addr
  | SWorldSent socket_addr
  | SSpawned socket_addr nat
  | SChunkRadiusGranted socket_addr int int
  | SPlayerInitialized socket_addr
  | SChunksStreamed socket_addr int int nat
  | SPlayerMoved socket_addr f32 f32 f32
  | SDecrypted socket_addr u32 nat
  | SDecryptionFailed socket_addr
  | SCompressed socket_addr compression_method
  | SUndecodable socket_addr bytes
  | SDisconnected socket_addr closed

section \<open>State\<close>

record player =
  pl_radius :: int
  pl_center :: "int \<times> int"
  pl_sent :: "(int \<times> int) set"
  pl_position :: "f32 \<times> f32 \<times> f32"

record 'k server =
  sv_listener :: listener
  sv_settled :: "socket_addr set"
  sv_keys :: "(socket_addr, 'k server_key) hash_map"
  sv_ciphers :: "(socket_addr, cipher) hash_map"
  sv_protocols :: "(socket_addr, u32) hash_map"
  sv_players :: "(socket_addr, player) hash_map"
  sv_world :: world
  sv_world_name :: bytes
  sv_stage :: stage
  sv_identity_keys :: "jwks option"
  sv_clock :: "(i64 \<times> instant) option"
  sv_generated :: nat

text \<open>\<^verbatim>\<open>format!\<close> writes numbers in decimal, a negative one with its sign.\<close>

definition decimal_int :: "int \<Rightarrow> bytes" where
  "decimal_int n = (if n < 0 then ascii ''-'' @ decimal (nat (- n)) else decimal (nat n))"

definition server_advertisement :: "bytes \<Rightarrow> nat \<Rightarrow> nat \<Rightarrow> u16 \<Rightarrow> i64 \<Rightarrow> bytes" where
  "server_advertisement name players max_players port guid =
     ascii ''MCPE;'' @ name @ ascii '';'' @ decimal (unat game_protocol_version) @ ascii '';'' @ minecraft_version
     @ ascii '';'' @ decimal players @ ascii '';'' @ decimal max_players @ ascii '';'' @ decimal_int (sint guid)
     @ ascii '';;Survival;1;'' @ decimal (unat port) @ ascii '';'' @ decimal (unat port) @ ascii '';''"

definition server_with_config :: "socket_addr \<Rightarrow> i64 \<Rightarrow> bytes \<Rightarrow> listener_config \<Rightarrow> 'k server option" where
  "server_with_config local guid advertisement config =
     map_option (\<lambda>l. \<lparr>sv_listener = l, sv_settled = {}, sv_keys = hm_new, sv_ciphers = hm_new,
         sv_protocols = hm_new, sv_players = hm_new, sv_world = world_flat surface_height,
         sv_world_name = ascii ''bedrock-runtime'', sv_stage = StageSpawn, sv_identity_keys = None,
         sv_clock = None, sv_generated = 0\<rparr>)
       (new_listener local guid advertisement config)"

definition new_server :: "socket_addr \<Rightarrow> i64 \<Rightarrow> bytes \<Rightarrow> 'k server option" where
  "new_server local guid advertisement = server_with_config local guid advertisement default_listener_config"

definition loaded_columns :: "'k server \<Rightarrow> nat" where
  "loaded_columns s = world_loaded (sv_world s)"

definition set_clock :: "i64 \<Rightarrow> instant \<Rightarrow> 'k server \<Rightarrow> 'k server" where
  "set_clock unix_now now s = s\<lparr>sv_clock := Some (unix_now, now)\<rparr>"

definition set_identity_keys :: "jwks \<Rightarrow> i64 \<Rightarrow> instant \<Rightarrow> 'k server \<Rightarrow> 'k server" where
  "set_identity_keys keys unix_now now s = set_clock unix_now now (s\<lparr>sv_identity_keys := Some keys\<rparr>)"

definition can_verify_identity :: "'k server \<Rightarrow> bool" where
  "can_verify_identity s \<longleftrightarrow> sv_identity_keys s \<noteq> None \<and> sv_clock s \<noteq> None"

text \<open>An \<^verbatim>\<open>Instant\<close> counts nanoseconds.\<close>

definition server_unix_now :: "instant \<Rightarrow> 'k server \<Rightarrow> i64 option" where
  "server_unix_now now s =
     (case sv_clock s of
        None \<Rightarrow> None
      | Some (anchor_unix, anchor) \<Rightarrow>
          let elapsed = (now - anchor) div 10 ^ 9
          in if elapsed < 2 ^ 63 then Some (anchor_unix + of_nat elapsed) else None)"

definition set_stage :: "stage \<Rightarrow> 'k server \<Rightarrow> 'k server" where
  "set_stage stage s = s\<lparr>sv_stage := stage\<rparr>"

definition server_sessions :: "'k server \<Rightarrow> nat" where
  "server_sessions s = listener_sessions (sv_listener s)"

definition server_poll_transmit :: "'k server \<Rightarrow> (socket_addr \<times> bytes) option \<times> 'k server" where
  "server_poll_transmit s =
     (case listener_poll_transmit (sv_listener s) of (d, l) \<Rightarrow> (d, s\<lparr>sv_listener := l\<rparr>))"

definition server_tick :: "socket_addr list \<Rightarrow> instant \<Rightarrow> 'k server \<Rightarrow> (server_event list \<times> 'k server) option" where
  "server_tick order now s =
     map_option (\<lambda>(events, l).
         (List.map_filter (\<lambda>e. case e of EvDisconnected peer reason \<Rightarrow> Some (SDisconnected peer reason) | _ \<Rightarrow> None) events,
          s\<lparr>sv_listener := l\<rparr>))
       (listener_tick order now (sv_listener s))"

section \<open>Sending\<close>

definition server_send :: "socket_addr \<Rightarrow> bytes \<Rightarrow> instant \<Rightarrow> 'k server \<Rightarrow> 'k server" where
  "server_send peer payload now s = s\<lparr>sv_listener := snd (listener_send peer payload now (sv_listener s))\<rparr>"

definition send_encrypted :: "'k primitives \<Rightarrow> socket_addr \<Rightarrow> packet list \<Rightarrow> instant \<Rightarrow> 'k server \<Rightarrow> 'k server" where
  "send_encrypted p peer packets now s =
     (case encode_batch_with_method packets of
        [] \<Rightarrow> s
      | marker # body \<Rightarrow>
          if marker \<noteq> batch_marker then s
          else
            (case hm_get (sv_ciphers s) peer of
               None \<Rightarrow> s
             | Some c \<Rightarrow>
                 (case cipher_encrypt p body c of
                    (ct, c) \<Rightarrow> server_send peer (batch_marker # ct) now
                      (s\<lparr>sv_ciphers := hm_insert peer c (sv_ciphers s)\<rparr>))))"

section \<open>Streaming\<close>

text \<open>The loop over the columns in view.\<close>

fun stream_columns :: "'k primitives \<Rightarrow> socket_addr \<Rightarrow> instant \<Rightarrow> (int \<times> int) list \<Rightarrow> nat \<Rightarrow> 'k server \<Rightarrow> nat \<times> 'k server" where
  "stream_columns p peer now [] n s = (n, s)"
| "stream_columns p peer now ((x, z) # wanted) n s =
     (case hm_get (sv_players s) peer of
        None \<Rightarrow> (n, s)
      | Some player \<Rightarrow>
          if (x, z) \<in> pl_sent player then stream_columns p peer now wanted n s
          else
            let s = s\<lparr>sv_players := hm_insert peer (player\<lparr>pl_sent := insert (x, z) (pl_sent player)\<rparr>) (sv_players s)\<rparr>
            in case world_chunk x z (sv_world s) of
                 (c, w) \<Rightarrow> stream_columns p peer now wanted (n + 1)
                   (send_encrypted p peer [column_packet c biome_plains] now (s\<lparr>sv_world := w\<rparr>)))"

definition forget_far :: "int \<times> int \<Rightarrow> int \<Rightarrow> (int \<times> int) set \<Rightarrow> (int \<times> int) set" where
  "forget_far center forget cs = Set.filter (\<lambda>(x, z). \<bar>x - fst center\<bar> \<le> forget \<and> \<bar>z - snd center\<bar> \<le> forget) cs"

definition stream_around :: "'k primitives \<Rightarrow> socket_addr \<Rightarrow> int \<times> int \<Rightarrow> instant \<Rightarrow> 'k server \<Rightarrow> nat \<times> 'k server" where
  "stream_around p peer center now s =
     (case hm_get (sv_players s) peer of
        None \<Rightarrow> (0, s)
      | Some player \<Rightarrow>
          let radius = pl_radius player;
              feet = f32_to_int (f32_sub (fst (snd (pl_position player))) position_offset);
              forget = radius + forget_margin;
              player = player\<lparr>pl_center := center, pl_sent := forget_far center forget (pl_sent player)\<rparr>;
              s = s\<lparr>sv_players := hm_insert peer player (sv_players s)\<rparr>;
              s = send_encrypted p peer [publisher_update (of_int (fst center * chunk_width)) (of_int feet)
                    (of_int (snd center * chunk_width)) (of_int (radius * chunk_width))] now s
          in stream_columns p peer now (columns_around (fst center) (snd center) radius) 0 s)"

definition stream_world :: "'k primitives \<Rightarrow> socket_addr \<Rightarrow> int \<Rightarrow> instant \<Rightarrow> 'k server \<Rightarrow> server_event \<times> 'k server" where
  "stream_world p peer radius now s =
     (let s = s\<lparr>sv_players := hm_insert peer \<lparr>pl_radius = max radius 0, pl_center = (0, 0), pl_sent = {},
            pl_position = (0, f32_of_int surface_height, 0)\<rparr> (sv_players s)\<rparr>
      in case stream_around p peer (0, 0) now s of
           (columns, s) \<Rightarrow>
             let s = (if sv_stage s \<ge> StageSpawn then send_encrypted p peer [status_packet PlayerSpawn] now s else s)
             in (SSpawned peer columns, s))"

definition on_player_moved :: "'k primitives \<Rightarrow> socket_addr \<Rightarrow> auth_input \<Rightarrow> instant \<Rightarrow> 'k server
    \<Rightarrow> server_event list \<times> 'k server" where
  "on_player_moved p peer input now s =
     (case hm_get (sv_players s) peer of
        None \<Rightarrow> ([SPlayerMoved peer (ai_x input) (ai_y input) (ai_z input)], s)
      | Some player \<Rightarrow>
          let s = s\<lparr>sv_players := hm_insert peer (player\<lparr>pl_position := (ai_x input, ai_y input, ai_z input)\<rparr>)
                (sv_players s)\<rparr>;
              center = (f32_to_int (f32_floor (ai_x input)) div chunk_width, f32_to_int (f32_floor (ai_z input)) div chunk_width);
              moved = SPlayerMoved peer (ai_x input) (ai_y input) (ai_z input)
          in if center \<noteq> pl_center player
             then (case stream_around p peer center now s of
                     (columns, s) \<Rightarrow> ([moved, SChunksStreamed peer (fst center) (snd center) columns], s))
             else ([moved], s))"

section \<open>Inside the encrypted stream\<close>

definition server_version_text :: bytes where "server_version_text = ascii ''bedrock-runtime 0.0.0''"

fun send_each :: "'k primitives \<Rightarrow> socket_addr \<Rightarrow> packet list \<Rightarrow> instant \<Rightarrow> 'k server \<Rightarrow> 'k server" where
  "send_each p peer [] now s = s"
| "send_each p peer (packet # packets) now s = send_each p peer packets now (send_encrypted p peer [packet] now s)"

text \<open>The client switched to the encrypted stream.\<close>

definition on_handshake :: "'k primitives \<Rightarrow> socket_addr \<Rightarrow> instant \<Rightarrow> 'k server \<Rightarrow> server_event list \<times> 'k server" where
  "on_handshake p peer now s =
     (let declared = (case hm_get (sv_protocols s) peer of Some v \<Rightarrow> v | None \<Rightarrow> target_protocol);
          status = (case for_version_mismatch declared target_protocol of Some st \<Rightarrow> st | None \<Rightarrow> LoginSuccess);
          s = send_encrypted p peer [status_packet status] now s;
          s = (if status = LoginSuccess then send_encrypted p peer [packs_info_empty] now s else s)
      in ([SHandshakeAccepted peer, SPlayStatusSent peer status], s))"

definition on_packs_answer :: "'k primitives \<Rightarrow> socket_addr \<Rightarrow> bytes \<Rightarrow> instant \<Rightarrow> 'k server \<Rightarrow> server_event list \<times> 'k server" where
  "on_packs_answer p peer body now s =
     (case decode_response body of
        Inr (Some response) \<Rightarrow>
          (case response of
             HaveAllPacks \<Rightarrow> ([SPacksAnswered peer response],
               send_encrypted p peer [pack_stack_empty minecraft_version] now s)
           | Completed \<Rightarrow>
               let w = start_game_flat (sv_world_name s) minecraft_version server_version_text surface_height;
                   s = send_encrypted p peer [start_game_packet w] now s;
                   s = (if sv_stage s = StageWorld then send_each p peer all_empty_registries now s else s)
               in ([SPacksAnswered peer response, SReadyForWorld peer, SWorldSent peer], s)
           | _ \<Rightarrow> ([SPacksAnswered peer response], s))
      | _ \<Rightarrow> ([], s))"

definition on_radius_request :: "'k primitives \<Rightarrow> socket_addr \<Rightarrow> bytes \<Rightarrow> instant \<Rightarrow> 'k server \<Rightarrow> server_event list \<times> 'k server" where
  "on_radius_request p peer body now s =
     (case decode_radius_request body of
        Inl _ \<Rightarrow> ([], s)
      | Inr request \<Rightarrow>
          if sv_stage s < StageRadius then ([], s)
          else
            let granted = grant request server_chunk_radius;
                s = send_encrypted p peer [granted_packet (of_int granted)] now s;
                event = SChunkRadiusGranted peer (sint (rq_radius request)) granted
            in if sv_stage s \<ge> StageChunks
               then (case stream_world p peer granted now s of (spawned, s) \<Rightarrow> ([event, spawned], s))
               else ([event], s))"

text \<open>One packet of the loop in \<^verbatim>\<open>on_plaintext\<close>.\<close>

definition on_plain_packet :: "'k primitives \<Rightarrow> socket_addr \<Rightarrow> instant \<Rightarrow> packet \<Rightarrow> 'k server \<Rightarrow> server_event list \<times> 'k server" where
  "on_plain_packet p peer now packet s =
     (if pk_id packet = id_client_to_server_handshake then on_handshake p peer now s
      else if pk_id packet = id_resource_pack_client_response then on_packs_answer p peer (pk_body packet) now s
      else if pk_id packet = id_request_chunk_radius then on_radius_request p peer (pk_body packet) now s
      else if pk_id packet = id_serverbound_loading_screen then ([], s)
      else if pk_id packet = id_set_local_player_as_initialized then ([SPlayerInitialized peer], s)
      else if pk_id packet = id_player_auth_input
      then (case decode_auth_input (pk_body packet) of
              Inr input \<Rightarrow> on_player_moved p peer input now s
            | Inl _ \<Rightarrow> ([], s))
      else ([SDecrypted peer (pk_id packet) (length (pk_body packet))], s))"

text \<open>A loop over packets that collects the events of each.\<close>

fun for_packets :: "(packet \<Rightarrow> 'k server \<Rightarrow> server_event list \<times> 'k server) \<Rightarrow> packet list \<Rightarrow> 'k server
    \<Rightarrow> server_event list \<times> 'k server" where
  "for_packets f [] s = ([], s)"
| "for_packets f (packet # packets) s =
     (case f packet s of (es, s) \<Rightarrow> case for_packets f packets s of (rest, s) \<Rightarrow> (es @ rest, s))"

definition on_plaintext :: "'k primitives \<Rightarrow> socket_addr \<Rightarrow> bytes \<Rightarrow> instant \<Rightarrow> 'k server \<Rightarrow> server_event list \<times> 'k server" where
  "on_plaintext p peer plaintext now s =
     (case decode_packets [] (gr_new (drop 1 plaintext)) of
        Inl _ \<Rightarrow> ([SUndecodable peer plaintext], s)
      | Inr packets \<Rightarrow> for_packets (on_plain_packet p peer now) packets s)"

section \<open>Before encryption\<close>

fun json_get :: "json \<Rightarrow> bytes \<Rightarrow> json option" where
  "json_get (JObject members) key = map_of members key"
| "json_get _ key = None"

fun json_as_str :: "json \<Rightarrow> bytes option" where
  "json_as_str (JString s) = Some s"
| "json_as_str _ = None"

definition map_err :: "('e \<Rightarrow> 'f) \<Rightarrow> 'e + 'a \<Rightarrow> 'f + 'a" where
  "map_err f m = (case m of Inl e \<Rightarrow> Inl (f e) | Inr v \<Rightarrow> Inr v)"

definition verify_identity :: "'k primitives \<Rightarrow> bytes \<Rightarrow> instant \<Rightarrow> 'k server \<Rightarrow> reject_reason + claims" where
  "verify_identity p identity now s =
     try_bind (or_else (sv_identity_keys s) NoIssuerKeys) (\<lambda>keys.
     try_bind (or_else (server_unix_now now s) NoWallClock) (\<lambda>unix_now.
     try_bind (or_else (pr_json_value p identity) IdentityNotJson) (\<lambda>outer.
     try_bind (or_else (case json_get outer (ascii ''Token'') of None \<Rightarrow> None | Some v \<Rightarrow> json_as_str v) IdentityWithoutToken)
       (\<lambda>token.
     map_err TokenRefused (jwt_verify p token keys
       \<lparr>ex_issuer = token_issuer, ex_audience = token_audience, ex_leeway = 60\<rparr> unix_now)))))"

definition on_login :: "'k primitives \<Rightarrow> socket_addr \<Rightarrow> bytes \<Rightarrow> instant \<Rightarrow> 'k server \<Rightarrow> server_event list \<times> 'k server" where
  "on_login p peer body now s =
     (case decode_login body default_login_limits of
        Inl _ \<Rightarrow> ([SUndecodable peer body], s)
      | Inr login \<Rightarrow>
          (case verify_identity p (lg_identity login) now s of
             Inl reason \<Rightarrow> ([SLoginRejected peer reason],
               server_send peer (encode_batch_with_method [status_packet InvalidTenant]) now s)
           | Inr claims \<Rightarrow>
               let key = server_key_generate p (sv_generated s);
                   s = s\<lparr>sv_generated := sv_generated s + 1\<rparr>;
                   s = server_send peer (encode_batch_with_method [server_to_client_handshake (handshake_token p key)]) now s;
                   s = (case (case cl_cpk claims of None \<Rightarrow> None | Some cpk \<Rightarrow> pr_base64_decode p cpk) of
                          None \<Rightarrow> s
                        | Some client_key \<Rightarrow>
                            (case server_key_agree p key client_key (sk_salt key) of
                               Inl _ \<Rightarrow> s
                             | Inr session \<Rightarrow> s\<lparr>sv_ciphers := hm_insert peer (new_cipher session) (sv_ciphers s)\<rparr>));
                   s = s\<lparr>sv_keys := hm_insert peer key (sv_keys s),
                         sv_protocols := hm_insert peer (lg_client_protocol login) (sv_protocols s)\<rparr>
               in ([SLoginAccepted peer (lg_client_protocol login) (cl_xname claims)], s)))"

text \<open>One packet of the loop in \<^verbatim>\<open>on_payload\<close>.\<close>

definition on_clear_packet :: "'k primitives \<Rightarrow> socket_addr \<Rightarrow> instant \<Rightarrow> packet \<Rightarrow> 'k server \<Rightarrow> server_event list \<times> 'k server" where
  "on_clear_packet p peer now packet s =
     (if pk_id packet = id_request_network_settings then
        let client_protocol = (case decode_request_network_settings (pk_body packet) of
              Inr request \<Rightarrow> rn_client_protocol request | Inl _ \<Rightarrow> 0);
            s = server_send peer (encode_batch [network_settings_packet uncompressed]) now s
        in ([SNetworkSettingsRequested peer client_protocol], s\<lparr>sv_settled := insert peer (sv_settled s)\<rparr>)
      else if pk_id packet = id_login then on_login p peer (pk_body packet) now s
      else if pk_id packet = id_client_to_server_handshake then ([SHandshakeAccepted peer], s)
      else ([SUnhandled peer (pk_id packet) (pk_body packet)], s))"

definition on_payload :: "'k primitives \<Rightarrow> socket_addr \<Rightarrow> bytes \<Rightarrow> instant \<Rightarrow> 'k server \<Rightarrow> server_event list \<times> 'k server" where
  "on_payload p peer payload now s =
     (case hm_get (sv_ciphers s) peer of
        Some cipher \<Rightarrow>
          (case payload of
             [] \<Rightarrow> ([SUndecodable peer payload], s)
           | marker # body \<Rightarrow>
               if marker \<noteq> batch_marker then ([SUndecodable peer payload], s)
               else
                 (case cipher_decrypt p body cipher of
                    (result, cipher) \<Rightarrow>
                      let s = s\<lparr>sv_ciphers := hm_insert peer cipher (sv_ciphers s)\<rparr>
                      in (case result of
                            Inl _ \<Rightarrow> ([SDecryptionFailed peer], s)
                          | Inr plaintext \<Rightarrow> on_plaintext p peer plaintext now s)))
      | None \<Rightarrow>
          if peer \<in> sv_settled s then
            (case decode_batch_with_method payload of
               Inl _ \<Rightarrow> ([SUndecodable peer payload], s)
             | Inr (compression_method, packets) \<Rightarrow>
                 if compression_method = MethodNone then for_packets (on_clear_packet p peer now) packets s
                 else ([SCompressed peer compression_method], s))
          else
            (case decode_batch payload of
               Inl _ \<Rightarrow> ([SUndecodable peer payload], s)
             | Inr packets \<Rightarrow> for_packets (on_clear_packet p peer now) packets s))"

text \<open>What the server does with one event of the transport.\<close>

definition forget_peer :: "socket_addr \<Rightarrow> 'k server \<Rightarrow> 'k server" where
  "forget_peer peer s = s\<lparr>sv_settled := sv_settled s - {peer}, sv_keys := hm_remove peer (sv_keys s),
     sv_ciphers := hm_remove peer (sv_ciphers s), sv_protocols := hm_remove peer (sv_protocols s),
     sv_players := hm_remove peer (sv_players s)\<rparr>"

fun on_transport_event :: "'k primitives \<Rightarrow> instant \<Rightarrow> event \<Rightarrow> 'k server \<Rightarrow> server_event list \<times> 'k server" where
  "on_transport_event p now (EvConnected peer) s = ([SConnected peer], s)"
| "on_transport_event p now (EvDisconnected peer reason) s = ([SDisconnected peer reason], forget_peer peer s)"
| "on_transport_event p now (EvPayload peer payload) s = on_payload p peer payload now s"

fun on_transport_events :: "'k primitives \<Rightarrow> instant \<Rightarrow> event list \<Rightarrow> 'k server \<Rightarrow> server_event list \<times> 'k server" where
  "on_transport_events p now [] s = ([], s)"
| "on_transport_events p now (e # es) s =
     (case on_transport_event p now e s of (xs, s) \<Rightarrow>
      case on_transport_events p now es s of (ys, s) \<Rightarrow> (xs @ ys, s))"

definition server_receive :: "'k primitives \<Rightarrow> socket_addr \<Rightarrow> bytes \<Rightarrow> instant \<Rightarrow> 'k server
    \<Rightarrow> (server_event list \<times> 'k server) option" where
  "server_receive p from b now s =
     map_option (\<lambda>(events, l). on_transport_events p now events (s\<lparr>sv_listener := l\<rparr>))
       (listener_receive from b now (sv_listener s))"

end
