(* ===== verification/Serving.thy ===== *)
theory Serving
  imports Listener
begin

text \<open>
  What a \<^verbatim>\<open>Listener\<close> guarantees over any sequence of calls, and what it does with one packet.
\<close>

section \<open>Sequences of calls\<close>

datatype listener_call =
    CallSend socket_addr bytes instant
  | CallReceive socket_addr bytes instant
  | CallTick "socket_addr list" instant
  | CallPoll

fun perform :: "listener_call \<Rightarrow> listener \<Rightarrow> (event list \<times> listener) option" where
  "perform (CallSend peer p now) l = Some ([], snd (listener_send peer p now l))"
| "perform (CallReceive from b now) l = listener_receive from b now l"
| "perform (CallTick order now) l = listener_tick order now l"
| "perform CallPoll l = Some ([], snd (listener_poll_transmit l))"

fun perform_all :: "listener_call list \<Rightarrow> listener \<Rightarrow> (event list \<times> listener) option" where
  "perform_all [] l = Some ([], l)"
| "perform_all (c # cs) l =
     (case perform c l of
        None \<Rightarrow> None
      | Some (evs, l) \<Rightarrow> map_option (\<lambda>(evs', l). (evs @ evs', l)) (perform_all cs l))"

lemma listener_inv_poll:
  "listener_inv (snd (listener_poll_transmit l)) = listener_inv l
   \<and> li_config (snd (listener_poll_transmit l)) = li_config l"
  by (simp add: listener_poll_transmit_def split: list.splits)

lemma perform_inv:
  assumes "listener_inv l" "perform c l = Some (evs, l')"
  shows "listener_inv l' \<and> li_config l' = li_config l"
proof (cases c)
  case (CallSend p b now)
  then show ?thesis using assms(2) listener_inv_send[OF assms(1), of p b now] by auto
next
  case (CallReceive f b now)
  then show ?thesis using assms(2) listener_inv_receive[OF assms(1)] by simp
next
  case (CallTick order now)
  then show ?thesis using assms(2) listener_inv_tick[OF assms(1)] by simp
next
  case CallPoll
  then show ?thesis using assms listener_inv_poll[of l] by auto
qed

lemma perform_all_inv:
  "listener_inv l \<Longrightarrow> perform_all cs l = Some (evs, l') \<Longrightarrow> listener_inv l' \<and> li_config l' = li_config l"
proof (induction cs arbitrary: l evs)
  case (Cons c cs)
  obtain e1 l1 where c: "perform c l = Some (e1, l1)" using Cons.prems(2) by (auto split: option.splits)
  obtain e2 where "perform_all cs l1 = Some (e2, l')" using Cons.prems(2) c by auto
  with Cons.IH[of l1 e2] perform_inv[OF Cons.prems(1) c] show ?case by auto
qed simp

section \<open>What each operation leaves alone\<close>

text \<open>The ping table and the advertisement.\<close>

lemma send_frame: "li_last_ping (snd (listener_send p b now l)) = li_last_ping l"
  "li_advertisement (snd (listener_send p b now l)) = li_advertisement l"
  by (auto simp: listener_send_def drain_outbox_all split: option.splits prod.splits sum.splits)

lemma tick_sessions_frame:
  "tick_sessions order now gone l = Some (gone', l') \<Longrightarrow> li_last_ping l' = li_last_ping l
     \<and> li_advertisement l' = li_advertisement l"
proof (induction order now gone l rule: tick_sessions.induct)
  case (2 peer peers now gone l)
  show ?case
  proof (cases "hm_get (li_sessions l) peer")
    case None
    then show ?thesis using 2(1,3) by simp
  next
    case (Some s)
    obtain s1 where s1: "session_tick now s = Some s1" using 2(3) Some by (auto split: option.splits)
    from 2(2)[OF Some s1 drain_outbox_all[symmetric] refl] 2(3) Some s1
    show ?thesis by (auto simp: drain_outbox_all Let_def)
  qed
qed simp

lemma fold_drop_frame:
  fixes gone :: "(socket_addr \<times> closed) list"
  defines "f \<equiv> fold (\<lambda>(peer, _) l. l\<lparr>li_sessions := hm_remove peer (li_sessions l)\<rparr>)"
  shows "li_last_ping (f gone l) = li_last_ping l" "li_advertisement (f gone l) = li_advertisement l"
    "li_outbox (f gone l) = li_outbox l"
    "hm_get (li_sessions (f gone l)) p = (if p \<in> fst ` set gone then None else hm_get (li_sessions l) p)"
proof -
  have "li_last_ping (f gone l) = li_last_ping l \<and> li_advertisement (f gone l) = li_advertisement l
    \<and> li_outbox (f gone l) = li_outbox l
    \<and> hm_get (li_sessions (f gone l)) p = (if p \<in> fst ` set gone then None else hm_get (li_sessions l) p)"
    unfolding f_def
  proof (induction gone arbitrary: l)
    case (Cons x gone)
    obtain q r where x: "x = (q, r)" by fastforce
    show ?case using Cons.IH[of "l\<lparr>li_sessions := hm_remove q (li_sessions l)\<rparr>"]
      by (auto simp: x hm_get_def hm_remove_def map_of_filter_key)
  qed simp
  then show "li_last_ping (f gone l) = li_last_ping l" "li_advertisement (f gone l) = li_advertisement l"
    "li_outbox (f gone l) = li_outbox l"
    "hm_get (li_sessions (f gone l)) p = (if p \<in> fst ` set gone then None else hm_get (li_sessions l) p)"
    by auto
qed

lemma tick_frame:
  "listener_tick order now l = Some (evs, l') \<Longrightarrow> li_last_ping l' = li_last_ping l
     \<and> li_advertisement l' = li_advertisement l"
  by (auto simp: listener_tick_def fold_drop_frame dest!: tick_sessions_frame)

lemma poll_frame: "li_last_ping (snd (listener_poll_transmit l)) = li_last_ping l"
  "li_advertisement (snd (listener_poll_transmit l)) = li_advertisement l"
  by (simp_all add: listener_poll_transmit_def split: list.splits)

lemma reply_frame [simp]: "li_last_ping (listener_reply to b l) = li_last_ping l"
  "li_advertisement (listener_reply to b l) = li_advertisement l"
  "li_outbox (listener_reply to b l) = li_outbox l @ [(to, b)]"
  "li_guid (listener_reply to b l) = li_guid l"
  by (simp_all add: listener_reply_def)

lemma handler_frame: "li_last_ping (handle_ping from b l) = li_last_ping l"
  "li_last_ping (handle_request_1 from b l) = li_last_ping l"
  "li_last_ping (handle_request_2 from b now l) = li_last_ping l"
  "li_advertisement (handle_ping from b l) = li_advertisement l"
  "li_advertisement (handle_request_1 from b l) = li_advertisement l"
  "li_advertisement (handle_request_2 from b now l) = li_advertisement l"
  by (auto simp: handle_ping_def handle_request_1_def handle_request_2_def Let_def split: sum.splits)

lemma allow_ping_frame: "li_advertisement (snd (allow_ping from now l)) = li_advertisement l"
  "li_outbox (snd (allow_ping from now l)) = li_outbox l" "li_guid (snd (allow_ping from now l)) = li_guid l"
  by (auto simp: allow_ping_def Let_def split: option.splits)

lemma receive_frame_session:
  assumes "hm_get (li_sessions l) from = Some s" "listener_receive from b now l = Some (evs, l')"
  shows "li_last_ping l' = li_last_ping l \<and> li_advertisement l' = li_advertisement l"
  using assms by (auto simp: listener_receive_def Let_def drain_outbox_all split: option.splits sum.splits)

text \<open>The offline phase, by the first byte of the packet.\<close>

lemma offline_cases:
  "listener_offline from b now l =
     (if b = [] then l
      else if hd b = id_unconnected_ping
      then (if fst (allow_ping from now l) then handle_ping from b (snd (allow_ping from now l))
            else snd (allow_ping from now l))
      else if hd b = id_open_connection_request_1 then handle_request_1 from b l
      else if hd b = id_open_connection_request_2 then handle_request_2 from b now l
      else l)"
  by (cases b) (simp_all add: listener_offline_def case_prod_unfold)

lemma perform_advertisement:
  "perform c l = Some (evs, l') \<Longrightarrow> li_advertisement l' = li_advertisement l"
proof (cases c)
  case (CallReceive "from" b now)
  assume c: "perform c l = Some (evs, l')"
  have "li_advertisement (listener_offline from b now l) = li_advertisement l"
    by (simp add: offline_cases handler_frame allow_ping_frame)
  then show ?thesis using c CallReceive receive_frame_session[of l "from" _ b now evs l']
    by (cases "hm_get (li_sessions l) from") (auto simp: listener_receive_def)
qed (auto simp: send_frame poll_frame dest: tick_frame)

lemma perform_all_advertisement:
  "perform_all cs l = Some (evs, l') \<Longrightarrow> li_advertisement l' = li_advertisement l"
  by (induction cs arbitrary: l evs) (auto dest!: perform_advertisement split: option.splits)

section \<open>The replies of the offline phase\<close>

lemma read_bytes_small:
  "pos r + n \<le> usize_max \<Longrightarrow> read_bytes n r =
     (if pos r + n \<le> length (buf r) then (Inr (take n (drop (pos r) (buf r))), r\<lparr>pos := pos r + n\<rparr>)
      else (Inl \<lparr>needed = n, available = remaining r\<rparr>, r))"
  by (simp add: read_bytes_def checked_add_def)

lemmas offline_read = read_u8_def read_i64_def read_u16_def read_array_def rd_bind_def rd_return_def
  new_reader_def read_bytes_small usize_max_def

definition pong_bytes :: "i64 \<Rightarrow> listener \<Rightarrow> bytes" where
  "pong_bytes time l = id_unconnected_pong # be_bytes 8 time @ be_bytes 8 (li_guid l) @ magic
     @ be_bytes 2 (u16_or_max (length (li_advertisement l))) @ li_advertisement l"

lemma handle_ping_reply:
  "handle_ping from b l =
     (if length b < 9 then l else listener_reply from (pong_bytes (from_be (take 8 (drop 1 b))) l) l)"
  by (simp add: handle_ping_def pong_bytes_def offline_read writer_defs Let_def)

lemma handle_request_1_reply:
  "handle_request_1 from b l =
     (if length b < 18 then l
      else if b ! 17 \<noteq> protocol_version
      then listener_reply from (id_incompatible_protocol_version # protocol_version # magic @ be_bytes 8 (li_guid l)) l
      else listener_reply from (id_open_connection_reply_1 # magic @ be_bytes 8 (li_guid l) @ [0]
             @ be_bytes 2 (of_nat (min (length b + udp_ip_overhead) (max_mtu + udp_ip_overhead)) :: u16)) l)"
  by (simp add: handle_request_1_def offline_read writer_defs Let_def u16_or_max_def max_mtu_def udp_ip_overhead_def
      nth_append min_def)

lemma read_addr_outcome:
  assumes "pos r + 7 \<le> usize_max"
  shows "if pos r + 7 \<le> length (buf r) \<and> buf r ! pos r = version_ipv4
    then \<exists>a. read_addr r = (Inr a, r\<lparr>pos := pos r + 7\<rparr>) else \<exists>e r'. read_addr r = (Inl e, r')"
proof -
  have [simp]: "drop n xs ! 0 = xs ! n" if "n < length xs" for n and xs :: bytes using that by simp
  consider "length (buf r) < pos r + 1" | "pos r + 1 \<le> length (buf r)" "buf r ! pos r \<noteq> version_ipv4"
    | "pos r + 1 \<le> length (buf r)" "buf r ! pos r = version_ipv4" "length (buf r) < pos r + 5"
    | "pos r + 5 \<le> length (buf r)" "buf r ! pos r = version_ipv4" "length (buf r) < pos r + 7"
    | "pos r + 7 \<le> length (buf r)" "buf r ! pos r = version_ipv4"
    by linarith
  then show ?thesis
    using assms
    by cases (simp_all add: read_addr_def read_addr_inner_def read_u8_def read_u16_def read_array_def
        rd_bind_def rd_return_def rd_err_def rd_fail_def map_err_def read_bytes_small)
qed

lemma handle_request_2_reply:
  "handle_request_2 from b now l =
     (if hm_len (li_sessions l) \<ge> max_sessions (li_config l) \<or> length b < 26 \<or> b ! 17 \<noteq> version_ipv4 then l
      else let mtu = from_be (take 2 (drop 24 b)) :: u16;
               config = (lc_session (li_config l))\<lparr>payload_limit := max (mtu_payload_limit mtu) 576\<rparr>
           in (listener_reply from (id_open_connection_reply_2 # magic @ be_bytes 8 (li_guid l)
                 @ write_addr from [] @ be_bytes 2 mtu @ [0]) l)
              \<lparr>li_sessions := hm_insert from (new_session from (li_local l) config now) (li_sessions l)\<rparr>)"
proof -
  let ?rd = "rd_bind read_u8 (\<lambda>_. rd_bind (read_array 16) (\<lambda>_. rd_bind (rd_err no_detail read_addr) (\<lambda>_. read_u16)))"
  note a = read_addr_outcome[of "\<lparr>buf = b, pos = 17\<rparr>"]
  have rd: "fst (?rd (new_reader b)) = Inr (from_be (take 2 (drop 24 b)))" if "26 \<le> length b" "b ! 17 = version_ipv4"
    using a that by (auto simp: offline_read rd_err_def map_err_def)
  have bad: "\<exists>e. fst (?rd (new_reader b)) = Inl e" if "length b < 26 \<or> b ! 17 \<noteq> version_ipv4"
    using a that by (auto simp: offline_read rd_err_def map_err_def split: if_splits)
  have w: "write_addr from w = w @ write_addr from []" for w by (rule write_addr_append)
  show ?thesis
  proof (cases "length b < 26 \<or> b ! 17 \<noteq> version_ipv4")
    case True
    with bad obtain e where "fst (?rd (new_reader b)) = Inl e" by blast
    then show ?thesis using True by (auto simp: handle_request_2_def)
  next
    case False
    then show ?thesis using w[of "magic @ x" for x]
      by (simp add: handle_request_2_def rd writer_defs Let_def listener_reply_def
          w[of "id_open_connection_reply_2 # magic @ be_bytes 8 (li_guid l)"])
  qed
qed

section \<open>Properties\<close>

text \<open>C29: Whatever peers send and the caller does, a listener holds no more sessions than it is
  configured for; every session it holds is open, has nothing left to transmit and is within the bounds
  the listener is configured with: datagrams in flight, bytes and entries of the reassembler, payloads ahead of
  a gap, and remembered reliable indices; and the advertisement it sends keeps its cap.\<close>

theorem listener_stays_within_config:
  assumes "new_listener local guid adv c = Some l\<^sub>0" "perform_all cs l\<^sub>0 = Some (evs, l)"
  shows "listener_sessions l \<le> max_sessions c \<and> length (li_advertisement l) \<le> max_advertisement c
    \<and> (\<forall>p s. hm_get (li_sessions l) p = Some s \<longrightarrow>
         \<not> is_closed s \<and> se_outbox s = []
         \<and> in_flight_count (se_retransmitter s) \<le> max_in_flight (cf_retransmit (lc_session c))
         \<and> ra_buffered (se_reassembler s) \<le> max_payload (cf_split (lc_session c))
         \<and> bt_len (ra_pending (se_reassembler s)) \<le> max_pending (cf_split (lc_session c))
         \<and> bt_len (buffered (se_ordering s)) \<le> unat (order_window (lc_session c)) - 1
         \<and> card (seen (se_dedup s)) \<le> unat (dedup_window (lc_session c)) + 1)"
proof -
  have inv0: "listener_inv l\<^sub>0" "li_config l\<^sub>0 = c" using listener_inv_new[OF assms(1)] by auto
  then have inv: "listener_inv l" "li_config l = c" using perform_all_inv[OF inv0(1) assms(2)] by auto
  have "length (li_advertisement l\<^sub>0) \<le> max_advertisement c"
    using assms(1) by (auto simp: new_listener_def string_truncate_def split: if_splits)
  then have "length (li_advertisement l) \<le> max_advertisement c"
    using perform_all_advertisement[OF assms(2)] by simp
  moreover have "in_flight_count (se_retransmitter s) \<le> max_in_flight (cf_retransmit (lc_session c))
      \<and> ra_buffered (se_reassembler s) \<le> max_payload (cf_split (lc_session c))
      \<and> bt_len (ra_pending (se_reassembler s)) \<le> max_pending (cf_split (lc_session c))
      \<and> bt_len (buffered (se_ordering s)) \<le> unat (order_window (lc_session c)) - 1
      \<and> card (seen (se_dedup s)) \<le> unat (dedup_window (lc_session c)) + 1"
    if "hm_get (li_sessions l) p = Some s" for p s
  proof -
    have s: "session_inv (se_config s) s" "se_config s = (lc_session c)\<lparr>payload_limit := payload_limit (se_config s)\<rparr>"
      using inv that by (auto simp: listener_inv_def session_at_rest_def same_limits_def)
    have same: "cf_retransmit (se_config s) = cf_retransmit (lc_session c)" "cf_split (se_config s) = cf_split (lc_session c)"
      "order_window (se_config s) = order_window (lc_session c)" "dedup_window (se_config s) = dedup_window (lc_session c)"
      by (subst s(2), simp)+
    show ?thesis using session_inv_bounds[OF s(1)] unfolding same by simp
  qed
  ultimately show ?thesis
    using inv by (auto simp: listener_inv_def listener_sessions_def session_at_rest_def)
qed

lemma open_one:
  "\<exists>l l'. new_listener local guid [77] default_listener_config = Some l
     \<and> perform_all [CallReceive p (replicate 17 7 @ 4 # replicate 8 0) 0] l = Some ([], l')
     \<and> listener_sessions l' = 1"
  by (simp add: new_listener_def string_truncate_def default_listener_config_def listener_receive_def hm_get_def hm_new_def
      offline_cases offline_ids handle_request_2_reply hm_len_def version_ipv4_def nth_append Let_def
      listener_sessions_def)

lemma listener_stays_within_config_witness:
  "\<exists>l l'. new_listener unassigned 7 [77] default_listener_config = Some l
     \<and> perform_all [CallReceive (SockV4 1 2 3 4 5) (replicate 17 7 @ 4 # replicate 8 0) 0] l = Some ([], l')
     \<and> 1 = listener_sessions l' \<and> listener_sessions l' \<le> 128"
  using open_one[of unassigned 7 "SockV4 1 2 3 4 5"]
    listener_stays_within_config[of unassigned 7 "[77]" default_listener_config]
  by (fastforce simp: default_listener_config_def)

lemma offline_replies:
  "\<exists>replies. li_outbox (listener_offline from b now l) = li_outbox l @ map (Pair from) replies
    \<and> length replies \<le> 1
    \<and> (\<forall>d \<in> set replies.
         hd b = id_unconnected_ping \<and> 9 \<le> length b \<and> length d = 35 + length (li_advertisement l)
       \<or> hd b = id_open_connection_request_1 \<and> 18 \<le> length b \<and> length d \<in> {26, 28}
       \<or> hd b = id_open_connection_request_2 \<and> 26 \<le> length b \<and> length d = 35)"
proof (cases "li_outbox (listener_offline from b now l) = li_outbox l")
  case True
  then show ?thesis by (intro exI[of _ "[]"]) simp
next
  case False
  then obtain d where "li_outbox (listener_offline from b now l) = li_outbox l @ [(from, d)]"
    "hd b = id_unconnected_ping \<and> 9 \<le> length b \<and> length d = 35 + length (li_advertisement l)
     \<or> hd b = id_open_connection_request_1 \<and> 18 \<le> length b \<and> length d \<in> {26, 28}
     \<or> hd b = id_open_connection_request_2 \<and> 26 \<le> length b \<and> length d = 35"
    by (auto simp: offline_cases handle_ping_reply handle_request_1_reply handle_request_2_reply Let_def
        allow_ping_frame pong_bytes_def ipv4_len_def split: if_splits)
  then show ?thesis by (intro exI[of _ "[d]"]) simp
qed

text \<open>Before a peer has a session the listener answers one packet with at most one datagram, to the
  address the packet came from, and creates no event.  The sizes are exact: a ping of nine bytes or
  more draws the advertisement and 35 bytes, a first request of 18 or more 26 or 28, a second
  request of 26 or more 35.\<close>

lemma offline_reply_bounded:
  assumes "hm_get (li_sessions l) from = None"
  shows "\<exists>replies l'. listener_receive from b now l = Some ([], l')
    \<and> li_outbox l' = li_outbox l @ map (Pair from) replies \<and> length replies \<le> 1
    \<and> (\<forall>d \<in> set replies.
         hd b = id_unconnected_ping \<and> 9 \<le> length b \<and> length d = 35 + length (li_advertisement l)
       \<or> hd b = id_open_connection_request_1 \<and> 18 \<le> length b \<and> length d \<in> {26, 28}
       \<or> hd b = id_open_connection_request_2 \<and> 26 \<le> length b \<and> length d = 35)"
  using assms offline_replies[of "from" b now l] by (simp add: listener_receive_def)

text \<open>
  The documentation says that only the ping draws more than it costs.  A second request need not be
  padded and draws nine bytes more than it has.
\<close>

lemma second_request_amplifies:
  assumes "hm_get (li_sessions l) from = None" "listener_sessions l < max_sessions (li_config l)"
  shows "\<exists>d l'. listener_receive from (7 # replicate 16 0 @ 4 # replicate 8 0) now l = Some ([], l')
    \<and> li_outbox l' = li_outbox l @ [(from, d)] \<and> length (7 # replicate 16 (0 :: u8) @ 4 # replicate 8 0) = 26
    \<and> length d = 35"
  using assms by (simp add: listener_receive_def offline_cases offline_ids handle_request_2_reply listener_sessions_def
      version_ipv4_def nth_append Let_def ipv4_len_def)

section \<open>The ping limit\<close>

text \<open>The pongs of a sequence of calls: who got one, and when.\<close>

definition is_pong :: "socket_addr \<times> bytes \<Rightarrow> bool" where
  "is_pong d \<longleftrightarrow> snd d \<noteq> [] \<and> hd (snd d) = id_unconnected_pong"

definition draws_pong :: "socket_addr \<Rightarrow> bytes \<Rightarrow> instant \<Rightarrow> listener \<Rightarrow> bool" where
  "draws_pong from b now l \<longleftrightarrow> hm_get (li_sessions l) from = None
     \<and> list_ex is_pong (drop (length (li_outbox l)) (li_outbox (listener_offline from b now l)))"

fun pongs :: "listener_call list \<Rightarrow> listener \<Rightarrow> (ip_addr \<times> instant) list" where
  "pongs [] l = []"
| "pongs (c # cs) l =
     (case c of
        CallReceive from b now \<Rightarrow> if draws_pong from b now l then [(addr_ip from, now)] else []
      | _ \<Rightarrow> [])
     @ (case perform c l of None \<Rightarrow> [] | Some (_, l) \<Rightarrow> pongs cs l)"

fun receive_times :: "listener_call list \<Rightarrow> instant list" where
  "receive_times [] = []"
| "receive_times (CallReceive from b now # cs) = now # receive_times cs"
| "receive_times (_ # cs) = receive_times cs"

lemma draws_pong_allowed:
  assumes "draws_pong from b now l"
  shows "b \<noteq> [] \<and> hd b = id_unconnected_ping \<and> fst (allow_ping from now l)"
  using assms by (auto simp: draws_pong_def offline_cases is_pong_def offline_ids handle_request_1_reply
      handle_request_2_reply handle_ping_reply allow_ping_frame Let_def split: if_splits)

lemma allow_ping_table:
  assumes "hm_ok (li_last_ping l)" "allow_ping from now l = (ok, l')"
  shows "ok \<Longrightarrow> hm_get (li_last_ping l') (addr_ip from) = Some now"
    "ok \<Longrightarrow> hm_get (li_last_ping l) (addr_ip from) = Some s \<Longrightarrow> ping_interval (li_config l) \<le> now - s"
    "hm_get (li_last_ping l) ip = Some s \<Longrightarrow> hm_get (li_last_ping l') ip = Some s
       \<or> ping_interval (li_config l) \<le> now - s"
  using assms
  by (auto simp: allow_ping_def Let_def hm.get_ins hm_ok_retain hm_get_retain split: option.splits if_splits)

text \<open>
  Once an address has been answered at \<open>s\<close>, either the table remembers it or the interval
  has passed.
\<close>

definition remembered :: "ip_addr \<Rightarrow> instant \<Rightarrow> listener \<Rightarrow> instant list \<Rightarrow> bool" where
  "remembered ip s l ts \<longleftrightarrow> list_all (\<lambda>t. s \<le> t) ts
     \<and> (hm_get (li_last_ping l) ip = Some s \<or> list_all (\<lambda>t. s + ping_interval (li_config l) \<le> t) ts)"

lemma perform_last_ping:
  assumes "perform c l = Some (evs, l')"
  shows "li_last_ping l' = li_last_ping l
    \<or> (\<exists>from b now. c = CallReceive from b now \<and> hm_get (li_sessions l) from = None \<and> b \<noteq> []
          \<and> hd b = id_unconnected_ping \<and> li_last_ping l' = li_last_ping (snd (allow_ping from now l)))"
proof (cases c)
  case (CallReceive "from" b now)
  then show ?thesis using assms receive_frame_session[of l "from" _ b now evs l']
    by (cases "hm_get (li_sessions l) from")
      (auto simp: listener_receive_def offline_cases handler_frame split: if_splits)
qed (use assms in \<open>auto simp: send_frame poll_frame dest: tick_frame\<close>)

lemma remembered_step:
  assumes inv: "listener_inv l" and c: "perform c l = Some (evs, l')" and so: "sorted (receive_times (c # cs))"
    and r: "remembered ip s l (receive_times (c # cs))"
  shows "remembered ip s l' (receive_times cs)"
proof -
  have cfg: "li_config l' = li_config l" using perform_inv[OF inv c] by simp
  have sub: "set (receive_times cs) \<subseteq> set (receive_times (c # cs))" by (cases c) auto
  from perform_last_ping[OF c] show ?thesis
  proof
    assume "li_last_ping l' = li_last_ping l"
    then show ?thesis using r cfg sub by (auto simp: remembered_def list_all_iff)
  next
    assume "\<exists>from b now. c = CallReceive from b now \<and> hm_get (li_sessions l) from = None \<and> b \<noteq> []
      \<and> hd b = id_unconnected_ping \<and> li_last_ping l' = li_last_ping (snd (allow_ping from now l))"
    then obtain "from" b now where f: "c = CallReceive from b now"
      "li_last_ping l' = li_last_ping (snd (allow_ping from now l))" by blast
    have ok: "hm_ok (li_last_ping l)" using inv by (simp add: listener_inv_def)
    have "hm_get (li_last_ping l) ip = Some s \<Longrightarrow> hm_get (li_last_ping l') ip = Some s
        \<or> ping_interval (li_config l) \<le> now - s"
      using allow_ping_table(3)[OF ok prod.collapse[symmetric]] f(2) by metis
    then show ?thesis using r so cfg by (fastforce simp: f(1) remembered_def list_all_iff)
  qed
qed

lemma pong_allowed_at:
  assumes "listener_inv l" "draws_pong from b now l" "perform (CallReceive from b now) l = Some (evs, l')"
  shows "hm_get (li_last_ping l') (addr_ip from) = Some now"
    "hm_get (li_last_ping l) (addr_ip from) = Some s \<Longrightarrow> ping_interval (li_config l) \<le> now - s"
proof -
  have ok: "hm_ok (li_last_ping l)" using assms(1) by (simp add: listener_inv_def)
  note allowed = draws_pong_allowed[OF assms(2)]
  have none: "hm_get (li_sessions l) from = None" using assms(2) by (simp add: draws_pong_def)
  have "li_last_ping l' = li_last_ping (snd (allow_ping from now l))"
    using assms(3) allowed none by (auto simp: listener_receive_def offline_cases handler_frame)
  then show "hm_get (li_last_ping l') (addr_ip from) = Some now"
    using allow_ping_table(1)[OF ok prod.collapse[symmetric]] allowed by simp
  show "hm_get (li_last_ping l) (addr_ip from) = Some s \<Longrightarrow> ping_interval (li_config l) \<le> now - s"
    using allow_ping_table(2)[OF ok prod.collapse[symmetric]] allowed by blast
qed

lemma draws_pong_performs: "draws_pong from b now l \<Longrightarrow> \<exists>l'. perform (CallReceive from b now) l = Some ([], l')"
  by (simp add: draws_pong_def listener_receive_def)

lemma pongs_spaced:
  assumes "listener_inv l" "sorted (receive_times cs)" "remembered ip s l (receive_times cs)"
    "(ip, t) \<in> set (pongs cs l)"
  shows "s + ping_interval (li_config l) \<le> t"
  using assms
proof (induction cs arbitrary: l)
  case (Cons c cs)
  show ?case
  proof (cases "\<exists>from b. c = CallReceive from b t \<and> draws_pong from b t l \<and> ip = addr_ip from")
    case True
    then obtain "from" b where c: "c = CallReceive from b t" "draws_pong from b t l" "ip = addr_ip from" by blast
    then obtain l1 where "perform (CallReceive from b t) l = Some ([], l1)" using draws_pong_performs by blast
    from pong_allowed_at(2)[OF Cons.prems(1) c(2) this] Cons.prems(3) show ?thesis
      by (auto simp: c(1,3) remembered_def)
  next
    case False
    then obtain evs l1 where c: "perform c l = Some (evs, l1)" and t: "(ip, t) \<in> set (pongs cs l1)"
      using Cons.prems(4) by (cases "perform c l") (auto split: listener_call.splits if_splits)
    have "sorted (receive_times cs)" using Cons.prems(2) by (cases c) auto
    from Cons.IH[OF _ this remembered_step[OF Cons.prems(1) c Cons.prems(2,3)] t]
    show ?thesis using perform_inv[OF Cons.prems(1) c] by simp
  qed
qed simp

lemma pongs_sorted:
  "listener_inv l \<Longrightarrow> sorted (receive_times cs) \<Longrightarrow>
     sorted_wrt (\<lambda>(ip, t) (ip', t'). ip = ip' \<longrightarrow> t + ping_interval (li_config l) \<le> t') (pongs cs l)"
proof (induction cs arbitrary: l)
  case (Cons c cs)
  have so: "sorted (receive_times cs)" using Cons.prems(2) by (cases c) auto
  have rest: "sorted_wrt (\<lambda>(ip, t) (ip', t'). ip = ip' \<longrightarrow> t + ping_interval (li_config l) \<le> t')
      (case perform c l of None \<Rightarrow> [] | Some (_, l) \<Rightarrow> pongs cs l)"
    using Cons.IH[OF _ so] perform_inv[OF Cons.prems(1)] by (fastforce split: option.splits)
  show ?case
  proof (cases "\<exists>from b now. c = CallReceive from b now \<and> draws_pong from b now l")
    case True
    then obtain "from" b now where c: "c = CallReceive from b now" "draws_pong from b now l" by blast
    then obtain l1 where l1: "perform c l = Some ([], l1)" using draws_pong_performs by blast
    have inv1: "listener_inv l1" "li_config l1 = li_config l" using perform_inv[OF Cons.prems(1) l1] by auto
    have "remembered (addr_ip from) now l1 (receive_times cs)"
      using Cons.prems(2) pong_allowed_at(1)[OF Cons.prems(1) c(2)] l1
      by (auto simp: c(1) remembered_def list_all_iff)
    from pongs_spaced[OF inv1(1) so this] rest show ?thesis
      using inv1(2) l1 c by auto
  next
    case False
    then show ?thesis using rest by (auto split: listener_call.splits)
  qed
qed simp

text \<open>C30: However pings arrive, in between any other calls, two pongs to the same IP address are at
  least the configured interval apart, whatever the size of the table and however often it is
  pruned, as long as the clock does not go back.\<close>

theorem pongs_are_rate_limited:
  assumes "new_listener local guid adv c = Some l" "sorted (receive_times cs)"
  shows "sorted_wrt (\<lambda>(ip, t) (ip', t'). ip = ip' \<longrightarrow> t + ping_interval c \<le> t') (pongs cs l)"
  using pongs_sorted[OF _ assms(2)] listener_inv_new[OF assms(1)] by blast

lemma pongs_are_rate_limited_witness:
  "sorted_wrt (\<lambda>(ip, t) (ip', t'). ip = ip' \<longrightarrow> t + ping_interval default_listener_config \<le> t')
     (pongs [CallReceive (SockV4 1 2 3 4 5) (replicate 9 1) 0, CallReceive (SockV4 1 2 3 4 6) (replicate 9 1) 7]
        \<lparr>li_local = unassigned, li_guid = 1, li_advertisement = [77], li_config = default_listener_config,
           li_sessions = [], li_outbox = [], li_last_ping = []\<rparr>)"
  using pongs_are_rate_limited[of unassigned 1 "[77]" default_listener_config _
      "[CallReceive (SockV4 1 2 3 4 5) (replicate 9 1) 0, CallReceive (SockV4 1 2 3 4 6) (replicate 9 1) 7]"]
  by (simp add: new_listener_def string_truncate_def default_listener_config_def hm_new_def)

section \<open>The opening handshake\<close>

lemma offline_ids_distinct:
  "id_open_connection_request_1 \<noteq> id_unconnected_ping" "id_open_connection_request_2 \<noteq> id_unconnected_ping"
  "id_open_connection_request_2 \<noteq> id_open_connection_request_1"
  by (simp_all add: offline_ids)

lemma request_1_bytes:
  "encode_request_1 n = Some b \<Longrightarrow> length b = n \<and> 18 \<le> n \<and> hd b = id_open_connection_request_1
     \<and> b ! 17 = protocol_version \<and> b \<noteq> []"
  by (auto simp: encode_request_1_def Let_def writer_defs nth_append split: if_splits)

lemma request_2_bytes:
  "encode_request_2 server mtu guid None
     = id_open_connection_request_2 # magic @ write_addr server [] @ be_bytes 2 mtu @ be_bytes 8 guid"
  by (simp add: encode_request_2_def Let_def writer_defs write_addr_append[of server "id_open_connection_request_2 # magic"])

lemma request_2_parts:
  fixes server mtu guid
  defines "b \<equiv> encode_request_2 server mtu guid None"
  shows "length b = 34" "b \<noteq> []" "hd b = id_open_connection_request_2" "b ! 17 = version_ipv4"
    "from_be (take 2 (drop 24 b)) = mtu"
proof -
  have b: "b = id_open_connection_request_2 # magic @ write_addr server [] @ be_bytes 2 mtu @ be_bytes 8 guid"
    using request_2_bytes by (simp add: b_def)
  obtain rest where v: "write_addr server [] = 4 # rest" "length rest = 6"
    by (cases server) (simp_all add: write_addr_v4 write_addr_v6 unassigned_def)
  show "length b = 34" "b \<noteq> []" "hd b = id_open_connection_request_2" "b ! 17 = version_ipv4"
    by (simp_all add: b v version_ipv4_def nth_append)
  show "from_be (take 2 (drop 24 b)) = mtu"
    by (simp add: b v from_be_be_bytes_full)
qed

text \<open>The two replies, to a probe of \<open>n\<close> bytes and to the request for what was probed.\<close>

definition probed_mtu :: "nat \<Rightarrow> u16" where "probed_mtu n = of_nat (n + udp_ip_overhead)"

definition probe_reply :: "nat \<Rightarrow> listener \<Rightarrow> bytes" where
  "probe_reply n l = id_open_connection_reply_1 # magic @ be_bytes 8 (li_guid l) @ [0] @ be_bytes 2 (probed_mtu n)"

definition open_reply :: "socket_addr \<Rightarrow> nat \<Rightarrow> listener \<Rightarrow> bytes" where
  "open_reply from n l = id_open_connection_reply_2 # magic @ be_bytes 8 (li_guid l) @ write_addr from []
     @ be_bytes 2 (probed_mtu n) @ [0]"

definition opened_session :: "socket_addr \<Rightarrow> nat \<Rightarrow> instant \<Rightarrow> listener \<Rightarrow> session" where
  "opened_session from n now l
     = new_session from (li_local l) ((lc_session (li_config l))\<lparr>payload_limit := max n 576\<rparr>) now"

lemma probed_mtu_limit: "n \<le> max_mtu \<Longrightarrow> mtu_payload_limit (probed_mtu n) = n"
proof -
  assume "n \<le> max_mtu"
  then have "unat (of_nat (n + 28) :: u16) = n + 28" by (intro unat_of_nat_small) (simp add: max_mtu_def)
  then show ?thesis by (simp add: probed_mtu_def mtu_payload_limit_def udp_ip_overhead_def)
qed

lemma open_replies_read:
  "decode_reply_1 (probe_reply n l) = Inr \<lparr>r1_server_guid = li_guid l, r1_cookie = None, r1_mtu = probed_mtu n\<rparr>"
  "decode_reply_2 (open_reply from n l)
     = Inr \<lparr>r2_server_guid = li_guid l, r2_client_addr = addr_as_v4 from, r2_mtu = probed_mtu n, r2_encryption_enabled = False\<rparr>"
  using decode_reply_1_written[of "li_guid l" "probed_mtu n"] decode_reply_2_written[of "li_guid l" "from" "probed_mtu n"]
  by (simp_all add: probe_reply_def open_reply_def)

lemma probe_answered:
  assumes "hm_get (li_sessions l) from = None" "encode_request_1 n = Some b" "n \<le> max_mtu"
  shows "listener_receive from b now l = Some ([], listener_reply from (probe_reply n l) l)"
  using request_1_bytes[OF assms(2)] assms(1,3)
  by (simp add: listener_receive_def offline_cases offline_ids_distinct handle_request_1_reply udp_ip_overhead_def min_absorb1
      probe_reply_def probed_mtu_def)

lemma open_answered:
  assumes "hm_get (li_sessions l) from = None" "listener_sessions l < max_sessions (li_config l)" "n \<le> max_mtu"
  shows "listener_receive from (encode_request_2 server (probed_mtu n) guid None) now l
    = Some ([], (listener_reply from (open_reply from n l) l)
        \<lparr>li_sessions := hm_insert from (opened_session from n now l) (li_sessions l)\<rparr>)"
  using assms(1,2) request_2_parts[of server "probed_mtu n" guid] probed_mtu_limit[OF assms(3)]
  by (simp add: listener_receive_def offline_cases offline_ids_distinct handle_request_2_reply listener_sessions_def Let_def
      open_reply_def opened_session_def)

text \<open>C31: A client that probes with a datagram of \<open>n\<close> bytes is told an MTU from which it computes the
  payload limit \<open>n\<close> again; asking for that MTU it is answered with its own address and the same MTU,
  and the listener then holds a fresh session that sends datagrams of at most \<open>n\<close> bytes (576 at
  least).\<close>

theorem opening_handshake:
  assumes "hm_get (li_sessions l) from = None" "listener_sessions l < max_sessions (li_config l)" "hm_ok (li_sessions l)"
    "encode_request_1 n = Some b" "n \<le> max_mtu"
  shows "\<exists>l1 d1 l2 d2 r1. listener_receive from b t1 l = Some ([], l1)
    \<and> li_outbox l1 = li_outbox l @ [(from, d1)] \<and> decode_reply_1 d1 = Inr r1
    \<and> r1_server_guid r1 = li_guid l \<and> mtu_payload_limit (r1_mtu r1) = n
    \<and> listener_receive from (encode_request_2 server (r1_mtu r1) guid (r1_cookie r1)) t2 l1 = Some ([], l2)
    \<and> li_outbox l2 = li_outbox l1 @ [(from, d2)]
    \<and> decode_reply_2 d2 = Inr \<lparr>r2_server_guid = li_guid l, r2_client_addr = addr_as_v4 from, r2_mtu = r1_mtu r1,
          r2_encryption_enabled = False\<rparr>
    \<and> hm_get (li_sessions l2) from = Some (new_session from (li_local l)
          ((lc_session (li_config l))\<lparr>payload_limit := max n 576\<rparr>) t2)
    \<and> listener_sessions l2 = listener_sessions l + 1"
proof -
  let ?l1 = "listener_reply from (probe_reply n l) l"
  let ?l2 = "(listener_reply from (open_reply from n ?l1) ?l1)
        \<lparr>li_sessions := hm_insert from (opened_session from n t2 ?l1) (li_sessions ?l1)\<rparr>"
  have kept: "li_sessions ?l1 = li_sessions l" "li_config ?l1 = li_config l" "listener_sessions ?l1 = listener_sessions l"
    "opened_session from n t2 ?l1 = opened_session from n t2 l"
    by (simp_all add: listener_reply_def listener_sessions_def opened_session_def)
  have "hm_len (hm_insert from s (li_sessions l)) = hm_len (li_sessions l) + 1" for s
    using assms(1,3) by (simp add: hm_len_insert)
  then show ?thesis
    using probe_answered[OF assms(1,4,5), of t1] open_answered[of ?l1 "from" n server guid t2] assms(1-3,5)
      open_replies_read[where n = n] probed_mtu_limit[OF assms(5)]
    by (intro exI[of _ ?l1] exI[of _ "probe_reply n l"] exI[of _ ?l2] exI[of _ "open_reply from n ?l1"]
        exI[of _ "\<lparr>r1_server_guid = li_guid l, r1_cookie = None, r1_mtu = probed_mtu n\<rparr>"])
      (simp add: kept hm.get_ins listener_sessions_def opened_session_def)
qed

lemma opening_handshake_witness:
  "\<exists>l1 d1 r1. listener_receive (SockV4 1 2 3 4 5) (the (encode_request_1 1200)) 0
      (the (new_listener unassigned 7 [77] default_listener_config)) = Some ([], l1)
    \<and> li_outbox l1 = [(SockV4 1 2 3 4 5, d1)] \<and> decode_reply_1 d1 = Inr r1 \<and> mtu_payload_limit (r1_mtu r1) = 1200"
  using opening_handshake[of "the (new_listener unassigned 7 [77] default_listener_config)" "SockV4 1 2 3 4 5"
      1200 "the (encode_request_1 1200)" 0 unassigned 0 0]
  by (fastforce simp: new_listener_def string_truncate_def default_listener_config_def hm_get_def hm_new_def hm_ok_def
      listener_sessions_def hm_len_def encode_request_1_def max_mtu_def)

text \<open>A ping that the limit lets through is answered with a pong from which the client reads back
  its own time, the server's identity and the advertisement.\<close>

lemma ping_answered:
  assumes "hm_get (li_sessions l) from = None" "hm_get (li_last_ping l) (addr_ip from) = None" "hm_ok (li_last_ping l)"
  shows "\<exists>l'. listener_receive from (encode_unconnected_ping time client) now l = Some ([], l')
    \<and> li_outbox l' = li_outbox l @ [(from, pong_bytes time l)]"
proof -
  let ?b = "encode_unconnected_ping time client"
  have b: "?b = id_unconnected_ping # be_bytes 8 time @ magic @ be_bytes 8 client"
    by (simp add: encode_unconnected_ping_def writer_defs)
  have "fst (allow_ping from now l)"
    using assms(2,3) by (auto simp: allow_ping_def Let_def hm_get_retain)
  then have "listener_offline from ?b now l
    = listener_reply from (pong_bytes time (snd (allow_ping from now l))) (snd (allow_ping from now l))"
    by (simp add: offline_cases b handle_ping_reply from_be_be_bytes_full)
  moreover have "pong_bytes time (snd (allow_ping from now l)) = pong_bytes time l"
    by (simp add: pong_bytes_def allow_ping_frame)
  ultimately show ?thesis using assms(1) by (simp add: listener_receive_def allow_ping_frame)
qed

lemma pong_bytes_read:
  assumes "utf8_valid (li_advertisement l)" "length (li_advertisement l) < 2 ^ 16"
  shows "decode_unconnected_pong (pong_bytes time l)
      = Inr \<lparr>up_time = time, up_server_guid = li_guid l, up_advertisement = li_advertisement l\<rparr>"
  using decode_pong_written[OF assms, of time "li_guid l"] assms(2) by (simp add: pong_bytes_def u16_or_max_def)

text \<open>The table of pings is pruned only of entries that have expired, so its limit does not bound it.\<close>

lemma ping_table_exceeds_its_limit:
  assumes "hm_ok (li_last_ping l)" "hm_get (li_last_ping l) (addr_ip from) = None"
    "list_all (\<lambda>(_, t). now - t < ping_interval (li_config l)) (li_last_ping l)"
  shows "hm_len (li_last_ping (snd (allow_ping from now l))) = Suc (hm_len (li_last_ping l))"
proof -
  have "hm_retain (\<lambda>_ t. now - t < ping_interval (li_config l)) (li_last_ping l) = li_last_ping l"
    using assms(3) by (simp add: hm_retain_def list_all_iff filter_id_conv)
  then show ?thesis using assms(1,2) by (simp add: allow_ping_def Let_def hm_len_insert)
qed

section \<open>Peers do not affect each other\<close>

fun event_peer :: "event \<Rightarrow> socket_addr" where
  "event_peer (EvConnected p) = p"
| "event_peer (EvPayload p b) = p"
| "event_peer (EvDisconnected p r) = p"

lemma offline_sessions:
  assumes "hm_get (li_sessions l) from = None"
  shows "p \<noteq> from \<Longrightarrow> hm_get (li_sessions (listener_offline from b now l)) p = hm_get (li_sessions l) p"
    "\<exists>ds. li_outbox (listener_offline from b now l) = li_outbox l @ map (Pair from) ds"
proof -
  have "li_sessions (snd (allow_ping from now l)) = li_sessions l"
    by (auto simp: allow_ping_def Let_def split: option.splits)
  then show "p \<noteq> from \<Longrightarrow> hm_get (li_sessions (listener_offline from b now l)) p = hm_get (li_sessions l) p"
    by (auto simp: offline_cases handle_ping_reply handle_request_1_reply handle_request_2_reply Let_def
        hm_get_def map_of_hm_insert)
  show "\<exists>ds. li_outbox (listener_offline from b now l) = li_outbox l @ map (Pair from) ds"
    using offline_replies[of "from" b now l] by blast
qed

text \<open>A datagram from one peer touches only that peer: no other session changes, everything it puts
  on the wire and every event goes to or names that peer; a disconnection is reported exactly when
  the peer's session is removed.\<close>

lemma receive_concerns_one_peer:
  assumes "hm_ok (li_sessions l)" "listener_receive from b now l = Some (evs, l')"
  shows "(\<forall>p. p \<noteq> from \<longrightarrow> hm_get (li_sessions l') p = hm_get (li_sessions l) p)
    \<and> (\<exists>ds. li_outbox l' = li_outbox l @ map (Pair from) ds)
    \<and> list_all (\<lambda>e. event_peer e = from) evs
    \<and> ((\<exists>r. EvDisconnected from r \<in> set evs) \<longleftrightarrow>
         hm_get (li_sessions l) from \<noteq> None \<and> hm_get (li_sessions l') from = None)"
proof (cases "hm_get (li_sessions l) from")
  case None
  then show ?thesis
    using assms(2) offline_sessions[OF None] by (auto simp: listener_receive_def)
next
  case (Some s)
  obtain r s1 where r: "session_receive b now s = Some (r, s1)"
    using assms(2) Some by (auto simp: listener_receive_def Let_def split: option.splits)
  have ok: "hm_ok (hm_insert from x (li_sessions l))" for x using assms(1) by (rule hm.invar_ins)
  show ?thesis
  proof (cases "closed_because s1")
    case None
    then show ?thesis
      using assms Some r
      by (auto simp: listener_receive_def Let_def drain_outbox_all hm.get_ins list_all_iff split: if_splits)
  next
    case closed: (Some reason)
    then show ?thesis
      using assms Some r
      by (auto simp: listener_receive_def Let_def drain_outbox_all hm.get_ins hm.get_del ok list_all_iff)
  qed
qed

section \<open>A tick\<close>

text \<open>What a tick does to one session, and the sessions it visits, in the order of the visit.\<close>

definition ticked :: "instant \<Rightarrow> listener \<Rightarrow> socket_addr \<Rightarrow> session option" where
  "ticked now l p = Option.bind (hm_get (li_sessions l) p) (session_tick now)"

definition ended :: "socket_addr \<Rightarrow> session \<Rightarrow> (socket_addr \<times> closed) list" where
  "ended p s = (case closed_because s of Some r \<Rightarrow> [(p, r)] | None \<Rightarrow> [])"

definition visited :: "socket_addr \<Rightarrow> session \<Rightarrow> listener \<Rightarrow> listener" where
  "visited p s l = l\<lparr>li_outbox := li_outbox l @ map (Pair p) (se_outbox s),
     li_sessions := hm_insert p (s\<lparr>se_outbox := []\<rparr>) (li_sessions l)\<rparr>"

lemma tick_sessions_step:
  "tick_sessions (p # ps) now gone l =
     (if hm_get (li_sessions l) p = None then tick_sessions ps now gone l
      else Option.bind (ticked now l p) (\<lambda>s. tick_sessions ps now (gone @ ended p s) (visited p s l)))"
  by (simp add: ticked_def ended_def visited_def drain_outbox_all Let_def split: option.splits)

lemma ticked_visited:
  "hm_ok (li_sessions l) \<Longrightarrow> q \<noteq> p \<Longrightarrow> ticked now (visited p s l) q = ticked now l q"
  by (simp add: ticked_def visited_def hm.get_ins)

lemma visited_simps [simp]:
  "hm_ok (li_sessions l) \<Longrightarrow> hm_ok (li_sessions (visited p s l))"
  "hm_ok (li_sessions l) \<Longrightarrow> hm_get (li_sessions (visited p s l)) q
     = (if q = p then Some (s\<lparr>se_outbox := []\<rparr>) else hm_get (li_sessions l) q)"
  "li_outbox (visited p s l) = li_outbox l @ map (Pair p) (se_outbox s)"
  by (simp_all add: visited_def hm.get_ins hm.invar_ins)

text \<open>The visits of a tick, all taken at the state the tick starts from.\<close>

definition tick_visits :: "instant \<Rightarrow> listener \<Rightarrow> socket_addr list \<Rightarrow> (socket_addr \<times> session) list" where
  "tick_visits now l order = concat (map (\<lambda>p. case ticked now l p of None \<Rightarrow> [] | Some s \<Rightarrow> [(p, s)]) order)"

lemma tick_visits_simps [simp]: "tick_visits now l [] = []"
  "tick_visits now l (p # ps) = (case ticked now l p of None \<Rightarrow> [] | Some s \<Rightarrow> [(p, s)]) @ tick_visits now l ps"
  by (simp_all add: tick_visits_def)

lemma tick_visits_visited:
  "hm_ok (li_sessions l) \<Longrightarrow> p \<notin> set ps \<Longrightarrow> tick_visits now (visited p s l) ps = tick_visits now l ps"
  by (induction ps) (auto simp: ticked_visited)

lemma tick_visits_mem: "(p, s) \<in> set (tick_visits now l order) \<longleftrightarrow> p \<in> set order \<and> ticked now l p = Some s"
  by (induction order) (auto split: option.splits)

lemma tick_sessions_each:
  assumes "tick_sessions order now gone l = Some (gone', l')" "hm_ok (li_sessions l)" "distinct order"
  shows "gone' = gone @ concat (map (\<lambda>(p, s). ended p s) (tick_visits now l order))
    \<and> li_outbox l' = li_outbox l @ concat (map (\<lambda>(p, s). map (Pair p) (se_outbox s)) (tick_visits now l order))
    \<and> (\<forall>p. hm_get (li_sessions l') p = (if p \<in> set order
         then map_option (\<lambda>s. s\<lparr>se_outbox := []\<rparr>) (ticked now l p) else hm_get (li_sessions l) p))"
  using assms
proof (induction order arbitrary: gone l)
  case (Cons p ps)
  show ?case
  proof (cases "hm_get (li_sessions l) p")
    case None
    then have "ticked now l p = None" by (simp add: ticked_def)
    with None Cons.IH[of gone l] Cons.prems show ?thesis by (auto simp: tick_sessions_step)
  next
    case (Some s0)
    then obtain s where s: "ticked now l p = Some s"
      "tick_sessions ps now (gone @ ended p s) (visited p s l) = Some (gone', l')"
      using Cons.prems(1) by (auto simp: tick_sessions_step bind_eq_Some_conv simp del: tick_sessions.simps)
    have p: "p \<notin> set ps" "distinct ps" using Cons.prems(3) by auto
    have "ticked now (visited p s l) q = ticked now l q" if "q \<in> set ps" for q
      using ticked_visited[OF Cons.prems(2)] p(1) that by metis
    then show ?thesis
      using Cons.IH[OF s(2) _ p(2)] Cons.prems(2) p s(1) by (auto simp: tick_visits_visited[OF Cons.prems(2) p(1)] ticked_visited)
  qed
qed simp

text \<open>C32: A tick, whatever the order in which the table is walked, drives every session once: a session
  that ends is removed and reported with its reason, every other one is the ticked session with its
  datagrams moved to the listener's outbox, under the peer's address.\<close>

theorem tick_drives_every_session:
  assumes "listener_tick order now l = Some (evs, l')" "hm_ok (li_sessions l)" "distinct order"
    "set order = dom (hm_get (li_sessions l))"
  shows "(\<forall>p. hm_get (li_sessions l') p = (case ticked now l p of None \<Rightarrow> None
          | Some s \<Rightarrow> if is_closed s then None else Some (s\<lparr>se_outbox := []\<rparr>)))
    \<and> (\<forall>p r. EvDisconnected p r \<in> set evs \<longleftrightarrow> (\<exists>s. ticked now l p = Some s \<and> closed_because s = Some r))
    \<and> li_outbox l' = li_outbox l @ concat (map (\<lambda>(p, s). map (Pair p) (se_outbox s)) (tick_visits now l order))"
proof -
  obtain gone l1 where t: "tick_sessions order now [] l = Some (gone, l1)"
    "l' = fold (\<lambda>(peer, _) l. l\<lparr>li_sessions := hm_remove peer (li_sessions l)\<rparr>) gone l1"
    "evs = map (\<lambda>(peer, reason). EvDisconnected peer reason) gone"
    using assms(1) by (auto simp: listener_tick_def)
  note each = tick_sessions_each[OF t(1) assms(2,3)]
  have known: "ticked now l p = Some s \<Longrightarrow> p \<in> set order" for p s
    using assms(4) by (auto simp: ticked_def bind_eq_Some_conv)
  have gone: "(p, r) \<in> set gone \<longleftrightarrow> (\<exists>s. ticked now l p = Some s \<and> closed_because s = Some r)" for p r
    using each known[of p] by (force simp: tick_visits_mem ended_def split: option.splits)
  then have "p \<in> fst ` set gone \<longleftrightarrow> (\<exists>s. ticked now l p = Some s \<and> is_closed s)" for p
    using closed_because_None by (force simp: image_iff)
  moreover have "p \<notin> set order \<Longrightarrow> ticked now l p = None \<and> hm_get (li_sessions l) p = None" for p
    using assms(4) by (auto simp: ticked_def)
  ultimately have "hm_get (li_sessions l') p = (case ticked now l p of None \<Rightarrow> None
          | Some s \<Rightarrow> if is_closed s then None else Some (s\<lparr>se_outbox := []\<rparr>))" for p
    using each by (cases "p \<in> set order") (auto simp: t(2) fold_drop_frame split: option.splits)
  moreover have "EvDisconnected p r \<in> set evs \<longleftrightarrow> (p, r) \<in> set gone" for p r
    by (auto simp: t(3))
  ultimately show ?thesis using each gone by (simp add: t(2) fold_drop_frame)
qed

lemma tick_drives_every_session_witness:
  "\<exists>evs l'. listener_tick [unassigned] (30 * 10 ^ 9)
       \<lparr>li_local = unassigned, li_guid = 1, li_advertisement = [77], li_config = default_listener_config,
          li_sessions = [(unassigned, sample_session)], li_outbox = [], li_last_ping = []\<rparr> = Some (evs, l')
     \<and> hm_get (li_sessions l') unassigned = None \<and> EvDisconnected unassigned Timeout \<in> set evs"
proof -
  let ?l = "\<lparr>li_local = unassigned, li_guid = 1, li_advertisement = [77], li_config = default_listener_config,
          li_sessions = [(unassigned, sample_session)], li_outbox = [], li_last_ping = []\<rparr>"
  have tick: "session_tick (30 * 10 ^ 9) sample_session = Some (sample_session\<lparr>se_state := Closed Timeout\<rparr>)"
    by (simp add: session_tick_def sample_session_def new_session_def is_closed_def default_config_def)
  then have t: "ticked (30 * 10 ^ 9) ?l unassigned = Some (sample_session\<lparr>se_state := Closed Timeout\<rparr>)"
    by (simp add: ticked_def hm_get_def)
  have "listener_tick [unassigned] (30 * 10 ^ 9) ?l \<noteq> None"
    using tick by (simp add: listener_tick_def hm_get_def drain_outbox_all Let_def)
  then obtain evs l' where l: "listener_tick [unassigned] (30 * 10 ^ 9) ?l = Some (evs, l')" by auto
  have "hm_ok (li_sessions ?l)" "set [unassigned] = dom (hm_get (li_sessions ?l))"
    by (auto simp: hm_ok_def hm_get_def)
  note d = tick_drives_every_session[OF l this(1) _ this(2)]
  have "hm_get (li_sessions l') unassigned = None" using conjunct1[OF d] t by (simp add: is_closed_def)
  moreover have "EvDisconnected unassigned Timeout \<in> set evs"
    using conjunct1[OF conjunct2[OF d]] t by (simp add: closed_because_def)
  ultimately show ?thesis using l by blast
qed

end
