(* ===== verification/Play.thy ===== *)
theory Play
  imports Server Serving
begin

text \<open>
  What the server of \<open>Server\<close> guarantees: whom a datagram concerns, who gets into the game, what is
  streamed to a player who moves, and what the client reads of it.

  \<open>handled\<close> is the contract of every handler; it is proved bottom up, once per handler.
\<close>

section \<open>Sending changes the transport and the cipher only\<close>

definition sealed_state :: "'k primitives \<Rightarrow> socket_addr \<Rightarrow> packet list \<Rightarrow> instant \<Rightarrow> 'k server \<Rightarrow> listener \<times> (socket_addr, cipher) hash_map" where
  "sealed_state p peer packets now s =
     (sv_listener (send_encrypted p peer packets now s), sv_ciphers (send_encrypted p peer packets now s))"

lemma send_encrypted_parts:
  "send_encrypted p peer packets now s =
     (case hm_get (sv_ciphers s) peer of
        None \<Rightarrow> s
      | Some c \<Rightarrow> s\<lparr>sv_ciphers := hm_insert peer (snd (cipher_encrypt p (tl (encode_batch_with_method packets)) c)) (sv_ciphers s),
          sv_listener := snd (listener_send peer
            (batch_marker # fst (cipher_encrypt p (tl (encode_batch_with_method packets)) c)) now (sv_listener s))\<rparr>)"
  by (simp add: send_encrypted_def encode_batch_bytes(2) server_send_def split_beta split: option.splits)

text \<open>Everything but the transport and the ciphers.\<close>

lemma send_encrypted_frame [simp]:
  "sv_settled (send_encrypted p peer ps now s) = sv_settled s"
  "sv_keys (send_encrypted p peer ps now s) = sv_keys s"
  "sv_protocols (send_encrypted p peer ps now s) = sv_protocols s"
  "sv_players (send_encrypted p peer ps now s) = sv_players s"
  "sv_world (send_encrypted p peer ps now s) = sv_world s"
  "sv_world_name (send_encrypted p peer ps now s) = sv_world_name s"
  "sv_stage (send_encrypted p peer ps now s) = sv_stage s"
  "sv_identity_keys (send_encrypted p peer ps now s) = sv_identity_keys s"
  "sv_clock (send_encrypted p peer ps now s) = sv_clock s"
  "sv_generated (send_encrypted p peer ps now s) = sv_generated s"
  by (simp_all add: send_encrypted_parts split: option.splits)

lemma send_encrypted_commutes:
  "send_encrypted p peer ps now (s\<lparr>sv_players := P\<rparr>) = (send_encrypted p peer ps now s)\<lparr>sv_players := P\<rparr>"
  "send_encrypted p peer ps now (s\<lparr>sv_world := W\<rparr>) = (send_encrypted p peer ps now s)\<lparr>sv_world := W\<rparr>"
  by (simp_all add: send_encrypted_parts split: option.splits)

lemma send_each_commutes:
  "send_each p peer ps now (s\<lparr>sv_players := P\<rparr>) = (send_each p peer ps now s)\<lparr>sv_players := P\<rparr>"
  "send_each p peer ps now (s\<lparr>sv_world := W\<rparr>) = (send_each p peer ps now s)\<lparr>sv_world := W\<rparr>"
  by (induction ps arbitrary: s) (simp_all add: send_encrypted_commutes)

lemma send_encrypted_ciphers:
  assumes "hm_ok (sv_ciphers s)"
  shows "hm_ok (sv_ciphers (send_encrypted p peer ps now s))"
    "q \<noteq> peer \<Longrightarrow> hm_get (sv_ciphers (send_encrypted p peer ps now s)) q = hm_get (sv_ciphers s) q"
    "dom (hm_get (sv_ciphers (send_encrypted p peer ps now s))) = dom (hm_get (sv_ciphers s))"
  using assms by (auto simp: send_encrypted_parts hm.invar_ins hm.get_ins split: option.splits)

lemma send_each_append:
  "send_each p peer (xs @ ys) now s = send_each p peer ys now (send_each p peer xs now s)"
  by (induction xs arbitrary: s) simp_all

section \<open>What is streamed\<close>

definition column_ok :: "int \<times> int \<Rightarrow> bool" where
  "column_ok c \<longleftrightarrow> - (2 ^ 27) \<le> fst c \<and> fst c < 2 ^ 27 \<and> - (2 ^ 27) \<le> snd c \<and> snd c < 2 ^ 27"

definition near :: "int \<times> int \<Rightarrow> int \<Rightarrow> (int \<times> int) set" where
  "near c r = {(x, z). \<bar>x - fst c\<bar> \<le> r \<and> \<bar>z - snd c\<bar> \<le> r}"

lemma set_columns_around: "set (columns_around x z r) = near (x, z) r"
  by (auto simp: columns_around_def near_def image_iff)

lemma distinct_columns_around: "distinct (columns_around x z r)"
proof -
  have "columns_around x z r = List.product [x - r..x + r] [z - r..z + r]"
    by (simp add: columns_around_def product_concat_map)
  then show ?thesis by (simp add: distinct_product)
qed

text \<open>The world after columns were looked up, one after the other.\<close>

fun loaded_all :: "(int \<times> int) list \<Rightarrow> world \<Rightarrow> world" where
  "loaded_all [] w = w"
| "loaded_all ((x, z) # cs) w = loaded_all cs (snd (world_chunk x z w))"

lemma loaded_all_spec: "world_inv w \<Longrightarrow> world_inv (loaded_all cs w) \<and> column_view (loaded_all cs w) = column_view w"
proof (induction cs w rule: loaded_all.induct)
  case (2 x z cs w)
  then show ?case using world_chunk_spec(2,3)[OF 2(2) surjective_pairing, of x z] by simp
qed simp

definition column_for :: "world \<Rightarrow> int \<times> int \<Rightarrow> packet" where
  "column_for w c = column_packet (column_view w c) biome_plains"

lemma hm_insert_twice: "hm_insert k v (hm_insert k v' m) = hm_insert k v m"
  by (induction k v m rule: hm_insert.induct) auto

lemma hm_insert_same: "hm_get m k = Some v \<Longrightarrow> hm_insert k v m = m"
  by (induction k v m rule: hm_insert.induct) (auto simp: hm_get_def split: if_splits)

lemma stream_columns_spec:
  assumes "hm_get (sv_players s) peer = Some pl" "hm_ok (sv_players s)" "world_inv (sv_world s)" "distinct wanted"
  defines "new \<equiv> filter (\<lambda>c. c \<notin> pl_sent pl) wanted"
  shows "fst (stream_columns p peer now wanted n s) = n + length new
    \<and> snd (stream_columns p peer now wanted n s)
        = (send_each p peer (map (column_for (sv_world s)) new) now s)
            \<lparr>sv_players := hm_insert peer (pl\<lparr>pl_sent := pl_sent pl \<union> set new\<rparr>) (sv_players s),
             sv_world := loaded_all new (sv_world s)\<rparr>"
  unfolding new_def
  using assms(1-4)
proof (induction wanted arbitrary: n s pl)
  case Nil
  then show ?case by (simp add: hm_insert_same)
next
  case (Cons c wanted)
  obtain x z where c: "c = (x, z)" by fastforce
  show ?case
  proof (cases "c \<in> pl_sent pl")
    case True
    then show ?thesis using Cons c by simp
  next
    case False
    obtain col w where w: "world_chunk x z (sv_world s) = (col, w)" by fastforce
    note ws = world_chunk_spec[OF Cons.prems(3) w]
    let ?pl = "pl\<lparr>pl_sent := insert (x, z) (pl_sent pl)\<rparr>"
    let ?s = "send_encrypted p peer [column_packet col biome_plains] now
      (s\<lparr>sv_players := hm_insert peer ?pl (sv_players s), sv_world := w\<rparr>)"
    have get: "hm_get (sv_players ?s) peer = Some ?pl" "hm_ok (sv_players ?s)" "world_inv (sv_world ?s)"
      using Cons.prems(2) ws(2) by (simp_all add: hm.get_ins hm.invar_ins)
    have new: "filter (\<lambda>c. c \<notin> pl_sent ?pl) wanted = filter (\<lambda>c. c \<notin> pl_sent pl) wanted"
      using Cons.prems(4) c by (intro filter_cong) auto
    let ?new = "filter (\<lambda>c. c \<notin> pl_sent pl) wanted"
    have step: "stream_columns p peer now (c # wanted) n s = stream_columns p peer now wanted (n + 1) ?s"
      using False w Cons.prems(1) by (simp add: c)
    have col: "column_packet col biome_plains = column_for (sv_world s) c" using ws(1) by (simp add: column_for_def c)
    have view: "map (column_for w) ?new = map (column_for (sv_world s)) ?new" using ws(3) by (simp add: column_for_def)
    have "distinct wanted" using Cons.prems(4) by simp
    from Cons.IH[OF get this, of "n + 1", folded step, unfolded new] show ?thesis
      using False by (simp add: col view send_encrypted_commutes send_each_commutes hm_insert_twice c w insert_commute)
  qed
qed

definition publisher_for :: "player \<Rightarrow> int \<times> int \<Rightarrow> packet" where
  "publisher_for pl center = publisher_update (of_int (fst center * chunk_width))
     (of_int (f32_to_int (f32_sub (fst (snd (pl_position pl))) position_offset)))
     (of_int (snd center * chunk_width)) (of_int (pl_radius pl * chunk_width))"

text \<open>The columns a move needs: those in view that are not remembered as sent.\<close>

definition new_columns :: "player \<Rightarrow> int \<times> int \<Rightarrow> (int \<times> int) list" where
  "new_columns pl center = filter (\<lambda>c. c \<notin> pl_sent pl) (columns_around (fst center) (snd center) (pl_radius pl))"

lemma forget_far_near: "forget_far c r cs = cs \<inter> near c r"
  by (auto simp: forget_far_def near_def)

lemma near_mono: "r \<le> r' \<Longrightarrow> near c r \<subseteq> near c r'"
  by (auto simp: near_def)

lemma stream_around_spec:
  assumes "hm_get (sv_players s) peer = Some pl" "hm_ok (sv_players s)" "world_inv (sv_world s)"
  shows "stream_around p peer center now s =
    (length (new_columns pl center),
     (send_each p peer (publisher_for pl center # map (column_for (sv_world s)) (new_columns pl center)) now s)
       \<lparr>sv_players := hm_insert peer (pl\<lparr>pl_center := center,
            pl_sent := pl_sent pl \<inter> near center (pl_radius pl + 2) \<union> near center (pl_radius pl)\<rparr>) (sv_players s),
        sv_world := loaded_all (new_columns pl center) (sv_world s)\<rparr>)"
proof -
  let ?kept = "pl_sent pl \<inter> near center (pl_radius pl + 2)"
  let ?pl = "pl\<lparr>pl_center := center, pl_sent := ?kept\<rparr>"
  let ?s = "send_encrypted p peer [publisher_for pl center] now (s\<lparr>sv_players := hm_insert peer ?pl (sv_players s)\<rparr>)"
  let ?wanted = "columns_around (fst center) (snd center) (pl_radius pl)"
  have "near center (pl_radius pl) \<subseteq> near center (pl_radius pl + 2)" by (rule near_mono) simp
  then have new: "filter (\<lambda>c. c \<notin> pl_sent ?pl) ?wanted = new_columns pl center"
    unfolding new_columns_def by (intro filter_cong) (auto simp: set_columns_around)
  have sent: "?kept \<union> set (new_columns pl center) = ?kept \<union> near center (pl_radius pl)"
    using \<open>near center (pl_radius pl) \<subseteq> near center (pl_radius pl + 2)\<close>
    by (auto simp: new_columns_def set_columns_around)
  have get: "hm_get (sv_players ?s) peer = Some ?pl" "hm_ok (sv_players ?s)" "world_inv (sv_world ?s)"
    using assms by (simp_all add: hm.get_ins hm.invar_ins)
  have w: "sv_world ?s = sv_world s" and k: "?pl\<lparr>pl_sent := pl_sent ?pl \<union> cs\<rparr> = ?pl\<lparr>pl_sent := ?kept \<union> cs\<rparr>" for cs
    by simp_all
  have "stream_around p peer center now s = stream_columns p peer now ?wanted 0 ?s"
    using assms(1) by (simp add: stream_around_def Let_def forget_far_near forget_margin_def publisher_for_def)
  also have "\<dots> = (length (new_columns pl center), (send_each p peer (map (column_for (sv_world s)) (new_columns pl center)) now ?s)
      \<lparr>sv_players := hm_insert peer (?pl\<lparr>pl_sent := ?kept \<union> set (new_columns pl center)\<rparr>) (sv_players ?s),
       sv_world := loaded_all (new_columns pl center) (sv_world s)\<rparr>)"
    using stream_columns_spec[OF get distinct_columns_around[of "fst center" "snd center" "pl_radius pl"], where n = 0 and p = p and now = now]
    unfolding new w k by (simp only: prod_eq_iff fst_conv snd_conv add_0 simp_thms)
  finally show ?thesis
    unfolding sent by (simp add: send_encrypted_commutes send_each_commutes hm_insert_twice)
qed

section \<open>The contract of the handlers\<close>

definition player_inv :: "player \<Rightarrow> bool" where
  "player_inv pl \<longleftrightarrow> 1 \<le> pl_radius pl \<and> pl_radius pl \<le> 4 \<and> column_ok (pl_center pl)
     \<and> near (pl_center pl) (pl_radius pl) \<subseteq> pl_sent pl \<and> pl_sent pl \<subseteq> near (pl_center pl) (pl_radius pl + 2)"

text \<open>
  The tables are maps, the world keeps its invariant, a player in the world has an encrypted stream, a
  stream belongs to a login that was accepted, and what a player can see was sent.
\<close>

definition server_inv :: "'k server \<Rightarrow> bool" where
  "server_inv s \<longleftrightarrow> hm_ok (sv_keys s) \<and> hm_ok (sv_ciphers s) \<and> hm_ok (sv_protocols s) \<and> hm_ok (sv_players s)
     \<and> world_inv (sv_world s)
     \<and> dom (hm_get (sv_players s)) \<subseteq> dom (hm_get (sv_ciphers s))
     \<and> dom (hm_get (sv_ciphers s)) \<subseteq> dom (hm_get (sv_keys s))
     \<and> dom (hm_get (sv_protocols s)) = dom (hm_get (sv_keys s))
     \<and> (\<forall>q pl. hm_get (sv_players s) q = Some pl \<longrightarrow> player_inv pl)"

definition same_frame :: "socket_addr \<Rightarrow> 'k server \<Rightarrow> 'k server \<Rightarrow> bool" where
  "same_frame peer s s' \<longleftrightarrow> sv_stage s' = sv_stage s \<and> sv_identity_keys s' = sv_identity_keys s
     \<and> sv_clock s' = sv_clock s \<and> sv_world_name s' = sv_world_name s
     \<and> column_view (sv_world s') = column_view (sv_world s)
     \<and> (\<forall>q. q \<noteq> peer \<longrightarrow> (q \<in> sv_settled s' \<longleftrightarrow> q \<in> sv_settled s)
          \<and> hm_get (sv_keys s') q = hm_get (sv_keys s) q \<and> hm_get (sv_ciphers s') q = hm_get (sv_ciphers s) q
          \<and> hm_get (sv_protocols s') q = hm_get (sv_protocols s) q \<and> hm_get (sv_players s') q = hm_get (sv_players s) q)"

fun server_event_peer :: "server_event \<Rightarrow> socket_addr" where
  "server_event_peer (SConnected q) = q"
| "server_event_peer (SNetworkSettingsRequested q _) = q"
| "server_event_peer (SUnhandled q _ _) = q"
| "server_event_peer (SLoginAccepted q _ _) = q"
| "server_event_peer (SLoginRejected q _) = q"
| "server_event_peer (SHandshakeAccepted q) = q"
| "server_event_peer (SPlayStatusSent q _) = q"
| "server_event_peer (SPacksAnswered q _) = q"
| "server_event_peer (SReadyForWorld q) = q"
| "server_event_peer (SWorldSent q) = q"
| "server_event_peer (SSpawned q _) = q"
| "server_event_peer (SChunkRadiusGranted q _ _) = q"
| "server_event_peer (SPlayerInitialized q) = q"
| "server_event_peer (SChunksStreamed q _ _ _) = q"
| "server_event_peer (SPlayerMoved q _ _ _) = q"
| "server_event_peer (SDecrypted q _ _) = q"
| "server_event_peer (SDecryptionFailed q) = q"
| "server_event_peer (SCompressed q _) = q"
| "server_event_peer (SUndecodable q _) = q"
| "server_event_peer (SDisconnected q _) = q"

text \<open>What an event says of the server it comes from.\<close>

fun event_allowed :: "'k primitives \<Rightarrow> instant \<Rightarrow> 'k server \<Rightarrow> server_event \<Rightarrow> bool" where
  "event_allowed p now s (SLoginAccepted q v name) \<longleftrightarrow>
     (\<exists>identity claims. verify_identity p identity now s = Inr claims \<and> name = cl_xname claims)"
| "event_allowed p now s (SChunkRadiusGranted q requested granted) \<longleftrightarrow>
     StageRadius \<le> sv_stage s \<and> granted = max 1 (min requested 4)"
| "event_allowed p now s (SSpawned q columns) \<longleftrightarrow> StageChunks \<le> sv_stage s"
| "event_allowed p now s _ \<longleftrightarrow> True"

definition let_in :: "socket_addr \<Rightarrow> server_event list \<Rightarrow> bool" where
  "let_in peer es \<longleftrightarrow> (\<exists>v name. SLoginAccepted peer v name \<in> set es)"

definition handled :: "'k primitives \<Rightarrow> socket_addr \<Rightarrow> instant \<Rightarrow> 'k server \<Rightarrow> server_event list \<times> 'k server \<Rightarrow> bool" where
  "handled p peer now s r \<longleftrightarrow> (case r of (es, s') \<Rightarrow>
     server_inv s' \<and> same_frame peer s s'
     \<and> (\<forall>e \<in> set es. server_event_peer e = peer \<and> event_allowed p now s e)
     \<and> (peer \<in> dom (hm_get (sv_ciphers s')) \<longrightarrow> peer \<in> dom (hm_get (sv_ciphers s)) \<or> let_in peer es))"

lemma verify_identity_frame:
  "same_frame peer s s' \<Longrightarrow> verify_identity p identity now s' = verify_identity p identity now s"
  by (simp add: same_frame_def verify_identity_def server_unix_now_def)

lemma event_allowed_frame: "same_frame peer s s' \<Longrightarrow> event_allowed p now s' e = event_allowed p now s e"
  using verify_identity_frame[of peer s s'] by (cases e) (simp_all add: same_frame_def)

lemma same_frame_trans: "same_frame peer s s' \<Longrightarrow> same_frame peer s' s'' \<Longrightarrow> same_frame peer s s''"
  by (simp add: same_frame_def)

lemma handled_append:
  assumes "handled p peer now s (es, s1)" "handled p peer now s1 (es', s2)"
  shows "handled p peer now s (es @ es', s2)"
proof -
  have f: "same_frame peer s s1" and f': "same_frame peer s1 s2" using assms by (simp_all add: handled_def)
  have "let_in peer (es @ es') \<longleftrightarrow> let_in peer es \<or> let_in peer es'" by (auto simp: let_in_def)
  then show ?thesis
    using assms same_frame_trans[OF f f'] event_allowed_frame[OF f] by (auto simp: handled_def)
qed

lemma handled_quiet:
  "server_inv s \<Longrightarrow> list_all (\<lambda>e. server_event_peer e = peer \<and> event_allowed p now s e) es \<Longrightarrow> handled p peer now s (es, s)"
  by (simp add: handled_def same_frame_def list_all_iff)

lemma handled_then:
  "handled p peer now s ([], s1) \<Longrightarrow> handled p peer now s1 (es, s2) \<Longrightarrow> handled p peer now s (es, s2)"
  using handled_append[of p peer now s "[]" s1 es s2] by simp

lemma handled_events:
  assumes "handled p peer now s ([], s')" "list_all (\<lambda>e. server_event_peer e = peer \<and> event_allowed p now s e) es"
  shows "handled p peer now s (es, s')"
  using assms by (auto simp: handled_def let_in_def list_all_iff)

lemma handled_send_encrypted: "server_inv s \<Longrightarrow> handled p peer now s ([], send_encrypted p peer ps now s)"
  by (simp add: handled_def same_frame_def server_inv_def send_encrypted_ciphers)

lemma handled_send_each: "server_inv s \<Longrightarrow> handled p peer now s ([], send_each p peer ps now s)"
proof (induction ps arbitrary: s)
  case Nil
  show ?case unfolding send_each.simps by (rule handled_quiet[OF Nil]) simp
next
  case (Cons packet ps)
  have one: "handled p peer now s ([], send_encrypted p peer [packet] now s)" by (rule handled_send_encrypted[OF Cons.prems])
  then have "server_inv (send_encrypted p peer [packet] now s)" by (simp add: handled_def)
  from handled_then[OF one Cons.IH[OF this]] show ?case by simp
qed

lemma handled_server_send: "server_inv s \<Longrightarrow> handled p peer now s ([], server_send peer b now s)"
  by (simp add: handled_def same_frame_def server_inv_def server_send_def)

section \<open>The handlers\<close>

lemma dom_hm_insert: "hm_ok m \<Longrightarrow> dom (hm_get (hm_insert k v m)) = insert k (dom (hm_get m))"
  by (simp add: hm.get_ins)

lemma handled_players:
  assumes "server_inv s" "peer \<in> dom (hm_get (sv_ciphers s))" "player_inv pl" "world_inv w"
    "column_view w = column_view (sv_world s)"
  shows "handled p peer now s ([], s\<lparr>sv_players := hm_insert peer pl (sv_players s), sv_world := w\<rparr>)"
  using assms by (simp add: handled_def same_frame_def server_inv_def hm.invar_ins hm.get_ins)

text \<open>
  A player is not consistent between entering the table and the end of the streaming, so streaming is
  one step for the contract.
\<close>

lemma handled_stream_around:
  assumes "server_inv s" "peer \<in> dom (hm_get (sv_ciphers s))" "1 \<le> pl_radius pl" "pl_radius pl \<le> 4" "column_ok center"
  shows "handled p peer now s
    ([], snd (stream_around p peer center now (s\<lparr>sv_players := hm_insert peer pl (sv_players s)\<rparr>)))"
proof -
  let ?s = "s\<lparr>sv_players := hm_insert peer pl (sv_players s)\<rparr>"
  let ?pl = "pl\<lparr>pl_center := center,
      pl_sent := pl_sent pl \<inter> near center (pl_radius pl + 2) \<union> near center (pl_radius pl)\<rparr>"
  let ?packets = "publisher_for pl center # map (column_for (sv_world s)) (new_columns pl center)"
  let ?w = "loaded_all (new_columns pl center) (sv_world s)"
  have ok: "hm_ok (sv_players s)" "world_inv (sv_world s)" using assms(1) by (simp_all add: server_inv_def)
  have get: "hm_get (sv_players ?s) peer = Some pl" "hm_ok (sv_players ?s)" "world_inv (sv_world ?s)"
    using ok by (simp_all add: hm.get_ins hm.invar_ins)
  have pl: "player_inv ?pl"
    using assms(3-5) near_mono[of "pl_radius pl" "pl_radius pl + 2" center] by (auto simp: player_inv_def)
  have "snd (stream_around p peer center now ?s)
      = (send_each p peer ?packets now s)\<lparr>sv_players := hm_insert peer ?pl (sv_players s), sv_world := ?w\<rparr>"
    using stream_around_spec[OF get, of p center now]
    by (simp add: send_each_commutes send_encrypted_commutes hm_insert_twice)
  also have "\<dots> = send_each p peer ?packets now (s\<lparr>sv_players := hm_insert peer ?pl (sv_players s), sv_world := ?w\<rparr>)"
    by (simp only: send_each_commutes)
  finally have eq: "snd (stream_around p peer center now ?s)
      = send_each p peer ?packets now (s\<lparr>sv_players := hm_insert peer ?pl (sv_players s), sv_world := ?w\<rparr>)" .
  have first: "handled p peer now s ([], s\<lparr>sv_players := hm_insert peer ?pl (sv_players s), sv_world := ?w\<rparr>)"
    using handled_players[OF assms(1,2) pl] loaded_all_spec[OF ok(2)] by blast
  then have inv: "server_inv (s\<lparr>sv_players := hm_insert peer ?pl (sv_players s), sv_world := ?w\<rparr>)"
    by (simp add: handled_def)
  show ?thesis unfolding eq by (rule handled_then[OF first handled_send_each[OF inv]])
qed

lemma center_ok: "column_ok (f32_to_int a div chunk_width, f32_to_int b div chunk_width)"
  using f32_to_int_ok[of a] f32_to_int_ok[of b] by (simp add: column_ok_def i32_ok_def chunk_width_def) linarith

lemma handled_server_inv: "handled p peer now s (es, s') \<Longrightarrow> server_inv s'"
  by (simp add: handled_def)

lemma handled_keeps_stage: "handled p peer now s (es, s') \<Longrightarrow> sv_stage s' = sv_stage s"
  by (simp add: handled_def same_frame_def)

lemma handled_stream_world:
  assumes "server_inv s" "peer \<in> dom (hm_get (sv_ciphers s))" "1 \<le> radius" "radius \<le> 4"
  shows "handled p peer now s ([], snd (stream_world p peer radius now s))"
proof -
  let ?pl = "\<lparr>pl_radius = max radius 0, pl_center = (0, 0), pl_sent = {}, pl_position = (0, f32_of_int surface_height, 0)\<rparr>"
  let ?s = "snd (stream_around p peer (0, 0) now (s\<lparr>sv_players := hm_insert peer ?pl (sv_players s)\<rparr>))"
  have first: "handled p peer now s ([], ?s)"
    using assms by (intro handled_stream_around) (simp_all add: column_ok_def)
  have inv: "server_inv ?s" by (rule handled_server_inv[OF first])
  have "snd (stream_world p peer radius now s)
      = (if sv_stage ?s \<ge> StageSpawn then send_encrypted p peer [status_packet PlayerSpawn] now ?s else ?s)"
    by (simp add: stream_world_def Let_def split_beta)
  then show ?thesis
    using handled_then[OF first handled_send_encrypted[OF inv]] first by simp
qed

lemma handled_player_moved:
  assumes "server_inv s" "peer \<in> dom (hm_get (sv_ciphers s))"
  shows "handled p peer now s (on_player_moved p peer input now s)"
proof (cases "hm_get (sv_players s) peer")
  case None
  then show ?thesis using assms(1) by (auto simp: on_player_moved_def intro!: handled_quiet)
next
  case (Some player)
  let ?pl = "player\<lparr>pl_position := (ai_x input, ai_y input, ai_z input)\<rparr>"
  let ?center = "(f32_to_int (f32_floor (ai_x input)) div chunk_width, f32_to_int (f32_floor (ai_z input)) div chunk_width)"
  have pl: "player_inv player" using assms(1) Some by (auto simp: server_inv_def)
  have r: "1 \<le> pl_radius ?pl" "pl_radius ?pl \<le> 4" using pl by (simp_all add: player_inv_def)
  have stay: "handled p peer now s ([], s\<lparr>sv_players := hm_insert peer ?pl (sv_players s)\<rparr>)"
    using handled_players[OF assms, of ?pl "sv_world s" p now] pl assms(1) by (simp add: player_inv_def server_inv_def)
  have move: "handled p peer now s ([], snd (stream_around p peer ?center now (s\<lparr>sv_players := hm_insert peer ?pl (sv_players s)\<rparr>)))"
    by (rule handled_stream_around[OF assms r center_ok])
  show ?thesis
    using handled_events[OF stay, of "[SPlayerMoved peer (ai_x input) (ai_y input) (ai_z input)]"] handled_events[OF move]
    by (auto simp: on_player_moved_def Some Let_def split_beta)
qed

lemma handled_handshake:
  assumes "server_inv s"
  shows "handled p peer now s (on_handshake p peer now s)"
proof -
  define st where "st = (case for_version_mismatch (case hm_get (sv_protocols s) peer of Some v \<Rightarrow> v | None \<Rightarrow> target_protocol)
      target_protocol of Some st \<Rightarrow> st | None \<Rightarrow> LoginSuccess)"
  define s1 where "s1 = send_encrypted p peer [status_packet st] now s"
  have 1: "handled p peer now s ([], s1)" unfolding s1_def by (rule handled_send_encrypted[OF assms])
  have 2: "handled p peer now s ([], send_encrypted p peer [packs_info_empty] now s1)"
    by (rule handled_then[OF 1 handled_send_encrypted[OF handled_server_inv[OF 1]]])
  have "on_handshake p peer now s = ([SHandshakeAccepted peer, SPlayStatusSent peer st],
      if st = LoginSuccess then send_encrypted p peer [packs_info_empty] now s1 else s1)"
    by (simp add: on_handshake_def st_def s1_def Let_def)
  then show ?thesis using handled_events[OF 1] handled_events[OF 2] by auto
qed

lemma handled_packs_answer:
  assumes "server_inv s"
  shows "handled p peer now s (on_packs_answer p peer body now s)"
proof -
  define s1 where "s1 = send_encrypted p peer [start_game_packet
      (start_game_flat (sv_world_name s) minecraft_version server_version_text surface_height)] now s"
  have 1: "handled p peer now s ([], s1)" unfolding s1_def by (rule handled_send_encrypted[OF assms])
  have 2: "handled p peer now s ([], send_each p peer all_empty_registries now s1)"
    by (rule handled_then[OF 1 handled_send_each[OF handled_server_inv[OF 1]]])
  have 3: "handled p peer now s ([SPacksAnswered peer r], s)" for r by (rule handled_quiet[OF assms]) auto
  have 4: "handled p peer now s ([SPacksAnswered peer r], send_encrypted p peer ps now s)" for r ps
    by (rule handled_events[OF handled_send_encrypted[OF assms]]) auto
  have 5: "handled p peer now s ([], s)" by (rule handled_quiet[OF assms]) auto
  show ?thesis
    using handled_events[OF 1, of "[SPacksAnswered peer Completed, SReadyForWorld peer, SWorldSent peer]"]
      handled_events[OF 2, of "[SPacksAnswered peer Completed, SReadyForWorld peer, SWorldSent peer]"] 3 4 5
    by (auto simp: on_packs_answer_def s1_def[symmetric] Let_def split: sum.splits option.splits response.splits)
qed

lemma handled_radius_request:
  assumes "server_inv s" "peer \<in> dom (hm_get (sv_ciphers s))"
  shows "handled p peer now s (on_radius_request p peer body now s)"
proof (cases "decode_radius_request body")
  case (Inl e)
  then show ?thesis using handled_quiet[OF assms(1), where es = "[]"] by (simp add: on_radius_request_def)
next
  case (Inr request)
  define g where "g = grant request server_chunk_radius"
  define s1 where "s1 = send_encrypted p peer [granted_packet (of_int g)] now s"
  let ?event = "SChunkRadiusGranted peer (sint (rq_radius request)) g"
  have g: "1 \<le> g" "g \<le> 4" "g = max 1 (min (sint (rq_radius request)) 4)"
    by (simp_all add: g_def grant_def server_chunk_radius_def)
  have 1: "handled p peer now s ([], s1)" unfolding s1_def by (rule handled_send_encrypted[OF assms(1)])
  have peer: "peer \<in> dom (hm_get (sv_ciphers s1))"
    using assms send_encrypted_ciphers(3)[of s p peer] by (simp only: s1_def server_inv_def)
  have 2: "handled p peer now s ([], snd (stream_world p peer g now s1))"
    by (rule handled_then[OF 1 handled_stream_world[OF handled_server_inv[OF 1] peer g(1,2)]])
  have event: "StageRadius \<le> sv_stage s \<Longrightarrow> server_event_peer ?event = peer \<and> event_allowed p now s ?event"
    using g(3) by simp
  have spawned: "\<exists>n. fst (stream_world p peer g now s1) = SSpawned peer n"
    by (simp add: stream_world_def Let_def split_beta)
  have stage: "sv_stage s1 = sv_stage s" by (simp add: s1_def)
  show ?thesis
  proof (cases "sv_stage s < StageRadius")
    case True
    then show ?thesis using handled_quiet[OF assms(1), where es = "[]"] by (simp add: on_radius_request_def Inr)
  next
    case False
    then have st: "StageRadius \<le> sv_stage s" by simp
    have "on_radius_request p peer body now s = (if StageChunks \<le> sv_stage s
        then ([?event, fst (stream_world p peer g now s1)], snd (stream_world p peer g now s1)) else ([?event], s1))"
      using False by (simp add: on_radius_request_def Inr g_def[symmetric] s1_def[symmetric] Let_def split_beta stage)
    then show ?thesis
      using handled_events[OF 1, of "[?event]"] handled_events[OF 2, of "[?event, fst (stream_world p peer g now s1)]"]
        event[OF st] spawned by auto
  qed
qed

lemma handled_plain_packet:
  assumes "server_inv s" "peer \<in> dom (hm_get (sv_ciphers s))"
  shows "handled p peer now s (on_plain_packet p peer now packet s)"
  using handled_handshake[OF assms(1)] handled_packs_answer[OF assms(1)] handled_radius_request[OF assms]
    handled_player_moved[OF assms] handled_quiet[OF assms(1)]
  by (simp add: on_plain_packet_def split: sum.splits)

text \<open>
  A loop over packets keeps the contract when the handler of one packet does, in a state that lets the
  loop go on.
\<close>

lemma handled_for_packets:
  assumes "\<And>packet s. server_inv s \<Longrightarrow> Q s \<Longrightarrow> handled p peer now s (f packet s) \<and> Q (snd (f packet s))"
    "server_inv s" "Q s"
  shows "handled p peer now s (for_packets f packets s)"
  using assms(2,3)
proof (induction packets arbitrary: s)
  case Nil
  then show ?case by (simp add: handled_quiet)
next
  case (Cons packet packets)
  obtain es s1 where f: "f packet s = (es, s1)" by fastforce
  have h: "handled p peer now s (es, s1)" and q: "Q s1" using assms(1)[OF Cons.prems, of packet] f by simp_all
  obtain es' s2 where r: "for_packets f packets s1 = (es', s2)" by fastforce
  have "handled p peer now s1 (es', s2)" using Cons.IH[OF handled_server_inv[OF h] q] r by simp
  from handled_append[OF h this] show ?case by (simp add: f r)
qed

text \<open>No handler of the encrypted stream ends it.\<close>

lemma dom_ciphers_send: "server_inv s \<Longrightarrow> dom (hm_get (sv_ciphers (send_encrypted p peer ps now s))) = dom (hm_get (sv_ciphers s))"
  by (rule send_encrypted_ciphers(3)) (simp add: server_inv_def)

lemma hm_ok_send: "hm_ok (sv_ciphers s) \<Longrightarrow> hm_ok (sv_ciphers (send_encrypted p peer ps now s))"
  by (rule send_encrypted_ciphers(1))

lemma ciphers_kept:
  assumes "hm_ok (sv_ciphers s)"
  shows "hm_ok (sv_ciphers (send_each p peer ps now s))
      \<and> dom (hm_get (sv_ciphers (send_each p peer ps now s))) = dom (hm_get (sv_ciphers s))"
    "hm_ok (sv_ciphers (snd (stream_columns p peer now wanted n s)))
      \<and> dom (hm_get (sv_ciphers (snd (stream_columns p peer now wanted n s)))) = dom (hm_get (sv_ciphers s))"
proof -
  show "hm_ok (sv_ciphers (send_each p peer ps now s))
      \<and> dom (hm_get (sv_ciphers (send_each p peer ps now s))) = dom (hm_get (sv_ciphers s))"
    using assms by (induction ps arbitrary: s) (simp_all add: send_encrypted_ciphers)
  show "hm_ok (sv_ciphers (snd (stream_columns p peer now wanted n s)))
      \<and> dom (hm_get (sv_ciphers (snd (stream_columns p peer now wanted n s)))) = dom (hm_get (sv_ciphers s))"
    using assms
    by (induction p peer now wanted n s rule: stream_columns.induct)
      (simp_all add: Let_def send_encrypted_ciphers split: option.splits prod.splits)
qed

lemma ciphers_kept_streaming:
  assumes "hm_ok (sv_ciphers s)"
  shows "dom (hm_get (sv_ciphers (snd (stream_around p peer c now s)))) = dom (hm_get (sv_ciphers s))
    \<and> hm_ok (sv_ciphers (snd (stream_around p peer c now s)))"
  using assms by (simp add: stream_around_def Let_def ciphers_kept send_encrypted_ciphers split: option.splits)

lemma ciphers_kept_plain:
  assumes "hm_ok (sv_ciphers s)"
  shows "dom (hm_get (sv_ciphers (snd (on_plain_packet p peer now packet s)))) = dom (hm_get (sv_ciphers s))"
  using assms
  by (simp add: on_plain_packet_def on_handshake_def on_packs_answer_def on_radius_request_def stream_world_def
      on_player_moved_def Let_def split_beta ciphers_kept ciphers_kept_streaming send_encrypted_ciphers
      split: sum.splits option.splits response.splits)

lemma handled_plaintext:
  assumes "server_inv s" "peer \<in> dom (hm_get (sv_ciphers s))"
  shows "handled p peer now s (on_plaintext p peer plaintext now s)"
proof -
  have "handled p peer now s (for_packets (on_plain_packet p peer now) packets s)" for packets
  proof (rule handled_for_packets[where Q = "\<lambda>s. peer \<in> dom (hm_get (sv_ciphers s))", OF _ assms])
    fix packet and s :: "'a server"
    assume "server_inv s" "peer \<in> dom (hm_get (sv_ciphers s))"
    then show "handled p peer now s (on_plain_packet p peer now packet s)
        \<and> peer \<in> dom (hm_get (sv_ciphers (snd (on_plain_packet p peer now packet s))))"
      using handled_plain_packet ciphers_kept_plain[of s p peer now packet] by (simp add: server_inv_def)
  qed
  then show ?thesis using handled_quiet[OF assms(1)] by (simp add: on_plaintext_def split: sum.splits)
qed

lemma handled_login:
  assumes "server_inv s"
  shows "handled p peer now s (on_login p peer body now s)"
proof (cases "decode_login body default_login_limits")
  case (Inl e)
  then show ?thesis using handled_quiet[OF assms] by (simp add: on_login_def)
next
  case (Inr login)
  show ?thesis
  proof (cases "verify_identity p (lg_identity login) now s")
    case refused: (Inl reason)
    show ?thesis
      using handled_events[OF handled_server_send[OF assms]] by (simp add: on_login_def Inr refused)
  next
    case claims: (Inr claims)
    let ?key = "server_key_generate p (sv_generated s)"
    let ?s = "server_send peer (encode_batch_with_method [server_to_client_handshake (handshake_token p ?key)]) now
      (s\<lparr>sv_generated := sv_generated s + 1\<rparr>)"
    define cs where "cs = (case (case cl_cpk claims of None \<Rightarrow> None | Some cpk \<Rightarrow> pr_base64_decode p cpk) of
        None \<Rightarrow> sv_ciphers s
      | Some client_key \<Rightarrow> (case server_key_agree p ?key client_key (sk_salt ?key) of
            Inl _ \<Rightarrow> sv_ciphers s
          | Inr session \<Rightarrow> hm_insert peer (new_cipher session) (sv_ciphers s)))"
    have cs: "cs = sv_ciphers s \<or> (\<exists>c. cs = hm_insert peer c (sv_ciphers s))"
      by (auto simp: cs_def split: option.splits sum.splits)
    have r: "on_login p peer body now s = ([SLoginAccepted peer (lg_client_protocol login) (cl_xname claims)],
        ?s\<lparr>sv_ciphers := cs, sv_keys := hm_insert peer ?key (sv_keys s),
           sv_protocols := hm_insert peer (lg_client_protocol login) (sv_protocols s)\<rparr>)"
      by (simp add: on_login_def Inr claims Let_def server_send_def cs_def split: option.split sum.split)
    have "event_allowed p now s (SLoginAccepted peer (lg_client_protocol login) (cl_xname claims))"
      using claims by auto
    moreover have k: "\<exists>key. hm_get (sv_keys s) q = Some key" if "hm_get (sv_ciphers s) q = Some c" for q c
      using that assms unfolding server_inv_def by blast
    ultimately show ?thesis
      using assms cs unfolding r
      by (auto simp: handled_def same_frame_def server_inv_def server_send_def let_in_def hm.invar_ins hm.get_ins
          simp del: event_allowed.simps dest: k)
  qed
qed

lemma handled_clear_packet:
  assumes "server_inv s"
  shows "handled p peer now s (on_clear_packet p peer now packet s)"
proof -
  have "handled p peer now s ([], (server_send peer b now s)\<lparr>sv_settled := insert peer (sv_settled s)\<rparr>)" for b
    using assms by (simp add: handled_def same_frame_def server_inv_def server_send_def)
  from handled_events[OF this] show ?thesis
    using handled_login[OF assms] handled_quiet[OF assms]
    by (simp add: on_clear_packet_def server_send_def Let_def)
qed

lemma handled_payload:
  assumes "server_inv s"
  shows "handled p peer now s (on_payload p peer payload now s)"
proof (cases "hm_get (sv_ciphers s) peer")
  case None
  have "handled p peer now s (for_packets (on_clear_packet p peer now) packets s)" for packets
    using handled_for_packets[where Q = "\<lambda>_. True"] handled_clear_packet assms by blast
  then show ?thesis
    using None handled_quiet[OF assms] by (auto simp: on_payload_def split: sum.splits)
next
  case (Some cipher)
  have upd: "handled p peer now s ([], s\<lparr>sv_ciphers := hm_insert peer c (sv_ciphers s)\<rparr>)" for c
    using assms Some by (auto simp: handled_def same_frame_def server_inv_def hm.invar_ins hm.get_ins)
  have inv: "server_inv (s\<lparr>sv_ciphers := hm_insert peer c (sv_ciphers s)\<rparr>)" for c
    by (rule handled_server_inv[OF upd])
  have "peer \<in> dom (hm_get (sv_ciphers (s\<lparr>sv_ciphers := hm_insert peer c (sv_ciphers s)\<rparr>)))" for c
    using assms by (simp add: server_inv_def hm.get_ins)
  note plain = handled_plaintext[OF inv this]
  have "handled p peer now s (on_plaintext p peer plaintext now (s\<lparr>sv_ciphers := hm_insert peer c (sv_ciphers s)\<rparr>))"
    for plaintext c
    using handled_then[OF upd] plain by (metis surj_pair)
  then show ?thesis
    using handled_events[OF upd] handled_quiet[OF assms]
    by (auto simp: on_payload_def Some Let_def split_beta split: list.splits sum.splits)
qed

lemma handled_forget:
  assumes "server_inv s"
  shows "handled p peer now s ([SDisconnected peer reason], forget_peer peer s)"
  using assms
  by (auto simp: handled_def same_frame_def server_inv_def forget_peer_def hm.invar_del hm.get_del split: if_splits)

lemma handled_transport_events:
  assumes "server_inv s" "list_all (\<lambda>e. event_peer e = peer) es"
  shows "handled p peer now s (on_transport_events p now es s)"
  using assms
proof (induction es arbitrary: s)
  case Nil
  then show ?case by (simp add: handled_quiet)
next
  case (Cons e es)
  have "handled p peer now s (on_transport_event p now e s)"
    using Cons.prems handled_quiet[OF Cons.prems(1)] handled_payload[OF Cons.prems(1)] handled_forget[OF Cons.prems(1)]
    by (cases e) simp_all
  moreover obtain xs s1 where x: "on_transport_event p now e s = (xs, s1)" by fastforce
  ultimately have h: "handled p peer now s (xs, s1)" by simp
  obtain ys s2 where y: "on_transport_events p now es s1 = (ys, s2)" by fastforce
  have "handled p peer now s1 (ys, s2)" using Cons.IH[OF handled_server_inv[OF h]] Cons.prems(2) y by simp
  from handled_append[OF h this] show ?case by (simp add: x y)
qed

section \<open>A datagram\<close>

lemma receive_event_peers:
  "listener_receive from b now l = Some (evs, l') \<Longrightarrow> list_all (\<lambda>e. event_peer e = from) evs"
  by (auto simp: listener_receive_def Let_def list_all_iff split: option.splits prod.splits if_splits sum.splits)

lemma handled_receive:
  assumes "server_inv s" "server_receive p from b now s = Some r"
  shows "handled p from now s r"
proof -
  obtain evs l where l: "listener_receive from b now (sv_listener s) = Some (evs, l)"
    and r: "r = on_transport_events p now evs (s\<lparr>sv_listener := l\<rparr>)"
    using assms(2) by (auto simp: server_receive_def)
  have "handled p from now s ([], s\<lparr>sv_listener := l\<rparr>)"
    using assms(1) by (simp add: handled_def same_frame_def server_inv_def)
  moreover have "server_inv (s\<lparr>sv_listener := l\<rparr>)" using assms(1) by (simp add: server_inv_def)
  ultimately show ?thesis
    unfolding r using handled_then handled_transport_events receive_event_peers[OF l] by (metis surj_pair)
qed

lemma server_inv_updates [simp]:
  "server_inv (s\<lparr>sv_listener := l\<rparr>) = server_inv s"
  "server_inv (s\<lparr>sv_clock := c\<rparr>) = server_inv s"
  "server_inv (s\<lparr>sv_identity_keys := k\<rparr>) = server_inv s"
  "server_inv (s\<lparr>sv_stage := st\<rparr>) = server_inv s"
  by (simp_all add: server_inv_def)

lemma server_tick_listener: "server_tick order now s = Some (es, s') \<Longrightarrow> \<exists>l. s' = s\<lparr>sv_listener := l\<rparr>"
  by (auto simp: server_tick_def)

section \<open>The states of a server\<close>

text \<open>Everything a caller can do with a server.\<close>

inductive server_reachable :: "'k primitives \<Rightarrow> 'k server \<Rightarrow> bool" for p where
  started: "server_with_config local guid ad config = Some s \<Longrightarrow> server_reachable p s"
| received: "server_reachable p s \<Longrightarrow> server_receive p from b now s = Some (es, s') \<Longrightarrow> server_reachable p s'"
| ticked: "server_reachable p s \<Longrightarrow> server_tick order now s = Some (es, s') \<Longrightarrow> server_reachable p s'"
| transmitted: "server_reachable p s \<Longrightarrow> server_poll_transmit s = (d, s') \<Longrightarrow> server_reachable p s'"
| clock_set: "server_reachable p s \<Longrightarrow> server_reachable p (set_clock unix_now now s)"
| keys_set: "server_reachable p s \<Longrightarrow> server_reachable p (set_identity_keys keys unix_now now s)"
| stage_set: "server_reachable p s \<Longrightarrow> server_reachable p (set_stage stage s)"

inductive_cases startedE: "server_reachable p s"

lemma server_inv_started:
  assumes "server_with_config local guid ad config = Some s"
  shows "server_inv s \<and> column_view (sv_world s) = column_view (world_flat surface_height)"
  using assms by (auto simp: server_with_config_def server_inv_def hm.invar_emp hm.get_emp world_inv_flat)

lemma reachable_inv:
  "server_reachable p s \<Longrightarrow> server_inv s \<and> column_view (sv_world s) = column_view (world_flat surface_height)"
proof (induction rule: server_reachable.induct)
  case (started local guid ad config s)
  then show ?case by (rule server_inv_started)
next
  case (received s "from" b now es s')
  then have "handled p from now s (es, s')" using handled_receive by blast
  then show ?case using received.IH by (simp add: handled_def same_frame_def)
next
  case (ticked s order now es s')
  then show ?case using server_tick_listener[OF ticked(2)] by auto
qed (auto simp: server_poll_transmit_def set_clock_def set_identity_keys_def set_stage_def split: prod.splits)

text \<open>A server that was just started, and a datagram it has nothing to answer to.\<close>

definition first_server :: "nat server" where
  "first_server = the (new_server unassigned 7 [77])"

lemma first_server_started: "server_with_config unassigned 7 [77] default_listener_config = Some first_server"
  by (simp add: first_server_def new_server_def server_with_config_def new_listener_def string_truncate_def
      default_listener_config_def)

lemma first_server_inv: "server_inv first_server"
  using server_inv_started[OF first_server_started] by simp

end
