(* ===== verification/Walking.thy ===== *)
theory Walking
  imports Play
begin

text \<open>
  A player who walks: which columns a move streams, that no coordinate on the way leaves \<^verbatim>\<open>i32\<close>,
  and that the client, decrypting and decoding what the transport was handed, finds the publisher
  update and the columns, with every block in place.
\<close>

section \<open>The client's end of the stream\<close>

text \<open>The payloads \<open>send_each\<close> hands to the transport, one packet to a batch.\<close>

fun sealed :: "'k primitives \<Rightarrow> packet list \<Rightarrow> cipher \<Rightarrow> bytes list \<times> cipher" where
  "sealed p [] c = ([], c)"
| "sealed p (x # xs) c =
     (case cipher_encrypt p (tl (encode_batch_with_method [x])) c of
        (ct, c) \<Rightarrow> case sealed p xs c of (rest, c) \<Rightarrow> ((batch_marker # ct) # rest, c))"

fun hand_over :: "socket_addr \<Rightarrow> bytes list \<Rightarrow> instant \<Rightarrow> listener \<Rightarrow> listener" where
  "hand_over peer [] now l = l"
| "hand_over peer (b # bs) now l = hand_over peer bs now (snd (listener_send peer b now l))"

text \<open>A client reads a payload: marker, decryption, batch.\<close>

definition client_read :: "'k primitives \<Rightarrow> bytes \<Rightarrow> cipher \<Rightarrow> packet list option \<times> cipher" where
  "client_read p payload c =
     (case payload of
        [] \<Rightarrow> (None, c)
      | marker # ct \<Rightarrow>
          if marker \<noteq> batch_marker then (None, c)
          else (case cipher_decrypt p ct c of
                  (Inl _, c) \<Rightarrow> (None, c)
                | (Inr plain, c) \<Rightarrow>
                    (case decode_batch_with_method (batch_marker # plain) of
                       Inr (MethodNone, packets) \<Rightarrow> (Some packets, c)
                     | _ \<Rightarrow> (None, c))))"

fun client_reads :: "'k primitives \<Rightarrow> bytes list \<Rightarrow> cipher \<Rightarrow> packet list option list \<times> cipher" where
  "client_reads p [] c = ([], c)"
| "client_reads p (b # bs) c =
     (case client_read p b c of (r, c) \<Rightarrow> case client_reads p bs c of (rs, c) \<Rightarrow> (r # rs, c))"

lemma send_each_sealed:
  assumes "hm_ok (sv_ciphers s)" "hm_get (sv_ciphers s) peer = Some c"
  shows "sv_listener (send_each p peer ps now s) = hand_over peer (fst (sealed p ps c)) now (sv_listener s)
    \<and> hm_get (sv_ciphers (send_each p peer ps now s)) peer = Some (snd (sealed p ps c))"
  using assms
proof (induction ps arbitrary: s c)
  case (Cons x xs)
  obtain ct c' where e: "cipher_encrypt p (tl (encode_batch_with_method [x])) c = (ct, c')" by fastforce
  let ?s = "send_encrypted p peer [x] now s"
  have s: "?s = s\<lparr>sv_ciphers := hm_insert peer c' (sv_ciphers s),
      sv_listener := snd (listener_send peer (batch_marker # ct) now (sv_listener s))\<rparr>"
    using Cons.prems(2) e by (simp add: send_encrypted_parts)
  have "hm_ok (sv_ciphers ?s)" "hm_get (sv_ciphers ?s) peer = Some c'"
    using Cons.prems(1) s by (simp_all add: hm.invar_ins hm.get_ins)
  from Cons.IH[OF this] show ?case by (simp add: e s split_beta)
qed simp

lemma length_one_batch:
  assumes "packet_ok x"
  shows "length (encode_batch_with_method [x]) \<le> usize_max"
proof -
  let ?inner = "gw_varint (packet_header x) [] @ pk_body x"
  have "length ?inner \<le> 2 ^ 32" using assms length_gw_varint(2)[of "packet_header x"] by (simp add: packet_ok_def)
  moreover have "length (packet_bytes x) \<le> 5 + length ?inner"
    using length_gw_varint(2)[of "u32_or_max (length ?inner)"] by (simp add: packet_bytes_def gw_prefixed_def gw_bytes_def)
  ultimately show ?thesis by (simp add: encode_batch_bytes usize_max_def)
qed

lemma client_read_sealed:
  assumes "digest_ok p" "in_step c client" "packet_ok x"
    "cipher_encrypt p (tl (encode_batch_with_method [x])) c = (ct, c')"
  shows "fst (client_read p (batch_marker # ct) client) = Some [x]"
    "in_step c' (snd (client_read p (batch_marker # ct) client))"
proof -
  have whole: "batch_marker # tl (encode_batch_with_method [x]) = encode_batch_with_method [x]"
    by (simp add: encode_batch_bytes)
  have batch: "decode_batch_with_method (batch_marker # tl (encode_batch_with_method [x])) = Inr (MethodNone, [x])"
    unfolding whole using batch_reads_back[of "[x]"] length_one_batch[OF assms(3)] assms(3) by simp
  obtain client' where "cipher_decrypt p ct client = (Inr (tl (encode_batch_with_method [x])), client')" "in_step c' client'"
    using in_step_encrypt(1,2)[OF assms(1,2), of "tl (encode_batch_with_method [x])"] assms(4)
    by (cases "cipher_decrypt p ct client") auto
  then show "fst (client_read p (batch_marker # ct) client) = Some [x]"
    "in_step c' (snd (client_read p (batch_marker # ct) client))"
    by (simp_all add: client_read_def batch)
qed

lemma client_reads_sealed:
  assumes "digest_ok p" "in_step c client" "list_all packet_ok ps"
  shows "fst (client_reads p (fst (sealed p ps c)) client) = map (\<lambda>x. Some [x]) ps
    \<and> in_step (snd (sealed p ps c)) (snd (client_reads p (fst (sealed p ps c)) client))"
  using assms(2,3)
proof (induction ps arbitrary: c client)
  case (Cons x xs)
  obtain ct c' where e: "cipher_encrypt p (tl (encode_batch_with_method [x])) c = (ct, c')" by fastforce
  note r = client_read_sealed[OF assms(1) Cons.prems(1) _ e]
  show ?case using Cons.IH[OF r(2)] r(1) Cons.prems(2) by (simp add: e split_beta)
qed simp

section \<open>A move\<close>

definition moved_to :: "auth_input \<Rightarrow> int \<times> int" where
  "moved_to input = (f32_to_int (f32_floor (ai_x input)) div chunk_width, f32_to_int (f32_floor (ai_z input)) div chunk_width)"

definition with_position :: "auth_input \<Rightarrow> player \<Rightarrow> player" where
  "with_position input pl = pl\<lparr>pl_position := (ai_x input, ai_y input, ai_z input)\<rparr>"

definition after_move :: "auth_input \<Rightarrow> player \<Rightarrow> player" where
  "after_move input pl = (with_position input pl)\<lparr>pl_center := moved_to input,
     pl_sent := pl_sent pl \<inter> near (moved_to input) (pl_radius pl + forget_margin) \<union> near (moved_to input) (pl_radius pl)\<rparr>"

lemma new_columns_spec: "distinct (new_columns pl c) \<and> set (new_columns pl c) = near c (pl_radius pl) - pl_sent pl"
  using distinct_columns_around by (auto simp: new_columns_def set_columns_around)

lemma on_player_moved_spec:
  assumes "server_inv s" "hm_get (sv_players s) peer = Some pl"
  shows "on_player_moved p peer input now s =
    (if moved_to input = pl_center pl
     then ([SPlayerMoved peer (ai_x input) (ai_y input) (ai_z input)],
           s\<lparr>sv_players := hm_insert peer (with_position input pl) (sv_players s)\<rparr>)
     else ([SPlayerMoved peer (ai_x input) (ai_y input) (ai_z input),
            SChunksStreamed peer (fst (moved_to input)) (snd (moved_to input)) (length (new_columns pl (moved_to input)))],
           (send_each p peer (publisher_for (with_position input pl) (moved_to input)
               # map (column_for (sv_world s)) (new_columns pl (moved_to input))) now s)
             \<lparr>sv_players := hm_insert peer (after_move input pl) (sv_players s),
              sv_world := loaded_all (new_columns pl (moved_to input)) (sv_world s)\<rparr>))"
proof -
  let ?pl = "with_position input pl"
  let ?s = "s\<lparr>sv_players := hm_insert peer ?pl (sv_players s)\<rparr>"
  have ok: "hm_ok (sv_players s)" "world_inv (sv_world s)" using assms(1) by (simp_all add: server_inv_def)
  have get: "hm_get (sv_players ?s) peer = Some ?pl" "hm_ok (sv_players ?s)" "world_inv (sv_world ?s)"
    using ok by (simp_all add: hm.get_ins hm.invar_ins)
  have new: "new_columns ?pl c = new_columns pl c" for c by (simp add: new_columns_def with_position_def)
  have "on_player_moved p peer input now s = (if moved_to input \<noteq> pl_center pl
      then (case stream_around p peer (moved_to input) now ?s of (columns, s') \<Rightarrow>
              ([SPlayerMoved peer (ai_x input) (ai_y input) (ai_z input),
                SChunksStreamed peer (fst (moved_to input)) (snd (moved_to input)) columns], s'))
      else ([SPlayerMoved peer (ai_x input) (ai_y input) (ai_z input)], ?s))"
    using assms(2) by (simp only: on_player_moved_def option.case Let_def moved_to_def with_position_def)
  then show ?thesis
    unfolding stream_around_spec[OF get] new
    by (simp add: send_each_commutes send_encrypted_commutes hm_insert_twice after_move_def forget_margin_def with_position_def)
qed

section \<open>Entering the world\<close>

definition spawning :: "int \<Rightarrow> player" where
  "spawning radius = \<lparr>pl_radius = radius, pl_center = (0, 0), pl_sent = {}, pl_position = (0, f32_of_int surface_height, 0)\<rparr>"

definition entry_packets :: "world \<Rightarrow> stage \<Rightarrow> int \<Rightarrow> packet list" where
  "entry_packets w st radius = granted_packet (of_int radius) # publisher_for (spawning radius) (0, 0)
     # map (column_for w) (columns_around 0 0 radius) @ (if StageSpawn \<le> st then [status_packet PlayerSpawn] else [])"

lemma on_radius_request_spec:
  assumes "server_inv s" "decode_radius_request body = Inr request" "StageChunks \<le> sv_stage s"
  defines "g \<equiv> grant request server_chunk_radius"
  shows "on_radius_request p peer body now s =
    ([SChunkRadiusGranted peer (sint (rq_radius request)) g, SSpawned peer (length (columns_around 0 0 g))],
     (send_each p peer (entry_packets (sv_world s) (sv_stage s) g) now s)
       \<lparr>sv_players := hm_insert peer ((spawning g)\<lparr>pl_sent := near (0, 0) g\<rparr>) (sv_players s),
        sv_world := loaded_all (columns_around 0 0 g) (sv_world s)\<rparr>)"
proof -
  have g: "1 \<le> g" by (simp add: g_def grant_def)
  have "StageRadius < StageChunks" by (simp add: less_stage_def)
  then have stage: "\<not> sv_stage s < StageRadius" using assms(3) by (simp add: not_less less_imp_le order_trans[of _ StageChunks])
  let ?s0 = "send_encrypted p peer [granted_packet (of_int g)] now s"
  let ?s = "?s0\<lparr>sv_players := hm_insert peer (spawning g) (sv_players s)\<rparr>"
  have ok: "hm_ok (sv_players s)" "world_inv (sv_world s)" using assms(1) by (simp_all add: server_inv_def)
  have get: "hm_get (sv_players ?s) peer = Some (spawning g)" "hm_ok (sv_players ?s)" "world_inv (sv_world ?s)"
    using ok by (simp_all add: hm.get_ins hm.invar_ins)
  have new: "new_columns (spawning g) (0, 0) = columns_around 0 0 g" by (simp add: new_columns_def spawning_def)
  have "on_radius_request p peer body now s = (case stream_around p peer (0, 0) now ?s of (columns, s') \<Rightarrow>
      ([SChunkRadiusGranted peer (sint (rq_radius request)) g, SSpawned peer columns],
       if StageSpawn \<le> sv_stage s' then send_encrypted p peer [status_packet PlayerSpawn] now s' else s'))"
    using stage assms(2,3) g
    by (simp add: on_radius_request_def g_def[symmetric] Let_def stream_world_def spawning_def split_beta)
  also have "stream_around p peer (0, 0) now ?s = (length (columns_around 0 0 g),
      (send_each p peer (publisher_for (spawning g) (0, 0) # map (column_for (sv_world s)) (columns_around 0 0 g)) now ?s0)
        \<lparr>sv_players := hm_insert peer ((spawning g)\<lparr>pl_sent := near (0, 0) g\<rparr>) (sv_players s),
         sv_world := loaded_all (columns_around 0 0 g) (sv_world s)\<rparr>)"
    using stream_around_spec[OF get, of p "(0, 0)" now] unfolding new
    by (simp add: send_each_commutes send_encrypted_commutes hm_insert_twice spawning_def)
  finally have spec: "on_radius_request p peer body now s = (case (length (columns_around 0 0 g),
      (send_each p peer (publisher_for (spawning g) (0, 0) # map (column_for (sv_world s)) (columns_around 0 0 g)) now ?s0)
        \<lparr>sv_players := hm_insert peer ((spawning g)\<lparr>pl_sent := near (0, 0) g\<rparr>) (sv_players s),
         sv_world := loaded_all (columns_around 0 0 g) (sv_world s)\<rparr>) of (columns, s') \<Rightarrow>
      ([SChunkRadiusGranted peer (sint (rq_radius request)) g, SSpawned peer columns],
       if StageSpawn \<le> sv_stage s' then send_encrypted p peer [status_packet PlayerSpawn] now s' else s'))" .
  have st: "sv_stage (send_each p peer ps now t) = sv_stage t" for ps t
    by (induction ps arbitrary: t) simp_all
  show ?thesis
    unfolding spec entry_packets_def
    by (simp add: st send_each_append send_encrypted_commutes send_each_commutes)
qed

lemma radius_request_reads: "decode_radius_request (gw_zigzag32 r [] @ [m]) = Inr \<lparr>rq_radius = r, rq_max_radius = m\<rparr>"
proof -
  have "reads (rd_bind gr_zigzag32 (\<lambda>radius. rd_bind gr_u8 (\<lambda>mx. rd_return \<lparr>rq_radius = radius, rq_max_radius = mx\<rparr>)))
      (gw_zigzag32 r [] @ [m]) \<lparr>rq_radius = r, rq_max_radius = m\<rparr>"
    by (rule reads_bind[OF reads_zigzag32], rule reads_bind_nil[OF reads_gr_fixed(1)]) (rule reads_return)
  then show ?thesis
    unfolding decode_radius_request_def
    by (rule run_reader_reads) (use length_gw_zigzag32[of r] in \<open>simp add: usize_max_def\<close>)
qed

section \<open>A server with one player\<close>

definition guest :: socket_addr where "guest = SockV4 1 2 3 4 5"

definition playing :: "nat server" where
  "playing = first_server\<lparr>sv_keys := [(guest, server_key_generate toy_primitives 0)], sv_protocols := [(guest, 1001)],
     sv_ciphers := [(guest, new_cipher (replicate 32 9))],
     sv_players := [(guest, (spawning 1)\<lparr>pl_sent := near (0, 0) 1\<rparr>)]\<rparr>"

text \<open>The player walks to \<open>x = 21\<close>, \<open>z = 0\<close>.\<close>

definition step_east :: auth_input where
  "step_east = \<lparr>ai_pitch = 0, ai_yaw = 0, ai_x = 0x41a80000, ai_y = 0x42a33d71, ai_z = 0\<rparr>"

lemma moved_east: "moved_to step_east = (1, 0)"
  by (simp add: moved_to_def step_east_def chunk_width_def f32_eval)

lemma east_fields: "ai_x step_east = 0x41a80000" "ai_y step_east = 0x42a33d71" "ai_z step_east = 0"
  by (simp_all add: step_east_def)

lemma playing_tables:
  "hm_get (sv_players playing) guest = Some ((spawning 1)\<lparr>pl_sent := near (0, 0) 1\<rparr>)"
  "hm_get (sv_ciphers playing) guest = Some (new_cipher (replicate 32 9))"
  by (simp_all add: playing_def hm_get_def)

lemma playing_inv: "server_inv playing"
  using first_server_inv near_mono[of 1 3 "(0, 0)"]
  by (auto simp: server_inv_def playing_def hm_ok_def hm_get_def spawning_def player_inv_def column_ok_def split: if_splits)

section \<open>Properties\<close>

lemma column_for_ok: "world_inv w \<Longrightarrow> packet_ok (column_for w c) \<and> shows_column (column_view w c) biome_plains (column_for w c)"
  using column_view_inv[of w c] column_packet_ok column_shown by (simp add: column_for_def)

lemma publisher_for_ok: "packet_ok (publisher_for pl c)"
  unfolding publisher_for_def by (rule publisher_packet_ok)

text \<open>C13: A player who moves inside a column is sent nothing; one who enters another column is sent that
  column's view: the publisher update, then exactly the columns in view that are not remembered as
  sent, each once; what is remembered is what is in view and what was sent within the margin; and no
  block of the world changes.\<close>

theorem walking_streams_what_is_new:
  assumes "server_inv s" "hm_get (sv_players s) peer = Some pl"
  shows "\<exists>new s'. distinct new \<and> set new = near (moved_to input) (pl_radius pl) - pl_sent pl
    \<and> on_player_moved p peer input now s =
       (if moved_to input = pl_center pl
        then ([SPlayerMoved peer (ai_x input) (ai_y input) (ai_z input)],
              s\<lparr>sv_players := hm_insert peer (with_position input pl) (sv_players s)\<rparr>)
        else ([SPlayerMoved peer (ai_x input) (ai_y input) (ai_z input),
               SChunksStreamed peer (fst (moved_to input)) (snd (moved_to input)) (length new)], s'))
    \<and> hm_get (sv_players s') peer = Some (after_move input pl)
    \<and> column_view (sv_world s') = column_view (sv_world s)
    \<and> (\<exists>w. s' = (send_each p peer (publisher_for (with_position input pl) (moved_to input)
          # map (\<lambda>c. column_packet (column_view (sv_world s) c) biome_plains) new) now s)
            \<lparr>sv_players := hm_insert peer (after_move input pl) (sv_players s), sv_world := w\<rparr>)"
proof -
  let ?new = "new_columns pl (moved_to input)"
  let ?s' = "(send_each p peer (publisher_for (with_position input pl) (moved_to input) # map (column_for (sv_world s)) ?new) now s)
      \<lparr>sv_players := hm_insert peer (after_move input pl) (sv_players s), sv_world := loaded_all ?new (sv_world s)\<rparr>"
  have ok: "hm_ok (sv_players s)" "world_inv (sv_world s)" using assms(1) by (simp_all add: server_inv_def)
  have A: "hm_get (sv_players ?s') peer = Some (after_move input pl)"
    and B: "column_view (sv_world ?s') = column_view (sv_world s)"
    using ok loaded_all_spec[OF ok(2)] by (simp_all add: hm.get_ins)
  have C: "map (\<lambda>c. column_packet (column_view (sv_world s) c) biome_plains) ?new = map (column_for (sv_world s)) ?new"
    by (simp add: column_for_def)
  show ?thesis
  proof (rule exI[of _ ?new], rule exI[of _ ?s'], intro conjI)
    show "distinct ?new" "set ?new = near (moved_to input) (pl_radius pl) - pl_sent pl"
      using new_columns_spec[of pl "moved_to input"] by simp_all
  qed (use A B on_player_moved_spec[OF assms, of p input now] in \<open>simp_all only: C\<close>, blast)
qed

lemma walking_streams_what_is_new_witness:
  "\<exists>new. distinct new \<and> set new = near (1, 0) 1 - near (0, 0) 1
    \<and> fst (on_player_moved toy_primitives guest step_east 0 playing)
       = [SPlayerMoved guest 0x41a80000 0x42a33d71 0, SChunksStreamed guest 1 0 (length new)]"
  using walking_streams_what_is_new[OF playing_inv playing_tables(1), of step_east toy_primitives 0]
  by (auto simp: moved_east spawning_def east_fields)

text \<open>C1: End to end: when a player enters another column, the transport is handed payloads that the
  client, in step with the stream, decrypts and decodes, one packet to a payload: the publisher update
  and then the columns that are new, each of them showing every block of its column; and client and
  server are in step again afterwards.\<close>

theorem a_move_reaches_the_client:
  assumes "server_inv s" "hm_get (sv_players s) peer = Some pl" "moved_to input \<noteq> pl_center pl"
    "hm_get (sv_ciphers s) peer = Some c" "in_step c client" "digest_ok p"
  shows "\<exists>payloads packets c'.
      sv_listener (snd (on_player_moved p peer input now s)) = hand_over peer payloads now (sv_listener s)
    \<and> fst (client_reads p payloads client) = map (\<lambda>x. Some [x])
         (publisher_for (with_position input pl) (moved_to input) # packets)
    \<and> list_all2 (\<lambda>col packet. shows_column (column_view (sv_world s) col) biome_plains packet)
         (new_columns pl (moved_to input)) packets
    \<and> hm_get (sv_ciphers (snd (on_player_moved p peer input now s))) peer = Some c'
    \<and> in_step c' (snd (client_reads p payloads client))"
proof -
  let ?new = "new_columns pl (moved_to input)"
  let ?packets = "map (column_for (sv_world s)) ?new"
  let ?all = "publisher_for (with_position input pl) (moved_to input) # ?packets"
  have ok: "hm_ok (sv_ciphers s)" "world_inv (sv_world s)" using assms(1) by (simp_all add: server_inv_def)
  have good: "list_all packet_ok ?all"
    using publisher_for_ok column_for_ok[OF ok(2)] by (simp add: list_all_iff)
  note sent = send_each_sealed[OF ok(1) assms(4), of p ?all now]
  note read = client_reads_sealed[OF assms(6,5) good]
  have "list_all2 (\<lambda>col packet. shows_column (column_view (sv_world s) col) biome_plains packet) ?new ?packets"
    using column_for_ok[OF ok(2)] by (simp add: list_all2_conv_all_nth)
  moreover have "sv_listener (snd (on_player_moved p peer input now s)) = sv_listener (send_each p peer ?all now s)"
    "sv_ciphers (snd (on_player_moved p peer input now s)) = sv_ciphers (send_each p peer ?all now s)"
    using assms(3) by (simp_all add: on_player_moved_spec[OF assms(1,2)])
  ultimately show ?thesis
    using sent read by (intro exI[of _ "fst (sealed p ?all c)"] exI[of _ ?packets] exI[of _ "snd (sealed p ?all c)"]) simp
qed

lemma a_move_reaches_the_client_witness:
  "\<exists>payloads packets. fst (client_reads toy_primitives payloads (new_cipher (replicate 32 9))) = map (\<lambda>x. Some [x]) packets
    \<and> sv_listener (snd (on_player_moved toy_primitives guest step_east 0 playing))
       = hand_over guest payloads 0 (sv_listener playing)
    \<and> length packets = 4"
proof -
  have "moved_to step_east \<noteq> pl_center ((spawning 1)\<lparr>pl_sent := near (0, 0) 1\<rparr>)"
    by (simp add: moved_east spawning_def)
  from a_move_reaches_the_client[OF playing_inv playing_tables(1) this playing_tables(2) in_step_new toy_primitives_ok(1), of 0]
  obtain payloads packets where
    r: "fst (client_reads toy_primitives payloads (new_cipher (replicate 32 9))) = map (\<lambda>x. Some [x])
        (publisher_for (with_position step_east ((spawning 1)\<lparr>pl_sent := near (0, 0) 1\<rparr>)) (moved_to step_east) # packets)"
      "sv_listener (snd (on_player_moved toy_primitives guest step_east 0 playing))
        = hand_over guest payloads 0 (sv_listener playing)"
      "length packets = length (new_columns ((spawning 1)\<lparr>pl_sent := near (0, 0) 1\<rparr>) (1, 0))"
    using moved_east by (metis list_all2_lengthD)
  moreover have "new_columns ((spawning 1)\<lparr>pl_sent := near (0, 0) 1\<rparr>) (1, 0) = [(2, -1), (2, 0), (2, 1)]"
    by (simp add: new_columns_def spawning_def columns_around_def near_def upto.simps)
  ultimately have "length packets = 3" by simp
  then show ?thesis
    using r(1,2) by (intro exI[of _ payloads] exI conjI) (assumption | simp)+
qed

text \<open>C2: A client that asks for a view distance is sent, in this order and decodable as in step: what it
  was granted, the publisher update, every column around the origin exactly once, each showing its
  blocks, and only then, when the stage goes that far, the word that it may spawn.\<close>

theorem spawning_comes_last:
  assumes "server_inv s" "decode_radius_request body = Inr request" "StageChunks \<le> sv_stage s"
    "hm_get (sv_ciphers s) peer = Some c" "in_step c client" "digest_ok p"
  shows "\<exists>payloads packets cols.
      sv_listener (snd (on_radius_request p peer body now s)) = hand_over peer payloads now (sv_listener s)
    \<and> distinct cols \<and> set cols = near (0, 0) (grant request server_chunk_radius)
    \<and> list_all2 (\<lambda>col packet. shows_column (column_view (sv_world s) col) biome_plains packet) cols packets
    \<and> fst (client_reads p payloads client) = map (\<lambda>x. Some [x])
        (granted_packet (of_int (grant request server_chunk_radius))
          # publisher_for (spawning (grant request server_chunk_radius)) (0, 0)
          # packets @ (if StageSpawn \<le> sv_stage s then [status_packet PlayerSpawn] else []))
    \<and> SSpawned peer (length cols) \<in> set (fst (on_radius_request p peer body now s))"
proof -
  let ?g = "grant request server_chunk_radius"
  let ?cols = "columns_around 0 0 ?g"
  let ?packets = "map (column_for (sv_world s)) ?cols"
  let ?all = "entry_packets (sv_world s) (sv_stage s) ?g"
  have ok: "hm_ok (sv_ciphers s)" "world_inv (sv_world s)" using assms(1) by (simp_all add: server_inv_def)
  have "length (gw_zigzag32 (of_int ?g) []) \<le> 5" by (rule length_gw_zigzag32)
  then have "packet_ok (granted_packet (of_int ?g))" "packet_ok (status_packet PlayerSpawn)"
    by (simp_all add: packet_ok_def granted_packet_def status_packet_def new_packet_def id_chunk_radius_updated_def
        id_play_status_def gw_new_def encode_status_def gw_u32_be_def)
  then have good: "list_all packet_ok ?all"
    using publisher_for_ok column_for_ok[OF ok(2)] by (auto simp: entry_packets_def list_all_iff)
  note sent = send_each_sealed[OF ok(1) assms(4), of p ?all now]
  note read = client_reads_sealed[OF assms(6,5) good]
  have "list_all2 (\<lambda>col packet. shows_column (column_view (sv_world s) col) biome_plains packet) ?cols ?packets"
    using column_for_ok[OF ok(2)] by (simp add: list_all2_conv_all_nth)
  then show ?thesis
    using sent read distinct_columns_around[of 0 0 ?g] set_columns_around[of 0 0 ?g]
    by (intro exI[of _ "fst (sealed p ?all c)"] exI[of _ ?packets] exI[of _ ?cols])
      (simp add: on_radius_request_spec[OF assms(1-3)] entry_packets_def)
qed

lemma spawning_comes_last_witness:
  "\<exists>payloads packets cols. distinct cols \<and> set cols = near (0, 0) 2
    \<and> fst (client_reads toy_primitives payloads (new_cipher (replicate 32 9))) = map (\<lambda>x. Some [x])
        (granted_packet 2 # publisher_for (spawning 2) (0, 0) # packets @ [status_packet PlayerSpawn])"
proof -
  have stage: "StageChunks \<le> sv_stage playing" "StageSpawn \<le> sv_stage playing"
    by (simp_all add: playing_def first_server_def new_server_def server_with_config_def new_listener_def string_truncate_def
        default_listener_config_def less_eq_stage_def)
  have "grant \<lparr>rq_radius = 2, rq_max_radius = 8\<rparr> server_chunk_radius = 2"
    by (simp add: grant_def server_chunk_radius_def)
  then show ?thesis
    using spawning_comes_last[OF playing_inv radius_request_reads stage(1) playing_tables(2) in_step_new toy_primitives_ok(1),
        of 2 8 0] stage(2)
    by (auto simp del: fst_conv)
qed

lemma sint_in_range: "i32_ok n \<Longrightarrow> sint (of_int n :: i32) = n"
  unfolding i32_ok_def by (simp add: sint_sbintrunc' signed_take_bit_int_eq_self_iff)

lemma uint_in_range: "0 \<le> n \<Longrightarrow> n < 2 ^ 32 \<Longrightarrow> uint (of_int n :: u32) = n"
  by (simp add: uint_word_of_int_eq take_bit_int_eq_self_iff)

lemma with_position_radius: "pl_radius (with_position input pl) = pl_radius pl"
  by (simp add: with_position_def)

text \<open>C35: Whatever position a client reports, finite or not, what streaming computes from it stays within
  \<^verbatim>\<open>i32\<close>.  The player's column afterwards is the one the position lies in; the distances to it of everything
  remembered before, which decide what is forgotten, and every column remembered afterwards, which includes all
  in view and none more than two beyond it, are in range; and when the column changed, the client reads the
  update's place and radius in blocks as they were meant, with nothing wrapped around.\<close>

theorem streaming_stays_in_i32:
  assumes "server_inv s" "hm_get (sv_players s) peer = Some pl"
  shows "\<exists>pl' cx cz. hm_get (sv_players (snd (on_player_moved p peer input now s))) peer = Some pl' \<and> pl_center pl' = (cx, cz)
    \<and> 16 * cx \<le> f32_to_int (f32_floor (ai_x input)) \<and> f32_to_int (f32_floor (ai_x input)) < 16 * cx + 16
    \<and> 16 * cz \<le> f32_to_int (f32_floor (ai_z input)) \<and> f32_to_int (f32_floor (ai_z input)) < 16 * cz + 16
    \<and> (\<forall>(x, z) \<in> pl_sent pl. i32_ok (x - cx) \<and> i32_ok \<bar>x - cx\<bar> \<and> i32_ok (z - cz) \<and> i32_ok \<bar>z - cz\<bar>)
    \<and> near (cx, cz) (pl_radius pl) \<subseteq> pl_sent pl'
    \<and> (\<forall>(x, z) \<in> pl_sent pl'. i32_ok x \<and> i32_ok z \<and> \<bar>x - cx\<bar> \<le> pl_radius pl + 2 \<and> \<bar>z - cz\<bar> \<le> pl_radius pl + 2)
    \<and> ((cx, cz) \<noteq> pl_center pl \<longrightarrow> (\<exists>update columns x y z radius.
         sv_listener (snd (on_player_moved p peer input now s)) = sv_listener (send_each p peer (update # columns) now s)
       \<and> run_reader client_publisher (pk_body update) = Inr (x, y, z, radius)
       \<and> sint x = 16 * cx \<and> sint z = 16 * cz \<and> uint radius = 16 * pl_radius pl))"
proof -
  obtain cx cz where c: "moved_to input = (cx, cz)" by fastforce
  let ?s' = "snd (on_player_moved p peer input now s)"
  define pl' where "pl' = (if moved_to input = pl_center pl then with_position input pl else after_move input pl)"
  have "hm_ok (sv_players s)" using assms(1) by (simp add: server_inv_def)
  then have get: "hm_get (sv_players ?s') peer = Some pl'"
    by (simp add: on_player_moved_spec[OF assms] pl'_def hm.get_ins)
  have at: "pl_center pl' = (cx, cz)" "pl_radius pl' = pl_radius pl"
    using c by (auto simp: pl'_def with_position_def after_move_def)
  have "peer \<in> dom (hm_get (sv_ciphers s))" using assms by (auto simp: server_inv_def)
  from handled_player_moved[OF assms(1) this, of p now input] have "server_inv ?s'"
    by (cases "on_player_moved p peer input now s") (simp add: handled_server_inv)
  with get have inv: "player_inv pl'" "player_inv pl" using assms by (auto simp: server_inv_def)
  have ok: "column_ok (cx, cz)" "1 \<le> pl_radius pl" "pl_radius pl \<le> 4" "near (cx, cz) (pl_radius pl) \<subseteq> pl_sent pl'"
    "pl_sent pl' \<subseteq> near (cx, cz) (pl_radius pl + 2)"
    using inv(1) at by (simp_all add: player_inv_def)
  have old: "column_ok (pl_center pl)" "pl_sent pl \<subseteq> near (pl_center pl) (pl_radius pl + 2)" using inv(2) by (simp_all add: player_inv_def)
  have far: "i32_ok (x - cx) \<and> i32_ok \<bar>x - cx\<bar> \<and> i32_ok (z - cz) \<and> i32_ok \<bar>z - cz\<bar>" if "(x, z) \<in> pl_sent pl" for x z
    using that ok(1,3) old by (auto simp: column_ok_def near_def i32_ok_def dest!: subsetD)
  have kept: "i32_ok x \<and> i32_ok z \<and> \<bar>x - cx\<bar> \<le> pl_radius pl + 2 \<and> \<bar>z - cz\<bar> \<le> pl_radius pl + 2" if "(x, z) \<in> pl_sent pl'" for x z
    using that ok(1,3,5) by (auto simp: column_ok_def near_def i32_ok_def dest!: subsetD)
  have update: "\<exists>update columns x y z radius. sv_listener ?s' = sv_listener (send_each p peer (update # columns) now s)
       \<and> run_reader client_publisher (pk_body update) = Inr (x, y, z, radius)
       \<and> sint x = 16 * cx \<and> sint z = 16 * cz \<and> uint radius = 16 * pl_radius pl" if "(cx, cz) \<noteq> pl_center pl"
  proof -
    let ?columns = "map (column_for (sv_world s)) (new_columns pl (cx, cz))"
    have "sv_listener ?s' = sv_listener (send_each p peer (publisher_for (with_position input pl) (cx, cz) # ?columns) now s)"
      using that c by (simp add: on_player_moved_spec[OF assms])
    moreover have "i32_ok (16 * cx)" "i32_ok (16 * cz)" using ok(1) by (simp_all add: column_ok_def i32_ok_def)
    moreover have "0 \<le> 16 * pl_radius pl" "16 * pl_radius pl < 2 ^ 32" using ok(2,3) by simp_all
    ultimately show ?thesis
      using publisher_reads_back sint_in_range uint_in_range
      by (metis publisher_for_def chunk_width_def fst_conv snd_conv mult.commute with_position_radius)
  qed
  have "16 * cx \<le> f32_to_int (f32_floor (ai_x input)) \<and> f32_to_int (f32_floor (ai_x input)) < 16 * cx + 16
    \<and> 16 * cz \<le> f32_to_int (f32_floor (ai_z input)) \<and> f32_to_int (f32_floor (ai_z input)) < 16 * cz + 16"
    using c by (auto simp: moved_to_def chunk_width_def)
  then show ?thesis
    using get at(1) ok(4) far kept update by (intro exI[of _ pl'] exI[of _ cx] exI[of _ cz] conjI) auto
qed

text \<open>A client that claims to stand at infinity: its column is the last one of the range.\<close>

definition step_out :: auth_input where
  "step_out = \<lparr>ai_pitch = 0, ai_yaw = 0, ai_x = f32_infinity False, ai_y = 0x42a33d71, ai_z = 0\<rparr>"

lemma streaming_stays_in_i32_witness:
  "\<exists>pl' cz. hm_get (sv_players (snd (on_player_moved toy_primitives guest step_out 0 playing))) guest = Some pl'
    \<and> pl_center pl' = (2 ^ 27 - 1, cz) \<and> near (2 ^ 27 - 1, cz) 1 \<subseteq> pl_sent pl'
    \<and> (\<forall>(x, z) \<in> pl_sent pl'. i32_ok x \<and> i32_ok z)"
proof -
  have out: "f32_to_int (f32_floor (ai_x step_out)) = 2 ^ 31 - 1"
    by (simp add: step_out_def f32_infinity_def f32_eval)
  obtain pl' cx cz where moved: "hm_get (sv_players (snd (on_player_moved toy_primitives guest step_out 0 playing))) guest = Some pl'"
    "pl_center pl' = (cx, cz)" "16 * cx \<le> 2 ^ 31 - 1" "2 ^ 31 - 1 < 16 * cx + 16" "near (cx, cz) 1 \<subseteq> pl_sent pl'"
    "\<forall>(x, z) \<in> pl_sent pl'. i32_ok x \<and> i32_ok z"
    using streaming_stays_in_i32[OF playing_inv playing_tables(1), of toy_primitives step_out 0]
    unfolding out by (auto simp: spawning_def split_def)
  then have "cx = 2 ^ 27 - 1" by simp
  then show ?thesis using moved(1,2,5,6) by blast
qed

section \<open>Two consequences worth knowing\<close>

text \<open>
  The publisher update of a player who enters names the height below the position reported at the
  feet: the position is set to the surface, without the offset a reported position has.
\<close>

lemma entry_is_published_below_the_feet:
  "publisher_for (spawning radius) (0, 0) = publisher_update 0 78 0 (of_int (radius * chunk_width))"
  "surface_height = 80"
  by (simp_all add: publisher_for_def spawning_def surface_height_def position_offset_def f32_eval)

text \<open>
  A tick that ends a session leaves the stream of its peer behind.  When the peer connects again from
  the same address, its first message is taken for a part of that stream, and refused.
\<close>

lemma tick_leaves_the_stream:
  assumes "server_tick order now s = Some (es, s')"
  shows "sv_ciphers s' = sv_ciphers s \<and> sv_players s' = sv_players s \<and> sv_keys s' = sv_keys s \<and> sv_settled s' = sv_settled s"
  using server_tick_listener[OF assms] by auto

lemma timed_out_player_cannot_return:
  assumes "hm_get (sv_ciphers s) peer = Some c"
  defines "hello \<equiv> encode_batch [new_packet id_request_network_settings
      (encode_request_network_settings \<lparr>rn_client_protocol = game_protocol_version\<rparr>)]"
  shows "fst (on_payload p peer hello now s) = [SDecryptionFailed peer]"
proof -
  let ?x = "new_packet id_request_network_settings (encode_request_network_settings \<lparr>rn_client_protocol = game_protocol_version\<rparr>)"
  have "length (put_varint (packet_header ?x) []) \<le> 2"
    using length_put_varint[of "packet_header ?x" 2]
    by (simp add: packet_header_def new_packet_def id_request_network_settings_def id_bits_def sender_shift_def target_shift_def
        subclient_bits_def)
  moreover have "length (pk_body ?x) = 4"
    by (simp add: new_packet_def encode_request_network_settings_def gw_u32_be_def gw_new_def)
  ultimately have inner: "length (gw_varint (packet_header ?x) [] @ pk_body ?x) \<le> 6" by (simp add: gw_varint_def)
  then have "length (put_varint (u32_or_max (length (gw_varint (packet_header ?x) [] @ pk_body ?x))) []) \<le> 1"
    using length_put_varint[of "u32_or_max (length (gw_varint (packet_header ?x) [] @ pk_body ?x))" 1]
    by (simp add: unat_u32_or_max)
  then have "length (packet_bytes ?x) \<le> 7"
    using inner by (simp add: packet_bytes_def gw_prefixed_def gw_bytes_def gw_varint_def)
  then have "length (packet_bytes ?x) < checksum_len" by (simp add: checksum_len_def)
  moreover have "hello = batch_marker # packet_bytes ?x" by (simp add: hello_def encode_batch_bytes)
  ultimately show ?thesis by (simp add: on_payload_def assms(1) cipher_decrypt_def)
qed

end
