(* ===== verification/Entering.thy ===== *)
theory Entering
  imports Walking
begin

text \<open>
  A player who joins: the four datagrams that take an unknown peer from the second open request to
  its place in the world, through the RakNet layer, the first batches, the login and the encrypted
  stream.  It shows that the sequence can be completed by anyone whose identity the issuer's keys
  vouch for, and supplies the states on which the safety properties of the server are evaluated.
\<close>

section \<open>A payload reaches the handlers\<close>

text \<open>The peer has a session, which the invariant of the listener keeps open.\<close>

definition talks_to :: "socket_addr \<Rightarrow> listener \<Rightarrow> bool" where
  "talks_to peer l \<longleftrightarrow> listener_inv l \<and> hm_get (li_sessions l) peer \<noteq> None"

text \<open>A payload in a datagram of its own, unreliable and numbered 0.\<close>

definition in_datagram :: "bytes \<Rightarrow> bytes" where
  "in_datagram payload = encode_datagram (FrameSet \<lparr>fs_sequence = 0, fs_frames = [new_frame Unreliable payload]\<rparr>) []"

definition carriable :: "bytes \<Rightarrow> bool" where
  "carriable payload \<longleftrightarrow> payload \<noteq> [] \<and> user_packet_start \<le> hd payload \<and> length payload \<le> max_frame_body"

lemma in_datagram_reads:
  assumes "carriable payload"
  shows "decode_datagram (in_datagram payload)
    = Inr (FrameSet \<lparr>fs_sequence = 0, fs_frames = [new_frame Unreliable payload]\<rparr>)"
proof -
  let ?f = "new_frame Unreliable payload"
  have "frame_ok ?f" using assms by (simp add: frame_ok_def new_frame_def carriable_def is_ordered_def)
  moreover have "encoded_len ?f \<le> 20 + length payload" by (simp add: encoded_len_def new_frame_def)
  then have "length (in_datagram payload) \<le> usize_max"
    using assms by (simp add: in_datagram_def length_encode_frame_set datagram_header_len_def carriable_def max_frame_body_def
        usize_max_def del: encode_datagram.simps)
  ultimately show ?thesis
    unfolding in_datagram_def by (intro decode_encode_datagram) (simp_all add: is_u24_def del: encode_datagram.simps)
qed

lemma session_receives_payload:
  assumes "carriable payload" "\<not> is_closed s"
  shows "session_receive (in_datagram payload) now s = Some (Inr [payload],
      s\<lparr>se_last_heard := now, se_pending_acks := se_pending_acks s @ [0]\<rparr>)"
proof -
  obtain x xs where p: "payload = x # xs" "user_packet_start \<le> x"
    using assms(1) by (cases payload) (auto simp: carriable_def)
  then have "x \<noteq> id_connection_request" "x \<noteq> id_new_incoming_connection" "x \<noteq> id_connected_ping"
    "x \<noteq> id_connected_pong" "x \<noteq> id_disconnect"
    by (auto simp: user_packet_start_def id_connection_request_def id_new_incoming_connection_def id_connected_ping_def
        id_connected_pong_def id_disconnect_def)
  then have "handle_internal payload now t = (Inr (Some payload), t)" for t
    using p by (simp add: handle_internal_def)
  moreover have "t\<lparr>se_reassembler := se_reassembler t\<rparr> = t" for t :: session by simp
  ultimately show ?thesis
    using assms(2) by (simp add: session_receive_def in_datagram_reads[OF assms(1)] receive_frame_def new_frame_def
        is_ordered_def reassembler_push_def)
qed

lemma payload_arrives:
  assumes "carriable payload" "talks_to peer l"
  shows "\<exists>l'. listener_receive peer (in_datagram payload) now l = Some ([EvPayload peer payload], l') \<and> talks_to peer l'"
proof -
  obtain s where s: "hm_get (li_sessions l) peer = Some s" using assms(2) by (auto simp: talks_to_def)
  have ok: "\<not> is_closed s" "hm_ok (li_sessions l)" "listener_inv l"
    using assms(2) s by (auto simp: talks_to_def listener_inv_def session_at_rest_def)
  let ?s = "s\<lparr>se_last_heard := now, se_pending_acks := se_pending_acks s @ [0]\<rparr>"
  have "closed_because ?s = None" using ok(1) by (simp add: closed_because_def is_closed_def split: state.splits)
  then have rec: "\<exists>l'. listener_receive peer (in_datagram payload) now l = Some ([EvPayload peer payload], l')
      \<and> hm_get (li_sessions l') peer \<noteq> None"
    using s ok(2) by (simp add: listener_receive_def session_receives_payload[OF assms(1) ok(1)] drain_outbox_all
        closed_because_def hm.get_ins)
  then show ?thesis using listener_inv_receive[OF ok(3)] by (auto simp: talks_to_def)
qed

lemma talks_to_send: "talks_to peer l \<Longrightarrow> talks_to peer (snd (listener_send q payload now l))"
  using listener_inv_send[of l q payload now]
  by (auto simp: talks_to_def listener_send_def listener_inv_def hm.get_ins split: option.splits prod.splits sum.splits)

lemma server_hears:
  assumes "carriable payload" "talks_to peer (sv_listener s)"
  shows "\<exists>l. server_receive p peer (in_datagram payload) now s = Some (on_payload p peer payload now (s\<lparr>sv_listener := l\<rparr>))
    \<and> talks_to peer l"
  using payload_arrives[OF assms, of now] by (auto simp: server_receive_def split_beta)

section \<open>What a client that joins sends\<close>

definition settings_request :: "u32 \<Rightarrow> packet" where
  "settings_request v = new_packet id_request_network_settings (encode_request_network_settings \<lparr>rn_client_protocol = v\<rparr>)"

definition login_packet :: "u32 \<Rightarrow> bytes \<Rightarrow> bytes \<Rightarrow> packet" where
  "login_packet v identity client_data = new_packet id_login (login_body v identity client_data)"

definition radius_packet :: "i32 \<Rightarrow> u8 \<Rightarrow> packet" where
  "radius_packet radius most = new_packet id_request_chunk_radius (gw_zigzag32 radius [] @ [most])"

lemma packet_fields [simp]:
  "pk_id (settings_request v) = id_request_network_settings"
  "pk_body (settings_request v) = encode_request_network_settings \<lparr>rn_client_protocol = v\<rparr>"
  "pk_id (login_packet v identity client_data) = id_login"
  "pk_body (login_packet v identity client_data) = login_body v identity client_data"
  "pk_id (radius_packet radius most) = id_request_chunk_radius"
  "pk_body (radius_packet radius most) = gw_zigzag32 radius [] @ [most]"
  by (simp_all add: settings_request_def login_packet_def radius_packet_def new_packet_def)

text \<open>A batch on the encrypted stream.\<close>

definition sealed_batch :: "'k primitives \<Rightarrow> packet list \<Rightarrow> cipher \<Rightarrow> bytes" where
  "sealed_batch p packets c = batch_marker # fst (cipher_encrypt p (tl (encode_batch_with_method packets)) c)"

lemma length_packet_bytes: "length (packet_bytes x) \<le> 10 + length (pk_body x)"
  using length_gw_varint(2)[of "packet_header x"]
    length_gw_varint(2)[of "u32_or_max (length (gw_varint (packet_header x) [] @ pk_body x))"]
  by (simp add: packet_bytes_def gw_prefixed_def gw_bytes_def)

lemma batch_carriable:
  assumes "length (pk_body x) \<le> 8100"
  shows "carriable (encode_batch [x])" "carriable (encode_batch_with_method [x])"
    "digest_ok p \<Longrightarrow> carriable (sealed_batch p [x] c)" "length (encode_batch_with_method [x]) \<le> usize_max"
proof -
  have "length (packet_bytes x) \<le> 8110" using length_packet_bytes[of x] assms by simp
  then have len: "length (encode_batch_with_method [x]) \<le> 8112" "length (encode_batch [x]) \<le> 8112"
    by (simp_all add: encode_batch_bytes)
  have "carriable (encode_batch [x]) \<and> carriable (encode_batch_with_method [x])"
    using len by (simp add: encode_batch_bytes carriable_def batch_marker_def user_packet_start_def max_frame_body_def)
  then show "carriable (encode_batch [x])" "carriable (encode_batch_with_method [x])" by simp_all
  show "carriable (sealed_batch p [x] c)" if "digest_ok p"
    using len(1) length_checksum[OF that]
    by (simp add: sealed_batch_def encrypt_parts length_apply_keystream carriable_def batch_marker_def user_packet_start_def max_frame_body_def)
  show "length (encode_batch_with_method [x]) \<le> usize_max" using len(1) by (simp add: usize_max_def)
qed

section \<open>The steps\<close>

lemma settings_step:
  assumes "talks_to peer (sv_listener s)" "hm_get (sv_ciphers s) peer = None" "peer \<notin> sv_settled s"
  shows "\<exists>l. server_receive p peer (in_datagram (encode_batch [settings_request v])) now s
      = Some ([SNetworkSettingsRequested peer v], s\<lparr>sv_listener := l, sv_settled := insert peer (sv_settled s)\<rparr>)
    \<and> talks_to peer l"
proof -
  let ?x = "settings_request v"
  have x: "packet_ok ?x" "length (pk_body ?x) \<le> 8100"
    by (simp_all add: packet_ok_def settings_request_def new_packet_def id_request_network_settings_def
        encode_request_network_settings_def game_writer_defs)
  have dec: "decode_batch (encode_batch [?x]) = Inr [?x]"
    using batch_reads_back[of "[?x]"] x batch_carriable(4)[OF x(2)] by simp
  obtain l where l: "talks_to peer l" "server_receive p peer (in_datagram (encode_batch [?x])) now s
      = Some (on_payload p peer (encode_batch [?x]) now (s\<lparr>sv_listener := l\<rparr>))"
    using server_hears[OF batch_carriable(1)[OF x(2)] assms(1)] by blast
  then show ?thesis
    using assms(2,3) talks_to_send[OF l(1)]
    by (intro exI[of _ "snd (listener_send peer (encode_batch [network_settings_packet uncompressed]) now l)"])
      (simp add: on_payload_def dec on_clear_packet_def settings_request_reads server_send_def)
qed

lemma login_step:
  assumes "digest_ok p" "agreement_ok p" "talks_to peer (sv_listener s)" "hm_get (sv_ciphers s) peer = None"
    "peer \<in> sv_settled s" "utf8_valid identity" "utf8_valid client_data" "length identity + length client_data \<le> 8000"
    "verify_identity p identity now s = Inr claims" "cl_cpk claims = Some cpk"
    "pr_base64_decode p cpk = Some (sk_public_der (server_key_generate p mine))"
  defines "key \<equiv> server_key_generate p (sv_generated s)"
  shows "\<exists>l session. server_receive p peer (in_datagram (encode_batch_with_method [login_packet v identity client_data])) now s
      = Some ([SLoginAccepted peer v (cl_xname claims)],
          s\<lparr>sv_listener := l, sv_generated := sv_generated s + 1, sv_keys := hm_insert peer key (sv_keys s),
            sv_protocols := hm_insert peer v (sv_protocols s), sv_ciphers := hm_insert peer (new_cipher session) (sv_ciphers s)\<rparr>)
    \<and> talks_to peer l
    \<and> server_key_agree p (server_key_generate p mine) (sk_public_der key) (sk_salt key) = Inr session"
proof -
  let ?x = "login_packet v identity client_data"
  have blob: "length (login_blob identity client_data) \<le> 8008" using assms(8) by (simp add: login_blob_def)
  have "length (pk_body ?x) \<le> 8100"
    using blob length_gw_varint(2)[of "u32_or_max (length (login_blob identity client_data))"]
    by (simp add: login_packet_def new_packet_def login_body_def gw_prefixed_def gw_bytes_def)
  note x = this
  then have ok: "packet_ok ?x" by (simp add: packet_ok_def login_packet_def new_packet_def id_login_def)
  have dec: "decode_batch_with_method (encode_batch_with_method [?x]) = Inr (MethodNone, [?x])"
    using batch_reads_back[of "[?x]"] ok batch_carriable(4)[OF x] by simp
  have login: "decode_login (login_body v identity client_data) default_login_limits
      = Inr \<lparr>lg_client_protocol = v, lg_identity = identity, lg_client_data = client_data\<rparr>"
    using assms(6-8) by (subst login_body_reads) (simp_all add: default_login_limits_def)
  obtain session where agreed: "server_key_agree p key (sk_public_der (server_key_generate p mine)) (sk_salt key) = Inr session"
    "server_key_agree p (server_key_generate p mine) (sk_public_der key) (sk_salt key) = Inr session"
    using sides_agree[OF assms(1,2)] unfolding key_def by blast
  obtain l where l: "talks_to peer l" "server_receive p peer (in_datagram (encode_batch_with_method [?x])) now s
      = Some (on_payload p peer (encode_batch_with_method [?x]) now (s\<lparr>sv_listener := l\<rparr>))"
    using server_hears[OF batch_carriable(2)[OF x] assms(3)] by blast
  have verified: "verify_identity p identity now (s\<lparr>sv_listener := l\<rparr>) = Inr claims"
    using assms(9) by (simp add: verify_identity_def server_unix_now_def)
  show ?thesis
    using l assms(4,5,10,11) talks_to_send[OF l(1)] agreed verified
    by (intro exI[of _ "snd (listener_send peer
          (encode_batch_with_method [server_to_client_handshake (handshake_token p key)]) now l)"] exI[of _ session])
      (simp add: on_payload_def dec on_clear_packet_def id_login_def
        id_request_network_settings_def on_login_def login key_def[symmetric] server_send_def Let_def)
qed

lemma plaintext_reads:
  assumes "packet_ok x" "length (encode_batch_with_method [x]) \<le> usize_max"
  shows "decode_packets [] (gr_new (drop 1 (tl (encode_batch_with_method [x])))) = Inr [x]"
  using decode_packets_written[of "[x]" "[]" "[]"] assms by (simp add: gr_new_def encode_batch_bytes)

lemma radius_step:
  fixes radius most
  defines "g \<equiv> grant \<lparr>rq_radius = radius, rq_max_radius = most\<rparr> server_chunk_radius"
  assumes "digest_ok p" "server_inv s" "talks_to peer (sv_listener s)" "hm_get (sv_ciphers s) peer = Some c" "in_step client c"
    "StageChunks \<le> sv_stage s"
  shows "\<exists>s'. server_receive p peer (in_datagram (sealed_batch p [radius_packet radius most] client)) now s
      = Some ([SChunkRadiusGranted peer (sint radius) g, SSpawned peer (length (columns_around 0 0 g))], s')
    \<and> hm_get (sv_players s') peer = Some ((spawning g)\<lparr>pl_sent := near (0, 0) g\<rparr>)"
proof -
  let ?x = "radius_packet radius most"
  have x: "length (pk_body ?x) \<le> 8100" using length_gw_zigzag32[of radius] by simp
  then have ok: "packet_ok ?x" by (simp add: packet_ok_def radius_packet_def new_packet_def id_request_chunk_radius_def)
  define plain where "plain = tl (encode_batch_with_method [?x])"
  define ct where "ct = fst (cipher_encrypt p plain client)"
  define c' where "c' = snd (cipher_decrypt p ct c)"
  have dec: "cipher_decrypt p ct c = (Inr plain, c')"
    using in_step_encrypt(1)[OF assms(2,6)] by (simp add: prod_eq_iff ct_def c'_def)
  have sealed: "sealed_batch p [?x] client = batch_marker # ct" by (simp add: sealed_batch_def ct_def plain_def)
  have read: "decode_packets [] (gr_new (drop 1 plain)) = Inr [?x]"
    unfolding plain_def by (rule plaintext_reads[OF ok batch_carriable(4)[OF x]])
  obtain l where l: "server_receive p peer (in_datagram (batch_marker # ct)) now s
      = Some (on_payload p peer (batch_marker # ct) now (s\<lparr>sv_listener := l\<rparr>))"
    using server_hears[OF batch_carriable(3)[OF x assms(2), of client, unfolded sealed] assms(4)] by blast
  let ?s = "s\<lparr>sv_listener := l, sv_ciphers := hm_insert peer c' (sv_ciphers s)\<rparr>"
  have ok_ciphers: "hm_ok (sv_ciphers s)" using assms(3) by (simp add: server_inv_def)
  have "insert peer (dom (hm_get (sv_ciphers s))) = dom (hm_get (sv_ciphers s))" using assms(5) by blast
  then have inv: "server_inv ?s"
    using assms(3) by (simp add: server_inv_def hm.invar_ins dom_hm_insert[OF ok_ciphers])
  note handled = on_radius_request_spec[OF inv radius_request_reads[of radius most], where p = p and peer = peer and now = now, folded g_def]
  have one: "on_plain_packet p peer now ?x t = on_radius_request p peer (pk_body ?x) now t" for t
    by (simp add: on_plain_packet_def id_request_chunk_radius_def id_client_to_server_handshake_def
        id_resource_pack_client_response_def)
  have "on_plaintext p peer plain now t = on_radius_request p peer (pk_body ?x) now t" for t
    unfolding on_plaintext_def read by (simp add: one split_beta del: packet_fields)
  then have "on_payload p peer (batch_marker # ct) now (s\<lparr>sv_listener := l\<rparr>) = on_radius_request p peer (pk_body ?x) now ?s"
    using assms(5) by (simp add: on_payload_def dec del: packet_fields)
  moreover have "hm_get (hm_insert peer v (sv_players s)) peer = Some v" for v
    using assms(3) by (simp add: server_inv_def hm.get_ins)
  ultimately show ?thesis using l handled assms(7) unfolding sealed by simp
qed

lemma open_step:
  assumes "listener_inv (sv_listener s)" "hm_get (li_sessions (sv_listener s)) peer = None"
    "server_sessions s < max_sessions (li_config (sv_listener s))"
  shows "\<exists>l. server_receive p peer (encode_request_2 local mtu guid None) now s = Some ([], s\<lparr>sv_listener := l\<rparr>) \<and> talks_to peer l"
proof -
  let ?b = "encode_request_2 local mtu guid None" let ?l = "sv_listener s"
  note parts = request_2_parts[of local mtu guid]
  have rec: "listener_receive peer ?b now ?l = Some ([], handle_request_2 peer ?b now ?l)"
    using assms(2) parts by (simp add: listener_receive_def offline_cases offline_ids_distinct)
  have "hm_ok (li_sessions ?l)" using assms(1) by (simp add: listener_inv_def)
  then have "hm_get (li_sessions (handle_request_2 peer ?b now ?l)) peer \<noteq> None"
    using assms(3) parts by (simp add: handle_request_2_reply server_sessions_def listener_sessions_def Let_def hm.get_ins)
  then have "talks_to peer (handle_request_2 peer ?b now ?l)"
    using listener_inv_receive[OF assms(1) rec] by (simp add: talks_to_def)
  then show ?thesis
    using rec by (intro exI[of _ "handle_request_2 peer ?b now ?l"]) (simp add: server_receive_def)
qed

section \<open>A run\<close>

fun server_hears_all :: "'k primitives \<Rightarrow> socket_addr \<Rightarrow> instant \<Rightarrow> bytes list \<Rightarrow> 'k server
    \<Rightarrow> (server_event list list \<times> 'k server) option" where
  "server_hears_all p peer now [] s = Some ([], s)"
| "server_hears_all p peer now (b # bs) s =
     (case server_receive p peer b now s of
        None \<Rightarrow> None
      | Some (es, s) \<Rightarrow> map_option (\<lambda>(rest, s). (es # rest, s)) (server_hears_all p peer now bs s))"

lemma server_hears_all_append:
  assumes "server_hears_all p peer now bs s = Some (ess, s1)" "server_receive p peer b now s1 = Some (es, s2)"
  shows "server_hears_all p peer now (bs @ [b]) s = Some (ess @ [es], s2)"
  using assms
proof (induction bs arbitrary: s ess)
  case (Cons x xs)
  then show ?case by (fastforce split: option.splits prod.splits)
qed simp

lemma hearing_keeps_inv:
  "server_hears_all p peer now bs s = Some (ess, s') \<Longrightarrow> server_inv s \<Longrightarrow> server_inv s' \<and> sv_stage s' = sv_stage s"
proof (induction bs arbitrary: s ess)
  case (Cons b bs)
  obtain es s1 rest where 1: "server_receive p peer b now s = Some (es, s1)"
    "server_hears_all p peer now bs s1 = Some (rest, s')"
    using Cons.prems(1) by (auto split: option.splits prod.splits)
  have "server_inv s1" "sv_stage s1 = sv_stage s"
    using handled_receive[OF Cons.prems(2) 1(1)] handled_server_inv handled_keeps_stage by blast+
  then show ?case using Cons.IH[OF 1(2)] by simp
qed simp

lemma hearing_reachable:
  "server_hears_all p peer now bs s = Some (ess, s') \<Longrightarrow> server_reachable p s \<Longrightarrow> server_reachable p s'"
proof (induction bs arbitrary: s ess)
  case (Cons b bs)
  then show ?case by (fastforce split: option.splits intro: server_reachable.received)
qed simp

text \<open>What a client called \<open>mine\<close> sends to join, given the key \<open>session\<close> it derives on the way.\<close>

definition joining :: "'k primitives \<Rightarrow> u32 \<Rightarrow> bytes \<Rightarrow> bytes \<Rightarrow> bytes \<Rightarrow> i32 \<Rightarrow> u8 \<Rightarrow> bytes list" where
  "joining p v identity client_data session radius most =
     [encode_request_2 unassigned 1200 0 None,
      in_datagram (encode_batch [settings_request v]),
      in_datagram (encode_batch_with_method [login_packet v identity client_data]),
      in_datagram (sealed_batch p [radius_packet radius most] (new_cipher session))]"

lemma joining_succeeds:
  assumes "digest_ok p" "agreement_ok p" "server_inv s" "listener_inv (sv_listener s)"
    "hm_get (li_sessions (sv_listener s)) peer = None" "server_sessions s < max_sessions (li_config (sv_listener s))"
    "hm_get (sv_ciphers s) peer = None" "peer \<notin> sv_settled s" "StageChunks \<le> sv_stage s"
    "utf8_valid identity" "utf8_valid client_data" "length identity + length client_data \<le> 8000"
    "verify_identity p identity now s = Inr claims" "cl_cpk claims = Some cpk"
    "pr_base64_decode p cpk = Some (sk_public_der (server_key_generate p mine))"
  defines "theirs \<equiv> server_key_generate p (sv_generated s)"
  shows "\<exists>session s'. server_key_agree p (server_key_generate p mine) (sk_public_der theirs) (sk_salt theirs) = Inr session
    \<and> (let granted = grant \<lparr>rq_radius = radius, rq_max_radius = most\<rparr> server_chunk_radius
       in server_hears_all p peer now (joining p v identity client_data session radius most) s
            = Some ([[], [SNetworkSettingsRequested peer v], [SLoginAccepted peer v (cl_xname claims)],
                [SChunkRadiusGranted peer (sint radius) granted, SSpawned peer (length (columns_around 0 0 granted))]], s')
          \<and> hm_get (sv_players s') peer = Some ((spawning granted)\<lparr>pl_sent := near (0, 0) granted\<rparr>))"
proof -
  obtain l1 where 1: "server_receive p peer (encode_request_2 unassigned 1200 0 None) now s = Some ([], s\<lparr>sv_listener := l1\<rparr>)"
    "talks_to peer l1"
    using open_step[OF assms(4-6)] by blast
  let ?s1 = "s\<lparr>sv_listener := l1\<rparr>"
  obtain l2 where 2: "server_receive p peer (in_datagram (encode_batch [settings_request v])) now ?s1
      = Some ([SNetworkSettingsRequested peer v], ?s1\<lparr>sv_listener := l2, sv_settled := insert peer (sv_settled ?s1)\<rparr>)" "talks_to peer l2"
    using settings_step[of peer ?s1 p v now] 1(2) assms(7,8) by auto
  let ?s2 = "?s1\<lparr>sv_listener := l2, sv_settled := insert peer (sv_settled ?s1)\<rparr>"
  have "verify_identity p identity now ?s2 = Inr claims" using assms(13) by (simp add: verify_identity_def server_unix_now_def)
  from login_step[OF assms(1,2) _ _ _ assms(10-12) this assms(14,15), of peer v] obtain l3 session where
    3: "server_receive p peer (in_datagram (encode_batch_with_method [login_packet v identity client_data])) now ?s2
      = Some ([SLoginAccepted peer v (cl_xname claims)], ?s2\<lparr>sv_listener := l3, sv_generated := sv_generated ?s2 + 1,
          sv_keys := hm_insert peer theirs (sv_keys ?s2), sv_protocols := hm_insert peer v (sv_protocols ?s2),
          sv_ciphers := hm_insert peer (new_cipher session) (sv_ciphers ?s2)\<rparr>)"
    and talks: "talks_to peer l3"
    and agreed: "server_key_agree p (server_key_generate p mine) (sk_public_der theirs) (sk_salt theirs) = Inr session"
    using 2(2) assms(7) by (auto simp: theirs_def)
  let ?s3 = "?s2\<lparr>sv_listener := l3, sv_generated := sv_generated ?s2 + 1,
          sv_keys := hm_insert peer theirs (sv_keys ?s2), sv_protocols := hm_insert peer v (sv_protocols ?s2),
          sv_ciphers := hm_insert peer (new_cipher session) (sv_ciphers ?s2)\<rparr>"
  have all3: "server_hears_all p peer now (take 3 (joining p v identity client_data session radius most)) s
      = Some ([[], [SNetworkSettingsRequested peer v], [SLoginAccepted peer v (cl_xname claims)]], ?s3)"
    using 1(1) 2(1) 3 by (simp add: joining_def)
  note inv = hearing_keeps_inv[OF all3 assms(3)]
  have "hm_get (sv_ciphers ?s3) peer = Some (new_cipher session)" "StageChunks \<le> sv_stage ?s3" "talks_to peer (sv_listener ?s3)"
    using assms(3,9) talks by (simp_all add: server_inv_def hm.get_ins)
  from radius_step[OF assms(1) conjunct1[OF inv] this(3,1) in_step_new this(2), of radius most now] obtain s' where
    4: "server_receive p peer (in_datagram (sealed_batch p [radius_packet radius most] (new_cipher session))) now ?s3
      = Some ([SChunkRadiusGranted peer (sint radius) (grant \<lparr>rq_radius = radius, rq_max_radius = most\<rparr> server_chunk_radius),
          SSpawned peer (length (columns_around 0 0 (grant \<lparr>rq_radius = radius, rq_max_radius = most\<rparr> server_chunk_radius)))], s')"
    "hm_get (sv_players s') peer = Some ((spawning (grant \<lparr>rq_radius = radius, rq_max_radius = most\<rparr> server_chunk_radius))
        \<lparr>pl_sent := near (0, 0) (grant \<lparr>rq_radius = radius, rq_max_radius = most\<rparr> server_chunk_radius)\<rparr>)"
    by blast
  show ?thesis
    using server_hears_all_append[OF all3 4(1)] agreed 4(2)
    by (intro exI[of _ session] exI[of _ s']) (simp add: joining_def Let_def)
qed

section \<open>A concrete join\<close>

definition toy_token :: bytes where "toy_token = [0x61, 0x2E, 0x62, 0x2E, 1, 2]"

definition toy_claims :: claims where
  "toy_claims = \<lparr>cl_iss = token_issuer, cl_aud = token_audience, cl_exp = 1000, cl_iat = 900,
     cl_xid = None, cl_xname = Some [0x62], cl_cpk = Some (sk_public_der (server_key_generate toy_primitives 2))\<rparr>"

definition open_server :: "nat server" where
  "open_server = set_identity_keys [\<lparr>jk_kid = [0x61], jk_kty = ascii ''RSA'', jk_n = [1], jk_e = [2]\<rparr>] 950 0 first_server"

lemma toy_identity: "verify_identity toy_primitives toy_token 0 open_server = Inr toy_claims"
  by (simp add: verify_identity_def try_bind_def or_else_def open_server_def set_identity_keys_def set_clock_def
      server_unix_now_def toy_token_def toy_claims_def toy_primitives_def map_err_def jwt_verify_def verify_with_key_def
      verify_signature_def decode_segment_def jwks_find_def check_claims_def server_key_generate_def Let_def)

lemma open_server_fresh:
  "server_reachable toy_primitives open_server" "server_inv open_server" "listener_inv (sv_listener open_server)"
  "hm_get (li_sessions (sv_listener open_server)) guest = None" "server_sessions open_server < max_sessions (li_config (sv_listener open_server))"
  "hm_get (sv_ciphers open_server) guest = None" "guest \<notin> sv_settled open_server" "StageChunks \<le> sv_stage open_server"
proof -
  show "server_reachable toy_primitives open_server"
    unfolding open_server_def by (rule server_reachable.keys_set[OF server_reachable.started[OF first_server_started]])
  show "server_inv open_server" using first_server_inv by (simp add: open_server_def set_identity_keys_def set_clock_def)
  have l: "new_listener unassigned 7 [77] default_listener_config = Some (sv_listener first_server)"
    using first_server_started by (auto simp: server_with_config_def dest!: arg_cong[where f = sv_listener])
  show "listener_inv (sv_listener open_server)"
    using listener_inv_new[OF l] by (simp add: open_server_def set_identity_keys_def set_clock_def)
qed (simp_all add: open_server_def set_identity_keys_def set_clock_def first_server_def new_server_def server_with_config_def
    new_listener_def string_truncate_def default_listener_config_def server_sessions_def listener_sessions_def hm_len_def
    hm_get_def hm_new_def less_eq_stage_def)

lemma joined:
  "\<exists>s2 s3 s4 session. server_inv s2 \<and> server_inv s3
    \<and> server_receive toy_primitives guest (in_datagram (encode_batch_with_method [login_packet 1001 toy_token []])) 0 s2
        = Some ([SLoginAccepted guest 1001 (Some [0x62])], s3)
    \<and> server_receive toy_primitives guest (in_datagram (sealed_batch toy_primitives [radius_packet 2 8] (new_cipher session))) 0 s3
        = Some ([SChunkRadiusGranted guest 2 2, SSpawned guest 25], s4)
    \<and> server_reachable toy_primitives s4
    \<and> hm_get (sv_players s4) guest = Some ((spawning 2)\<lparr>pl_sent := near (0, 0) 2\<rparr>)"
proof -
  have granted: "grant \<lparr>rq_radius = 2, rq_max_radius = 8\<rparr> server_chunk_radius = 2" by (simp add: grant_def server_chunk_radius_def)
  have "length (columns_around 0 0 2) = 25" by (simp add: columns_around_def upto.simps)
  then obtain session s4 where r: "server_hears_all toy_primitives guest 0 (joining toy_primitives 1001 toy_token [] session 2 8) open_server
      = Some ([[], [SNetworkSettingsRequested guest 1001], [SLoginAccepted guest 1001 (Some [0x62])],
          [SChunkRadiusGranted guest 2 2, SSpawned guest 25]], s4)"
    "hm_get (sv_players s4) guest = Some ((spawning 2)\<lparr>pl_sent := near (0, 0) 2\<rparr>)"
    using joining_succeeds[OF toy_primitives_ok open_server_fresh(2-8) _ _ _ toy_identity, of "[]"
        "sk_public_der (server_key_generate toy_primitives 2)" 2 2 8 1001]
    by (auto simp: granted toy_claims_def toy_token_def utf8_width_def toy_primitives_def)
  obtain s2 s3 where s:
    "server_hears_all toy_primitives guest 0 (take 2 (joining toy_primitives 1001 toy_token [] session 2 8)) open_server
       = Some ([[], [SNetworkSettingsRequested guest 1001]], s2)"
    "server_receive toy_primitives guest (in_datagram (encode_batch_with_method [login_packet 1001 toy_token []])) 0 s2
        = Some ([SLoginAccepted guest 1001 (Some [0x62])], s3)"
    "server_receive toy_primitives guest (in_datagram (sealed_batch toy_primitives [radius_packet 2 8] (new_cipher session))) 0 s3
        = Some ([SChunkRadiusGranted guest 2 2, SSpawned guest 25], s4)"
    using r(1) by (auto simp: joining_def numeral_2_eq_2 split: option.splits prod.splits)
  have inv: "server_inv s2" using hearing_keeps_inv[OF s(1) open_server_fresh(2)] by simp
  have "server_inv s3" using handled_receive[OF inv s(2)] by (rule handled_server_inv)
  then show ?thesis using inv s(2,3) r(2) hearing_reachable[OF r(1) open_server_fresh(1)] by blast
qed

section \<open>Properties\<close>

text \<open>C3: Whoever is vouched for gets in: a peer the server does not know, with an identity that its issuer's
  keys vouch for and the private key that identity names, is led by four datagrams (the second open request, the
  settings request, the login, and on the encrypted stream the view distance) into the world: the server
  reports each step, both sides hold the same key, and the player was sent every column in view.\<close>

theorem whoever_is_vouched_for_gets_in:
  assumes "digest_ok p" "agreement_ok p" "server_inv s" "listener_inv (sv_listener s)"
    "hm_get (li_sessions (sv_listener s)) peer = None" "server_sessions s < max_sessions (li_config (sv_listener s))"
    "hm_get (sv_ciphers s) peer = None" "peer \<notin> sv_settled s" "StageChunks \<le> sv_stage s"
    "utf8_valid identity" "utf8_valid client_data" "length identity + length client_data \<le> 8000"
    "verify_identity p identity now s = Inr claims" "cl_cpk claims = Some cpk"
    "pr_base64_decode p cpk = Some (sk_public_der (server_key_generate p mine))"
  shows "\<exists>session s'. server_key_agree p (server_key_generate p mine) (sk_public_der (server_key_generate p (sv_generated s)))
        (sk_salt (server_key_generate p (sv_generated s))) = Inr session
    \<and> (let granted = grant \<lparr>rq_radius = radius, rq_max_radius = most\<rparr> server_chunk_radius
       in server_hears_all p peer now (joining p v identity client_data session radius most) s
            = Some ([[], [SNetworkSettingsRequested peer v], [SLoginAccepted peer v (cl_xname claims)],
                [SChunkRadiusGranted peer (sint radius) granted, SSpawned peer (length (columns_around 0 0 granted))]], s')
          \<and> hm_get (sv_players s') peer = Some ((spawning granted)\<lparr>pl_sent := near (0, 0) granted\<rparr>))"
  using joining_succeeds[OF assms] .

lemma whoever_is_vouched_for_gets_in_witness:
  "\<exists>session s'. server_hears_all toy_primitives guest 0 (joining toy_primitives 1001 toy_token [] session 2 8) open_server
     = Some ([[], [SNetworkSettingsRequested guest 1001], [SLoginAccepted guest 1001 (Some [0x62])],
         [SChunkRadiusGranted guest 2 2, SSpawned guest 25]], s')"
proof -
  have granted: "grant \<lparr>rq_radius = 2, rq_max_radius = 8\<rparr> server_chunk_radius = 2" by (simp add: grant_def server_chunk_radius_def)
  have "length (columns_around 0 0 2) = 25" by (simp add: columns_around_def upto.simps)
  then show ?thesis
    using whoever_is_vouched_for_gets_in[OF toy_primitives_ok open_server_fresh(2-8) _ _ _ toy_identity, of "[]"
        "sk_public_der (server_key_generate toy_primitives 2)" 2 2 8 1001]
    by (auto simp: granted toy_claims_def toy_token_def utf8_width_def toy_primitives_def)
qed

text \<open>C4: Whatever a caller does with a server, its tables stay consistent: who is in the world has an
  encrypted stream, who has a stream was let in with a key and a protocol version on record; every
  player in the world was sent all they can see and nothing further off than the margin is remembered;
  and streaming never changes a block, the world is the flat one everywhere.\<close>

theorem server_stays_consistent:
  assumes "server_reachable p s"
  shows "dom (hm_get (sv_players s)) \<subseteq> dom (hm_get (sv_ciphers s))
    \<and> dom (hm_get (sv_ciphers s)) \<subseteq> dom (hm_get (sv_keys s))
    \<and> dom (hm_get (sv_protocols s)) = dom (hm_get (sv_keys s))
    \<and> (\<forall>q pl. hm_get (sv_players s) q = Some pl \<longrightarrow> 1 \<le> pl_radius pl \<and> pl_radius pl \<le> server_chunk_radius
         \<and> set (columns_around (fst (pl_center pl)) (snd (pl_center pl)) (pl_radius pl)) \<subseteq> pl_sent pl
         \<and> pl_sent pl \<subseteq> near (pl_center pl) (pl_radius pl + forget_margin))
    \<and> fst (world_block_at x y z (sv_world s)) =
        (if min_y \<le> y \<and> y < max_y then Some (if y < surface_height then stone else air) else None)"
proof -
  have inv: "server_inv s" and view: "column_view (sv_world s) = column_view (world_flat surface_height)"
    using reachable_inv[OF assms] by simp_all
  have "fst (world_block_at x y z (sv_world s)) = world_view (sv_world s) (x, y, z)"
    using world_block_at_spec[of "sv_world s" x y z] inv by (simp add: server_inv_def prod_eq_iff)
  also have "\<dots> = world_view (world_flat surface_height) (x, y, z)" by (simp add: world_view_def view)
  finally have "fst (world_block_at x y z (sv_world s)) =
      (if min_y \<le> y \<and> y < max_y then Some (if y < surface_height then stone else air) else None)"
    by (simp add: world_view_flat min_y_def max_y_def min_section_def max_section_def section_size_def)
  then show ?thesis
    using inv by (auto simp: server_inv_def player_inv_def set_columns_around server_chunk_radius_def forget_margin_def)
qed

lemma server_stays_consistent_witness:
  "\<exists>s pl. server_reachable toy_primitives s \<and> hm_get (sv_players s) guest = Some pl \<and> pl_radius pl = 2
    \<and> set (columns_around 0 0 2) \<subseteq> pl_sent pl \<and> guest \<in> dom (hm_get (sv_keys s))
    \<and> fst (world_block_at 1000 79 (- 1000) (sv_world s)) = Some stone"
proof -
  obtain s3 s4 where r: "server_reachable toy_primitives s4" "hm_get (sv_players s4) guest = Some ((spawning 2)\<lparr>pl_sent := near (0, 0) 2\<rparr>)"
    using joined by metis
  note c = server_stays_consistent[OF r(1), of 1000 79 "- 1000"]
  have "guest \<in> dom (hm_get (sv_players s4))" using r(2) by blast
  then have "guest \<in> dom (hm_get (sv_keys s4))" using c by blast
  moreover have "fst (world_block_at 1000 79 (- 1000) (sv_world s4)) = Some stone"
    using c by (simp add: min_y_def max_y_def surface_height_def min_section_def max_section_def section_size_def)
  moreover have "set (columns_around 0 0 2) \<subseteq> near (0, 0) 2" by (simp add: set_columns_around)
  ultimately show ?thesis
    using r by (intro exI[of _ s4] exI[of _ "(spawning 2)\<lparr>pl_sent := near (0, 0) 2\<rparr>"]) (simp add: spawning_def)
qed

text \<open>C5: A stream starts, and with it a place in the world, only for the sender of the datagram and only
  with a login whose identity the issuer's keys vouch for at that moment; a server that has no keys or
  no clock lets nobody in.\<close>

theorem only_verified_players:
  assumes "server_inv s" "server_receive p from b now s = Some (es, s')"
  shows "dom (hm_get (sv_ciphers s')) \<subseteq> dom (hm_get (sv_ciphers s)) \<union> (if let_in from es then {from} else {})
    \<and> dom (hm_get (sv_players s')) \<subseteq> dom (hm_get (sv_ciphers s'))
    \<and> (\<forall>q v name. SLoginAccepted q v name \<in> set es \<longrightarrow> q = from \<and>
         (\<exists>identity claims. verify_identity p identity now s = Inr claims \<and> name = cl_xname claims))
    \<and> (\<not> can_verify_identity s \<longrightarrow> dom (hm_get (sv_ciphers s')) \<subseteq> dom (hm_get (sv_ciphers s)))"
proof -
  have h: "handled p from now s (es, s')" by (rule handled_receive[OF assms])
  then have dom: "dom (hm_get (sv_ciphers s')) \<subseteq> dom (hm_get (sv_ciphers s)) \<union> (if let_in from es then {from} else {})"
    by (fastforce simp: handled_def same_frame_def)
  have in_world: "dom (hm_get (sv_players s')) \<subseteq> dom (hm_get (sv_ciphers s'))"
    using h by (simp add: handled_def server_inv_def)
  have accepted: "q = from \<and> (\<exists>identity claims. verify_identity p identity now s = Inr claims \<and> name = cl_xname claims)"
    if "SLoginAccepted q v name \<in> set es" for q v name
  proof -
    have "server_event_peer (SLoginAccepted q v name) = from \<and> event_allowed p now s (SLoginAccepted q v name)"
      using h that by (auto simp: handled_def simp del: server_event_peer.simps event_allowed.simps)
    then show ?thesis by simp
  qed
  have "\<not> let_in from es" if "\<not> can_verify_identity s"
  proof
    assume "let_in from es"
    then obtain identity claims where "verify_identity p identity now s = Inr claims"
      using accepted unfolding let_in_def by blast
    then show False
      using that by (auto simp: verify_identity_def try_bind_Inr or_else_Inr can_verify_identity_def server_unix_now_def
          split: option.splits)
  qed
  then show ?thesis using dom in_world accepted by auto
qed

lemma only_verified_players_witness:
  "\<exists>s s' es. server_receive toy_primitives guest (in_datagram (encode_batch_with_method [login_packet 1001 toy_token []])) 0 s
      = Some (es, s') \<and> SLoginAccepted guest 1001 (Some [0x62]) \<in> set es
    \<and> (\<exists>identity claims. verify_identity toy_primitives identity 0 s = Inr claims \<and> cl_xname claims = Some [0x62])
    \<and> dom (hm_get (sv_ciphers s')) \<subseteq> dom (hm_get (sv_ciphers s)) \<union> {guest}"
proof -
  obtain s2 s3 where r: "server_inv s2" "server_receive toy_primitives guest
        (in_datagram (encode_batch_with_method [login_packet 1001 toy_token []])) 0 s2
      = Some ([SLoginAccepted guest 1001 (Some [0x62])], s3)"
    using joined by metis
  note v = only_verified_players[OF r]
  have event: "SLoginAccepted guest 1001 (Some [0x62]) \<in> set [SLoginAccepted guest 1001 (Some [0x62])]" by simp
  then have "\<exists>identity claims. verify_identity toy_primitives identity 0 s2 = Inr claims \<and> Some [0x62] = cl_xname claims"
    using v by blast
  moreover have "dom (hm_get (sv_ciphers s3)) \<subseteq> dom (hm_get (sv_ciphers s2)) \<union> {guest}"
    using conjunct1[OF v] by (auto split: if_splits)
  ultimately show ?thesis using r(2) event by metis
qed

text \<open>C33: A datagram concerns its sender only: every event names them, and nobody else's settings, key,
  stream, protocol version or place in the world changes.\<close>

theorem datagram_concerns_one_player:
  assumes "server_inv s" "server_receive p from b now s = Some (es, s')"
  shows "list_all (\<lambda>e. server_event_peer e = from) es
    \<and> (\<forall>q. q \<noteq> from \<longrightarrow> (q \<in> sv_settled s' \<longleftrightarrow> q \<in> sv_settled s)
         \<and> hm_get (sv_keys s') q = hm_get (sv_keys s) q \<and> hm_get (sv_ciphers s') q = hm_get (sv_ciphers s) q
         \<and> hm_get (sv_protocols s') q = hm_get (sv_protocols s) q \<and> hm_get (sv_players s') q = hm_get (sv_players s) q)
    \<and> sv_stage s' = sv_stage s \<and> sv_identity_keys s' = sv_identity_keys s \<and> sv_clock s' = sv_clock s"
  using handled_receive[OF assms] by (auto simp: handled_def same_frame_def list_all_iff)

lemma datagram_concerns_one_player_witness:
  "\<exists>s s' session. server_receive toy_primitives guest
        (in_datagram (sealed_batch toy_primitives [radius_packet 2 8] (new_cipher session))) 0 s
      = Some ([SChunkRadiusGranted guest 2 2, SSpawned guest 25], s')
    \<and> hm_get (sv_players s') unassigned = hm_get (sv_players s) unassigned \<and> sv_stage s' = sv_stage s"
proof -
  obtain s3 s4 session where r: "server_inv s3" "server_receive toy_primitives guest
        (in_datagram (sealed_batch toy_primitives [radius_packet 2 8] (new_cipher session))) 0 s3
      = Some ([SChunkRadiusGranted guest 2 2, SSpawned guest 25], s4)"
    using joined by metis
  have "unassigned \<noteq> guest" by (simp add: unassigned_def guest_def)
  then show ?thesis using datagram_concerns_one_player[OF r] r(2) by blast
qed

text \<open>C34: The login sequence stops where it was told to: no view distance is granted before the stage
  that grants it, nobody spawns before the stage that streams columns; and what is granted is what was
  asked for, brought into one to four chunks.\<close>

theorem stages_gate_the_sequence:
  assumes "server_inv s" "server_receive p from b now s = Some (es, s')"
  shows "(\<forall>q requested granted. SChunkRadiusGranted q requested granted \<in> set es \<longrightarrow>
        StageRadius \<le> sv_stage s \<and> granted = max 1 (min requested server_chunk_radius))
    \<and> (\<forall>q columns. SSpawned q columns \<in> set es \<longrightarrow> StageChunks \<le> sv_stage s)"
proof -
  have "event_allowed p now s e" if "e \<in> set es" for e
    using handled_receive[OF assms] that by (auto simp: handled_def simp del: event_allowed.simps)
  from this[of "SChunkRadiusGranted q requested granted" for q requested granted] this[of "SSpawned q columns" for q columns]
  show ?thesis by (simp add: server_chunk_radius_def)
qed

lemma stages_gate_the_sequence_witness:
  "\<exists>s s' b es. server_receive toy_primitives guest b 0 s = Some (es, s') \<and> SSpawned guest 25 \<in> set es \<and> StageChunks \<le> sv_stage s"
proof -
  obtain s3 s4 session where r: "server_inv s3" "server_receive toy_primitives guest
        (in_datagram (sealed_batch toy_primitives [radius_packet 2 8] (new_cipher session))) 0 s3
      = Some ([SChunkRadiusGranted guest 2 2, SSpawned guest 25], s4)"
    using joined by metis
  have "SSpawned guest 25 \<in> set [SChunkRadiusGranted guest 2 2, SSpawned guest 25]" by simp
  then show ?thesis using stages_gate_the_sequence[OF r] r(2) by blast
qed

end
