(* ===== verification/Announcing.thy ===== *)
theory Announcing
  imports Server
begin

text \<open>
  The string the server advertises (\<^verbatim>\<open>advertisement\<close> of \<^verbatim>\<open>server.rs\<close>), read back with the
  parser of the transport crate (\<^verbatim>\<open>advertisement.rs\<close>): the two are written apart and have to agree.
\<close>

definition server_fields :: "bytes \<Rightarrow> nat \<Rightarrow> nat \<Rightarrow> u16 \<Rightarrow> i64 \<Rightarrow> bytes list" where
  "server_fields name players max_players port guid =
     [ascii ''MCPE'', name, decimal (unat game_protocol_version), minecraft_version, decimal players,
      decimal max_players, decimal_int (sint guid), [], ascii ''Survival'', ascii ''1'', decimal (unat port),
      decimal (unat port), []]"

lemma server_advertisement_fields:
  "server_advertisement name players max_players port guid = join_with semicolon (server_fields name players max_players port guid)"
  by (simp add: server_advertisement_def server_fields_def ascii_def semicolon_def)

lemma semicolon_not_digit: "is_digit b \<Longrightarrow> b \<noteq> semicolon"
  by (auto simp: is_digit_def semicolon_def word_le_nat_alt)

lemma decimal_digits: "b \<in> set (decimal n) \<Longrightarrow> is_digit b"
proof (induction n rule: decimal.induct)
  case (1 n)
  show ?case
    using 1 digit_byte(1)[of n] digit_byte(1)[of "n mod 10"]
    by (cases "n < 10") (auto simp: decimal.simps[of n])
qed

lemma no_semicolon: "semicolon \<notin> set (decimal n)" "semicolon \<notin> set (decimal_int i)"
  using decimal_digits semicolon_not_digit by (auto simp: decimal_int_def ascii_def semicolon_def)

lemma parse_i64_decimal: "parse_i64 (decimal_int (sint g)) = Some g"
proof (cases "sint g < 0")
  case True
  have "- (2 ^ 63) \<le> sint g" using sint_greater_eq[of g] by simp
  then have n: "nat (- sint g) \<le> 2 ^ 63" by simp
  have "(- of_nat (nat (- sint g)) :: i64) = of_int (sint g)" using True by (simp add: of_nat_nat)
  moreover have "decimal (nat (- sint g)) \<noteq> []" using decimal_first[of "nat (- sint g)"] by auto
  ultimately show ?thesis
    using True n parse_decimal[of "2 ^ 63" "nat (- sint g)"] by (simp add: parse_i64_def decimal_int_def ascii_def)
next
  case False
  have "sint g < 2 ^ 63" using sint_less[of g] by simp
  then have n: "nat (sint g) \<le> 2 ^ 63 - 1" by simp
  obtain b bs where d: "decimal (nat (sint g)) = b # bs" "is_digit b" using decimal_first by blast
  have "(of_nat (nat (sint g)) :: i64) = of_int (sint g)" using False by (simp add: of_nat_nat)
  then show ?thesis
    using False n parse_decimal[of "2 ^ 63 - 1" "nat (sint g)"] digit_not_sign[OF d(2)]
    by (simp add: parse_i64_def decimal_int_def d(1)[symmetric]) (simp add: d(1))
qed

section \<open>Properties\<close>

text \<open>C40: The server list string the server builds reads back, with the transport's own parser, as the
  edition, the name, the protocol version, the game version, the player counts, the identity and the
  game mode that went in, provided the name holds no separator.\<close>

theorem own_advertisement_parses:
  fixes port :: u16 and guid :: i64
  assumes "semicolon \<notin> set name" "players < 2 ^ 64" "max_players < 2 ^ 64"
  defines "a \<equiv> advertisement_parse (server_advertisement name players max_players port guid)"
  shows "ad_edition a = Some (ascii ''MCPE'') \<and> ad_motd a = Some name
    \<and> ad_protocol_version a = Some game_protocol_version \<and> ad_version_name a = Some minecraft_version
    \<and> ad_online_players a = Some (of_nat players) \<and> ad_max_players a = Some (of_nat max_players)
    \<and> ad_server_guid a = Some guid \<and> ad_gamemode a = Some (ascii ''Survival'') \<and> ad_len a = 13"
proof -
  have "\<forall>f \<in> set (server_fields name players max_players port guid). semicolon \<notin> set f"
    using assms(1) no_semicolon by (simp add: server_fields_def) (simp add: ascii_def minecraft_version_def semicolon_def)
  then have "split_on semicolon (join_with semicolon (server_fields name players max_players port guid))
      = server_fields name players max_players port guid"
    by (intro split_join) (simp_all add: server_fields_def)
  then have "ad_fields a = server_fields name players max_players port guid"
    by (simp only: a_def server_advertisement_fields advertisement_parse_def advertisement.simps)
  then show ?thesis
    using assms(2,3) parse_i64_decimal[of guid]
    by (simp add: ad_edition_def ad_motd_def ad_protocol_version_def ad_version_name_def ad_online_players_def
        ad_max_players_def ad_server_guid_def ad_gamemode_def ad_field_def ad_len_def server_fields_def parse_u32_def
        parse_u64_def parse_unsigned_decimal game_protocol_version_def)
qed

lemma own_advertisement_parses_witness:
  "ad_motd (advertisement_parse (server_advertisement [0x4F, 0x6B] 3 20 19132 (- 7))) = Some [0x4F, 0x6B]"
  using own_advertisement_parses[of "[0x4F, 0x6B]" 3 20 19132 "- 7"] by (simp add: semicolon_def)

end
