(* ===== verification/Cli.thy ===== *)
theory Cli
  imports Entering Announcing
begin

text \<open>
  \<^verbatim>\<open>bedrock-cli/src/main.rs\<close>: the arguments, one pass of the loop around the server, and what the
  reports keep (a trail of positions, a counter of saved packets).

  Sockets, clocks and the issuer's key server are inputs of a pass: what was received, what the
  clocks said, what the fetch yielded.  A report names what is printed, not the words it is printed
  with, and the file system accepts every file.
\<close>

section \<open>Numbers in arguments\<close>

text \<open>The standard library's \<^verbatim>\<open>from_str\<close>: \<^verbatim>\<open>f32\<close> is rounded once, from the exact decimal.\<close>

definition parse_u16 :: "bytes \<Rightarrow> u16 option" where
  "parse_u16 s = map_option of_nat (parse_unsigned (2 ^ 16 - 1) s)"

definition f32_of_ratio :: "bool \<Rightarrow> nat \<Rightarrow> nat \<Rightarrow> f32" where
  "f32_of_ratio neg n d =
     (let units = n * 2 ^ 149;
          k = bit_length (units div d) - 24;
          q = units div (d * 2 ^ k);
          r = units mod (d * 2 ^ k);
          up = (d * 2 ^ k < 2 * r \<or> d * 2 ^ k = 2 * r \<and> odd q);
          p = min (k * 2 ^ 23 + (if up then q + 1 else q)) (255 * 2 ^ 23)
      in of_nat (if neg then p + 2 ^ 31 else p))"

definition decimal_value :: "bytes \<Rightarrow> nat" where
  "decimal_value ds = fold (\<lambda>b n. n * 10 + (unat b - 0x30)) ds 0"

definition parse_exponent :: "bytes \<Rightarrow> int option" where
  "parse_exponent s =
     (let neg = (s \<noteq> [] \<and> hd s = 0x2D);
          ds = (if s \<noteq> [] \<and> (hd s = 0x2D \<or> hd s = 0x2B) then tl s else s)
      in if ds = [] \<or> \<not> list_all is_digit ds then None
         else Some (if neg then - int (decimal_value ds) else int (decimal_value ds)))"

definition to_lower :: "u8 \<Rightarrow> u8" where
  "to_lower b = (if 0x41 \<le> b \<and> b \<le> 0x5A then b + 0x20 else b)"

definition f32_scaled :: "bool \<Rightarrow> nat \<Rightarrow> int \<Rightarrow> f32" where
  "f32_scaled neg m e = (if e < 0 then f32_of_ratio neg m (10 ^ nat (- e)) else f32_of_ratio neg (m * 10 ^ nat e) 1)"

definition f32_parse :: "bytes \<Rightarrow> f32 option" where
  "f32_parse s =
     (let neg = (s \<noteq> [] \<and> hd s = 0x2D);
          rest = (if s \<noteq> [] \<and> (hd s = 0x2D \<or> hd s = 0x2B) then tl s else s);
          whole = takeWhile is_digit rest;
          after = dropWhile is_digit rest;
          point = (after \<noteq> [] \<and> hd after = 0x2E);
          part = (if point then takeWhile is_digit (tl after) else []);
          after = (if point then dropWhile is_digit (tl after) else after);
          word = map to_lower rest
      in if whole = [] \<and> part = []
         then (if word = ascii ''inf'' \<or> word = ascii ''infinity'' then Some (f32_infinity neg)
               else if word = ascii ''nan'' then Some (if neg then f32_neg f32_nan else f32_nan)
               else None)
         else
           (case after of
              [] \<Rightarrow> Some (f32_scaled neg (decimal_value (whole @ part)) (- int (length part)))
            | b # bs \<Rightarrow>
                if to_lower b \<noteq> 0x65 then None
                else map_option (\<lambda>e. f32_scaled neg (decimal_value (whole @ part)) (e - int (length part)))
                       (parse_exponent bs)))"

lemma f32_one_tenth: "f32_of_ratio False (Suc 0) 10 = 0x3dcccccd"
proof -
  have k: "bit_length (2 ^ 149 div 10) = 146" by (simp add: bit_length.simps)
  show ?thesis unfolding f32_of_ratio_def Let_def One_nat_def[symmetric] nat_mult_1 k by simp
qed

lemma f32_parse_examples:
  "f32_parse (ascii ''0.1'') = Some 0x3dcccccd" "f32_parse (ascii ''-2E3'') = Some (f32_of_ratio True 2000 1)"
  "f32_parse (ascii ''INF'') = Some 0x7f800000" "f32_parse (ascii ''.'') = None" "f32_parse (ascii ''1x'') = None"
  by (simp_all add: f32_parse_def f32_scaled_def f32_one_tenth decimal_value_def parse_exponent_def to_lower_def
      ascii_def is_digit_def f32_infinity_def)

section \<open>Arguments\<close>

record options =
  op_port :: u16
  op_name :: bytes
  op_dump :: "bytes option"
  op_stage :: stage
  op_movement_step :: f32

definition movement_step :: f32 where "movement_step = 0x3f800000"

definition default_options :: options where
  "default_options = \<lparr>op_port = default_port_v4, op_name = ascii ''bedrock-runtime'', op_dump = None,
     op_stage = StageSpawn, op_movement_step = movement_step\<rparr>"

datatype arguments =
    Run options
  | Informed
  | Missing bytes
  | Unparsable bytes bytes
  | UnknownStage bytes
  | UnknownArgument bytes

text \<open>\<open>Informed\<close> is \<^verbatim>\<open>Ok(None)\<close>, after the help or the version; \<open>UnknownArgument\<close> is \<^verbatim>\<open>exit(2)\<close>; the
  three in between are \<^verbatim>\<open>Err\<close>.\<close>

fun parse_args :: "bytes list \<Rightarrow> options \<Rightarrow> arguments" where
  "parse_args [] op = Run op"
| "parse_args (arg # rest) op =
     (if arg = ascii ''-h'' \<or> arg = ascii ''--help'' \<or> arg = ascii ''-V'' \<or> arg = ascii ''--version'' then Informed
      else if arg \<in> {ascii ''--port'', ascii ''--name'', ascii ''--dump'', ascii ''--movement-step'', ascii ''--stop-after''}
      then
        (case rest of
           [] \<Rightarrow> Missing arg
         | v # rest \<Rightarrow>
             if arg = ascii ''--port''
             then (case parse_u16 v of None \<Rightarrow> Unparsable arg v | Some n \<Rightarrow> parse_args rest (op\<lparr>op_port := n\<rparr>))
             else if arg = ascii ''--name'' then parse_args rest (op\<lparr>op_name := v\<rparr>)
             else if arg = ascii ''--dump'' then parse_args rest (op\<lparr>op_dump := Some v\<rparr>)
             else if arg = ascii ''--movement-step''
             then (case f32_parse v of None \<Rightarrow> Unparsable arg v | Some x \<Rightarrow> parse_args rest (op\<lparr>op_movement_step := x\<rparr>))
             else (case stage_parse v of None \<Rightarrow> UnknownStage v | Some st \<Rightarrow> parse_args rest (op\<lparr>op_stage := st\<rparr>)))
      else UnknownArgument arg)"

section \<open>Reports\<close>

definition hex_digit :: "nat \<Rightarrow> u8" where
  "hex_digit n = of_nat (if n < 10 then 0x30 + n else 0x57 + n)"

definition hex_byte :: "u8 \<Rightarrow> bytes" where
  "hex_byte b = [hex_digit (unat b div 16), hex_digit (unat b mod 16)]"

fun join_with :: "bytes \<Rightarrow> bytes list \<Rightarrow> bytes" where
  "join_with sep [] = []"
| "join_with sep [x] = x"
| "join_with sep (x # xs) = x @ sep @ join_with sep xs"

definition head :: "bytes \<Rightarrow> bytes" where
  "head b =
     (let shown = min (length b) 48;
          out = join_with (ascii '' '') (map hex_byte (take shown b))
      in if length b > shown then out @ ascii ''  ... +'' @ decimal (length b - shown) @ ascii '' bytes'' else out)"

text \<open>What a report does: it prints about an event, the start of a packet, or a place on the trail, or it
  writes a file into a directory.\<close>

datatype effect =
    Says server_event
  | Shows bytes
  | Trail socket_addr f32 f32 f32
  | Writes bytes bytes bytes

text \<open>\<^verbatim>\<open>{captured:04}\<close>: at least four digits.\<close>

definition decimal_4 :: "nat \<Rightarrow> bytes" where
  "decimal_4 n = replicate (4 - length (decimal n)) 0x30 @ decimal n"

definition save :: "options \<Rightarrow> bytes \<Rightarrow> bytes \<Rightarrow> nat \<Rightarrow> effect list \<times> nat" where
  "save op label b captured =
     (case op_dump op of
        None \<Rightarrow> ([], captured)
      | Some dir \<Rightarrow> ([Writes dir (decimal_4 captured @ ascii ''-'' @ label @ ascii ''.bin'') b], captured + 1))"

definition f32_abs :: "f32 \<Rightarrow> f32" where
  "f32_abs x = x AND 0x7fffffff"

text \<open>\<^verbatim>\<open>f32::max\<close> ignores one NaN; a comparison with one is false.\<close>

definition f32_ge :: "f32 \<Rightarrow> f32 \<Rightarrow> bool" where
  "f32_ge x y \<longleftrightarrow> \<not> f32_is_nan x \<and> \<not> f32_is_nan y \<and> f32_units y \<le> f32_units x"

definition f32_max :: "f32 \<Rightarrow> f32 \<Rightarrow> f32" where
  "f32_max x y = (if f32_is_nan x then y else if f32_is_nan y then x else if f32_units y \<le> f32_units x then x else y)"

definition far_enough :: "f32 \<Rightarrow> (f32 \<times> f32 \<times> f32) option \<Rightarrow> f32 \<Rightarrow> f32 \<Rightarrow> f32 \<Rightarrow> bool" where
  "far_enough step last_position x y z \<longleftrightarrow>
     (case last_position of
        None \<Rightarrow> True
      | Some (px, py, pz) \<Rightarrow>
          f32_ge (f32_max (f32_max (f32_abs (f32_sub x px)) (f32_abs (f32_sub y py))) (f32_abs (f32_sub z pz))) step)"

record reported =
  rp_captured :: nat
  rp_position :: "(f32 \<times> f32 \<times> f32) option"

definition report :: "options \<Rightarrow> server_event \<Rightarrow> reported \<Rightarrow> effect list \<times> reported" where
  "report op event r =
     (case event of
        SPlayerMoved peer x y z \<Rightarrow>
          if far_enough (op_movement_step op) (rp_position r) x y z
          then ([Trail peer x y z], r\<lparr>rp_position := Some (x, y, z)\<rparr>)
          else ([], r)
      | SUnhandled peer i body \<Rightarrow>
          (case save op (ascii ''packet-'' @ decimal (unat i)) body (rp_captured r) of
             (files, n) \<Rightarrow> ([Says event, Shows (head body)] @ files, r\<lparr>rp_captured := n\<rparr>))
      | SUndecodable peer payload \<Rightarrow>
          (case save op (ascii ''undecodable'') payload (rp_captured r) of
             (files, n) \<Rightarrow> ([Says event, Shows (head payload)] @ files, r\<lparr>rp_captured := n\<rparr>))
      | SChunksStreamed peer x z columns \<Rightarrow> (if columns > 0 then [Says event] else [], r)
      | _ \<Rightarrow> ([Says event], r))"

fun report_all :: "options \<Rightarrow> server_event list \<Rightarrow> reported \<Rightarrow> effect list \<times> reported" where
  "report_all op [] r = ([], r)"
| "report_all op (e # es) r =
     (case report op e r of (out, r) \<Rightarrow> case report_all op es r of (rest, r) \<Rightarrow> (out @ rest, r))"

section \<open>The loop\<close>

definition server_guid :: i64 where "server_guid = 0x0bed0c0000000003"

definition key_refresh :: duration where "key_refresh = 3600 * 10 ^ 9"

definition receive_buffer :: nat where "receive_buffer = 2048"

record 'k running =
  ru_server :: "'k server"
  ru_last_refresh :: instant
  ru_reported :: reported

text \<open>Before the loop; \<open>fetched\<close> is what the issuer answered, with the clocks at that moment.\<close>

definition boot :: "options \<Rightarrow> socket_addr \<Rightarrow> jwks option \<Rightarrow> i64 \<Rightarrow> instant \<Rightarrow> instant \<Rightarrow> 'k running option" where
  "boot op local fetched unix_now fetched_at now =
     map_option (\<lambda>s.
         let s = set_stage (op_stage op) s;
             s = (case fetched of Some keys \<Rightarrow> set_identity_keys keys unix_now fetched_at s | None \<Rightarrow> s)
         in \<lparr>ru_server = s, ru_last_refresh = now, ru_reported = \<lparr>rp_captured = 0, rp_position = None\<rparr>\<rparr>)
       (new_server local server_guid (server_advertisement (op_name op) 0 10 (op_port op) server_guid))"

text \<open>What a pass finds: the clocks (the wall clock is read again when the keys are), the issuer's answer if
  it is asked, a datagram if one came, and the order the table of sessions is walked in.\<close>

record pass =
  pa_now :: instant
  pa_unix :: i64
  pa_unix_refresh :: i64
  pa_fetched :: "jwks option"
  pa_datagram :: "(socket_addr \<times> bytes) option"
  pa_order :: "socket_addr list"

function send_out :: "'k server \<Rightarrow> (socket_addr \<times> bytes) list \<times> 'k server" where
  "send_out s =
     (case server_poll_transmit s of
        (None, s) \<Rightarrow> ([], s)
      | (Some d, s) \<Rightarrow> (case send_out s of (ds, s) \<Rightarrow> (d # ds, s)))"
  by pat_completeness auto
termination send_out
  by (relation "measure (\<lambda>s. length (li_outbox (sv_listener s)))")
    (auto simp: server_poll_transmit_def listener_poll_transmit_def split: list.splits)

declare send_out.simps [simp del]

definition run_pass :: "'k primitives \<Rightarrow> options \<Rightarrow> pass \<Rightarrow> 'k running
    \<Rightarrow> (effect list \<times> (socket_addr \<times> bytes) list \<times> 'k running) option" where
  "run_pass p op i r =
     (let now = pa_now i;
          s = set_clock (pa_unix i) now (ru_server r);
          due = (now - ru_last_refresh r \<ge> key_refresh);
          s = (case (if due then pa_fetched i else None) of
                 Some keys \<Rightarrow> set_identity_keys keys (pa_unix_refresh i) now s | None \<Rightarrow> s)
      in case (case pa_datagram i of
                 None \<Rightarrow> Some ([], s)
               | Some (from, b) \<Rightarrow> server_receive p from (take receive_buffer b) now s) of
           None \<Rightarrow> None
         | Some (es, s) \<Rightarrow>
             (case server_tick (pa_order i) now s of
                None \<Rightarrow> None
              | Some (es', s) \<Rightarrow>
                  (case report_all op (es @ es') (ru_reported r) of
                     (out, reported) \<Rightarrow>
                       (case send_out s of
                          (ds, s) \<Rightarrow> Some (out, ds,
                            \<lparr>ru_server = s, ru_last_refresh = (if due then now else ru_last_refresh r),
                             ru_reported = reported\<rparr>)))))"

fun run_passes :: "'k primitives \<Rightarrow> options \<Rightarrow> pass list \<Rightarrow> 'k running
    \<Rightarrow> ((effect list \<times> (socket_addr \<times> bytes) list) list \<times> 'k running) option" where
  "run_passes p op [] r = Some ([], r)"
| "run_passes p op (i # inputs) r =
     (case run_pass p op i r of
        None \<Rightarrow> None
      | Some (out, ds, r) \<Rightarrow> map_option (\<lambda>(rest, r). ((out, ds) # rest, r)) (run_passes p op inputs r))"

section \<open>What a pass keeps\<close>

lemma poll_transmit_cases:
  "server_poll_transmit s =
     (case li_outbox (sv_listener s) of
        [] \<Rightarrow> (None, s)
      | d # ds \<Rightarrow> (Some d, s\<lparr>sv_listener := (sv_listener s)\<lparr>li_outbox := ds\<rparr>\<rparr>))"
  by (simp add: server_poll_transmit_def listener_poll_transmit_def split: list.splits)

lemma send_out_all:
  "send_out s = (li_outbox (sv_listener s), s\<lparr>sv_listener := (sv_listener s)\<lparr>li_outbox := []\<rparr>\<rparr>)"
proof (induction "li_outbox (sv_listener s)" arbitrary: s)
  case Nil
  then have "li_outbox (sv_listener s) = []" by simp
  moreover from this have "s\<lparr>sv_listener := (sv_listener s)\<lparr>li_outbox := []\<rparr>\<rparr> = s" by (cases s, cases "sv_listener s") simp
  ultimately show ?case by (simp add: send_out.simps[of s] poll_transmit_cases)
next
  case (Cons d ds)
  let ?s = "s\<lparr>sv_listener := (sv_listener s)\<lparr>li_outbox := ds\<rparr>\<rparr>"
  have "send_out ?s = (ds, ?s\<lparr>sv_listener := (sv_listener ?s)\<lparr>li_outbox := []\<rparr>\<rparr>)" using Cons(1)[of ?s] by simp
  then show ?case using Cons(2)[symmetric] by (simp add: send_out.simps[of s] poll_transmit_cases)
qed

lemma send_out_reachable: "server_reachable p s \<Longrightarrow> server_reachable p (snd (send_out s))"
proof (induction s rule: send_out.induct)
  case (1 s)
  show ?case
  proof (cases "server_poll_transmit s")
    case (Pair d s1)
    have "server_reachable p s1" using 1(2) Pair by (rule server_reachable.transmitted)
    then show ?thesis using 1(1)[OF Pair[symmetric]] Pair
      by (cases d) (simp_all add: send_out.simps[of s] split_beta)
  qed
qed

text \<open>What a pass does to the server is a sequence of the steps a caller may take.\<close>

definition refreshed :: "pass \<Rightarrow> 'k running \<Rightarrow> 'k server" where
  "refreshed i r =
     (case (if pa_now i - ru_last_refresh r \<ge> key_refresh then pa_fetched i else None) of
        Some keys \<Rightarrow> set_identity_keys keys (pa_unix_refresh i) (pa_now i) (set_clock (pa_unix i) (pa_now i) (ru_server r))
      | None \<Rightarrow> set_clock (pa_unix i) (pa_now i) (ru_server r))"

lemma run_pass_unfold:
  "run_pass p op i r =
     (case (case pa_datagram i of
              None \<Rightarrow> Some ([], refreshed i r)
            | Some (from, b) \<Rightarrow> server_receive p from (take receive_buffer b) (pa_now i) (refreshed i r)) of
        None \<Rightarrow> None
      | Some (es, s) \<Rightarrow>
          (case server_tick (pa_order i) (pa_now i) s of
             None \<Rightarrow> None
           | Some (es', s) \<Rightarrow>
               (case report_all op (es @ es') (ru_reported r) of
                  (out, reported) \<Rightarrow>
                    (case send_out s of
                       (ds, s) \<Rightarrow> Some (out, ds,
                         \<lparr>ru_server = s,
                          ru_last_refresh = (if pa_now i - ru_last_refresh r \<ge> key_refresh then pa_now i else ru_last_refresh r),
                          ru_reported = reported\<rparr>)))))"
  by (simp only: run_pass_def refreshed_def Let_def)

lemma run_pass_steps:
  assumes "run_pass p op i r = Some (out, ds, r')"
  shows "\<exists>es s1 es' s2. (case pa_datagram i of None \<Rightarrow> Some ([], refreshed i r)
        | Some (from, b) \<Rightarrow> server_receive p from (take receive_buffer b) (pa_now i) (refreshed i r)) = Some (es, s1)
    \<and> server_tick (pa_order i) (pa_now i) s1 = Some (es', s2)
    \<and> (out, ru_reported r') = report_all op (es @ es') (ru_reported r)
    \<and> (ds, ru_server r') = send_out s2"
  using assms
  by (auto simp: run_pass_unfold simp del: report_all.simps split: option.splits prod.splits if_splits)

lemma run_pass_reachable:
  assumes "run_pass p op i r = Some (out, ds, r')" "server_reachable p (ru_server r)"
  shows "server_reachable p (ru_server r')"
proof -
  obtain es s1 es' s2 where st: "(case pa_datagram i of None \<Rightarrow> Some ([], refreshed i r)
        | Some (from, b) \<Rightarrow> server_receive p from (take receive_buffer b) (pa_now i) (refreshed i r)) = Some (es, s1)"
    "server_tick (pa_order i) (pa_now i) s1 = Some (es', s2)" "(ds, ru_server r') = send_out s2"
    using run_pass_steps[OF assms(1)] by blast
  have "server_reachable p (refreshed i r)"
    unfolding refreshed_def using server_reachable.keys_set server_reachable.clock_set assms(2) by (metis option.case_eq_if)
  then have "server_reachable p s1"
    using st(1) by (auto split: option.splits prod.splits intro: server_reachable.received)
  then have "server_reachable p s2" using st(2) by (rule server_reachable.ticked)
  from send_out_reachable[OF this] show ?thesis using st(3) by (metis snd_conv)
qed

lemma run_pass_frame:
  assumes "run_pass p op i r = Some (out, ds, r')" "server_inv (ru_server r)"
  shows "sv_stage (ru_server r') = sv_stage (ru_server r)"
    "sv_identity_keys (ru_server r') = sv_identity_keys (refreshed i r)" "sv_clock (ru_server r') = sv_clock (refreshed i r)"
    "li_outbox (sv_listener (ru_server r')) = []"
proof -
  obtain es s1 es' s2 where st: "(case pa_datagram i of None \<Rightarrow> Some ([], refreshed i r)
        | Some (from, b) \<Rightarrow> server_receive p from (take receive_buffer b) (pa_now i) (refreshed i r)) = Some (es, s1)"
    "server_tick (pa_order i) (pa_now i) s1 = Some (es', s2)" "(ds, ru_server r') = send_out s2"
    using run_pass_steps[OF assms(1)] by blast
  have inv: "server_inv (refreshed i r)"
    using assms(2) by (simp add: refreshed_def set_identity_keys_def set_clock_def split: option.splits)
  have "sv_stage s1 = sv_stage (refreshed i r) \<and> sv_identity_keys s1 = sv_identity_keys (refreshed i r)
      \<and> sv_clock s1 = sv_clock (refreshed i r)"
  proof (cases "pa_datagram i")
    case (Some d)
    then have "server_receive p (fst d) (take receive_buffer (snd d)) (pa_now i) (refreshed i r) = Some (es, s1)"
      using st(1) by (simp add: split_beta)
    from handled_receive[OF inv this] show ?thesis by (simp add: handled_def same_frame_def)
  qed (use st(1) in simp)
  moreover obtain l where "s2 = s1\<lparr>sv_listener := l\<rparr>" using server_tick_listener[OF st(2)] by blast
  moreover have "ru_server r' = s2\<lparr>sv_listener := (sv_listener s2)\<lparr>li_outbox := []\<rparr>\<rparr>" using st(3) by (simp add: send_out_all)
  moreover have "sv_stage (refreshed i r) = sv_stage (ru_server r)"
    by (simp add: refreshed_def set_identity_keys_def set_clock_def split: option.splits)
  ultimately show "sv_stage (ru_server r') = sv_stage (ru_server r)"
    "sv_identity_keys (ru_server r') = sv_identity_keys (refreshed i r)" "sv_clock (ru_server r') = sv_clock (refreshed i r)"
    "li_outbox (sv_listener (ru_server r')) = []" by simp_all
qed

text \<open>The keys after a pass: the new ones if they were due and came, else the ones from before.\<close>

definition keys_after :: "pass \<Rightarrow> 'k running \<Rightarrow> jwks option" where
  "keys_after i r = (case (if pa_now i - ru_last_refresh r \<ge> key_refresh then pa_fetched i else None) of
     Some keys \<Rightarrow> Some keys | None \<Rightarrow> sv_identity_keys (ru_server r))"

lemma refreshed_keys: "sv_identity_keys (refreshed i r) = keys_after i r" "sv_clock (refreshed i r) \<noteq> None"
  by (simp_all add: refreshed_def keys_after_def set_identity_keys_def set_clock_def split: option.splits)

lemma run_passes_keep:
  assumes "run_passes p op inputs r = Some (outs, r')" "server_reachable p (ru_server r)"
  shows "server_reachable p (ru_server r') \<and> sv_stage (ru_server r') = sv_stage (ru_server r)
    \<and> (inputs \<noteq> [] \<longrightarrow> li_outbox (sv_listener (ru_server r')) = [] \<and> sv_clock (ru_server r') \<noteq> None)
    \<and> (sv_identity_keys (ru_server r) \<noteq> None \<longrightarrow> sv_identity_keys (ru_server r') \<noteq> None)
    \<and> length outs = length inputs"
  using assms
proof (induction inputs arbitrary: r outs)
  case (Cons i inputs)
  obtain out ds r1 rest where st: "run_pass p op i r = Some (out, ds, r1)" "run_passes p op inputs r1 = Some (rest, r')"
    "outs = (out, ds) # rest"
    using Cons.prems(1) by (auto split: option.splits prod.splits)
  have inv: "server_inv (ru_server r)" using reachable_inv[OF Cons.prems(2)] by simp
  note frame = run_pass_frame[OF st(1) inv]
  have keys: "sv_identity_keys (ru_server r) \<noteq> None \<longrightarrow> sv_identity_keys (ru_server r1) \<noteq> None"
    unfolding frame(2) refreshed_keys keys_after_def by (simp split: option.splits)
  note ih = Cons.IH[OF st(2) run_pass_reachable[OF st(1) Cons.prems(2)]]
  show ?case
  proof (cases inputs)
    case Nil
    then show ?thesis using ih st frame keys refreshed_keys(2)[of i r] by simp
  next
    case (Cons j js)
    then show ?thesis using ih st(3) frame(1) keys by simp
  qed
qed simp

lemma boot_reachable:
  assumes "boot op local fetched u t now = Some r"
  shows "server_reachable p (ru_server r) \<and> sv_stage (ru_server r) = op_stage op \<and> sv_identity_keys (ru_server r) = fetched"
proof -
  obtain s where s: "new_server local server_guid (server_advertisement (op_name op) 0 10 (op_port op) server_guid) = Some s"
    and r: "ru_server r = (case fetched of Some keys \<Rightarrow> set_identity_keys keys u t (set_stage (op_stage op) s)
      | None \<Rightarrow> set_stage (op_stage op) s)"
    using assms by (auto simp: boot_def Let_def)
  have "server_reachable p (set_stage (op_stage op) s)"
    using server_reachable.stage_set[OF server_reachable.started[OF s[unfolded new_server_def]]] .
  moreover have "sv_identity_keys s = None" using s by (auto simp: new_server_def server_with_config_def)
  ultimately show ?thesis
    using r server_reachable.keys_set[of p "set_stage (op_stage op) s"]
    by (auto simp: set_identity_keys_def set_clock_def set_stage_def split: option.splits)
qed

section \<open>Arguments as they are meant\<close>

datatype choice = PortIs u16 | NameIs bytes | DumpTo bytes | StepIs bytes f32 | StopAfter stage

fun stage_name :: "stage \<Rightarrow> bytes" where
  "stage_name StageStartGame = ascii ''start-game''"
| "stage_name StageWorld = ascii ''world''"
| "stage_name StageRadius = ascii ''radius''"
| "stage_name StageChunks = ascii ''chunks''"
| "stage_name StageSpawn = ascii ''spawn''"

fun given :: "choice \<Rightarrow> bytes list" where
  "given (PortIs n) = [ascii ''--port'', decimal (unat n)]"
| "given (NameIs b) = [ascii ''--name'', b]"
| "given (DumpTo b) = [ascii ''--dump'', b]"
| "given (StepIs t x) = [ascii ''--movement-step'', t]"
| "given (StopAfter st) = [ascii ''--stop-after'', stage_name st]"

fun chosen :: "choice \<Rightarrow> options \<Rightarrow> options" where
  "chosen (PortIs n) op = op\<lparr>op_port := n\<rparr>"
| "chosen (NameIs b) op = op\<lparr>op_name := b\<rparr>"
| "chosen (DumpTo b) op = op\<lparr>op_dump := Some b\<rparr>"
| "chosen (StepIs t x) op = op\<lparr>op_movement_step := x\<rparr>"
| "chosen (StopAfter st) op = op\<lparr>op_stage := st\<rparr>"

fun choice_ok :: "choice \<Rightarrow> bool" where
  "choice_ok (StepIs t x) \<longleftrightarrow> f32_parse t = Some x"
| "choice_ok _ \<longleftrightarrow> True"

definition valued :: "bytes set" where
  "valued = {ascii ''--port'', ascii ''--name'', ascii ''--dump'', ascii ''--movement-step'', ascii ''--stop-after''}"

definition informing :: "bytes set" where
  "informing = {ascii ''-h'', ascii ''--help'', ascii ''-V'', ascii ''--version''}"

lemma stage_name_parses: "stage_parse (stage_name st) = Some st"
  by (cases st) (simp_all add: stage_parse_def ascii_def)

lemma parse_u16_decimal: "parse_u16 (decimal (unat n)) = Some n"
  using unsigned_less[where ?'a = nat, of n] by (simp add: parse_u16_def parse_unsigned_decimal)

lemma parse_one_choice: "choice_ok c \<Longrightarrow> parse_args (given c @ rest) op = parse_args rest (chosen c op)"
  by (cases c) (simp_all add: parse_u16_decimal stage_name_parses, simp_all add: ascii_def)

lemma parse_choices: "list_all choice_ok cs \<Longrightarrow> parse_args (concat (map given cs) @ rest) op = parse_args rest (fold chosen cs op)"
proof (induction cs arbitrary: op)
  case (Cons c cs)
  then show ?case using parse_one_choice[of c "concat (map given cs) @ rest"] by simp
qed simp

section \<open>A boot\<close>

lemma boots: "\<exists>r0. boot default_options unassigned (Some []) 950 0 0 = Some r0"
  by (simp add: boot_def default_options_def new_server_def server_with_config_def new_listener_def string_truncate_def
      server_advertisement_def default_listener_config_def ascii_def decimal.simps decimal_int_def server_guid_def
      game_protocol_version_def minecraft_version_def default_port_v4_def Let_def)

lemma booted_fresh:
  assumes "boot op local fetched u t now = Some r"
  shows "listener_inv (sv_listener (ru_server r))" "hm_get (li_sessions (sv_listener (ru_server r))) peer = None"
    "listener_sessions (sv_listener (ru_server r)) < max_sessions (li_config (sv_listener (ru_server r)))"
proof -
  obtain s where s: "new_server local server_guid (server_advertisement (op_name op) 0 10 (op_port op) server_guid) = Some s"
    and at: "ru_server r = (case fetched of Some keys \<Rightarrow> set_identity_keys keys u t (set_stage (op_stage op) s)
      | None \<Rightarrow> set_stage (op_stage op) s)"
    using assms by (auto simp: boot_def Let_def)
  then have r: "sv_listener (ru_server r) = sv_listener s"
    by (simp add: set_identity_keys_def set_clock_def set_stage_def split: option.splits)
  from s r obtain l where l: "new_listener local server_guid (server_advertisement (op_name op) 0 10 (op_port op) server_guid)
      default_listener_config = Some l" "sv_listener (ru_server r) = l"
    by (auto simp: new_server_def server_with_config_def)
  have parts: "li_sessions l = hm_new" "li_config l = default_listener_config" using l(1) by (auto simp: new_listener_def)
  show "listener_inv (sv_listener (ru_server r))" using listener_inv_new[OF l(1)] l(2) by simp
  show "hm_get (li_sessions (sv_listener (ru_server r))) peer = None"
    "listener_sessions (sv_listener (ru_server r)) < max_sessions (li_config (sv_listener (ru_server r)))"
    using l(2) parts by (simp_all add: listener_sessions_def hm_len_def hm_get_def hm_new_def default_listener_config_def)
qed

text \<open>A name whose bytes are cut inside a character ends the process at boot.\<close>

lemma boot_panics_on_a_name_cut_short:
  "boot (default_options\<lparr>op_name := concat (replicate 130 [0xC3, 0xA9])\<rparr>) local fetched u t now = None"
proof -
  have nth: "concat (replicate n [a, b]) ! (2 * k + 1) = b" if "k < n" for n k and a b :: u8
    using that by (induction n arbitrary: k) (auto simp: nth_Cons' less_Suc_eq_0_disj)
  have "(ascii ''MCPE;'' @ concat (replicate 130 [0xC3, 0xA9]) @ rest) ! 256 = 0xA9"
    "256 < length (ascii ''MCPE;'' @ concat (replicate 130 [0xC3, 0xA9]) @ rest)" for rest :: bytes
    using nth[of 125 130 "0xC3" "0xA9"] by (simp_all add: ascii_def nth_append length_concat sum_list_replicate)
  moreover have "string_truncate 256 a = None" if "a ! 256 = 0xA9" "256 < length a" for a
    using that by (simp add: string_truncate_def utf8_tail_def)
  ultimately have "string_truncate 256 (ascii ''MCPE;'' @ concat (replicate 130 [0xC3, 0xA9]) @ rest) = None" for rest :: bytes
    by blast
  then show ?thesis
    by (simp add: boot_def new_server_def server_with_config_def new_listener_def default_options_def
        server_advertisement_def default_listener_config_def)
qed

section \<open>Properties\<close>

text \<open>C6: The binary runs the server only through states the server's properties cover, however the clocks, the
  network and the issuer behave: after any passes of its loop that end without a panic, the server is one a caller
  can reach, at the stage the arguments chose, with nothing left to send and the clock of the last pass set;
  keys once loaded are never lost, not by a refresh that fails either.\<close>

theorem running_server_is_reachable:
  assumes "boot op local fetched u t now = Some r0" "run_passes p op inputs r0 = Some (outs, r)"
  shows "server_reachable p (ru_server r) \<and> sv_stage (ru_server r) = op_stage op \<and> length outs = length inputs
    \<and> (inputs \<noteq> [] \<longrightarrow> li_outbox (sv_listener (ru_server r)) = [])
    \<and> (inputs \<noteq> [] \<and> fetched \<noteq> None \<longrightarrow> can_verify_identity (ru_server r))"
  using boot_reachable[OF assms(1), of p] run_passes_keep[OF assms(2)] by (auto simp: can_verify_identity_def)

lemma running_server_is_reachable_witness:
  "\<exists>(r0 :: nat running) outs r. boot default_options unassigned (Some []) 950 0 0 = Some r0
    \<and> run_passes toy_primitives default_options [\<lparr>pa_now = key_refresh, pa_unix = 4550, pa_unix_refresh = 4550,
        pa_fetched = None, pa_datagram = Some (guest, encode_request_2 unassigned 1200 0 None), pa_order = []\<rparr>] r0 = Some (outs, r)
    \<and> can_verify_identity (ru_server r) \<and> li_outbox (sv_listener (ru_server r)) = []"
proof -
  obtain r0 :: "nat running" where r0: "boot default_options unassigned (Some []) 950 0 0 = Some r0" using boots by blast
  note fresh = booted_fresh[OF r0]
  let ?i = "\<lparr>pa_now = key_refresh, pa_unix = 4550, pa_unix_refresh = 4550, pa_fetched = None,
      pa_datagram = Some (guest, encode_request_2 unassigned 1200 0 None), pa_order = []\<rparr>"
  have same: "sv_listener (refreshed ?i r0) = sv_listener (ru_server r0)" by (simp add: refreshed_def set_clock_def)
  have "server_sessions (refreshed ?i r0) < max_sessions (li_config (sv_listener (refreshed ?i r0)))"
    using fresh(3) by (simp add: server_sessions_def same)
  then obtain l where l: "server_receive toy_primitives guest (encode_request_2 unassigned 1200 0 None) key_refresh (refreshed ?i r0)
      = Some ([], (refreshed ?i r0)\<lparr>sv_listener := l\<rparr>)"
    using open_step[of "refreshed ?i r0" guest] fresh(1,2) unfolding same by blast
  have short: "take receive_buffer (encode_request_2 unassigned 1200 0 None) = encode_request_2 unassigned 1200 0 None"
    using request_2_parts(1)[of unassigned 1200 0] by (simp add: receive_buffer_def)
  have "\<exists>out ds r. run_pass toy_primitives default_options ?i r0 = Some (out, ds, r)"
    using l by (simp add: run_pass_unfold short server_tick_def listener_tick_def split_beta)
  then obtain outs r where r: "run_passes toy_primitives default_options [?i] r0 = Some (outs, r)" by auto
  show ?thesis using running_server_is_reachable[OF r0 r] r0 r by auto
qed

text \<open>C39: The arguments are read as they are given: any sequence of options with values that parse yields the
  defaults with each option applied in turn, the last one of a kind winning; what follows them decides the
  rest: an option without its value, a request for help or the version, or an argument nobody knows.\<close>

theorem options_read_as_given:
  assumes "list_all choice_ok cs"
  shows "parse_args (concat (map given cs)) op = Run (fold chosen cs op)
    \<and> (flag \<in> valued \<longrightarrow> parse_args (concat (map given cs) @ [flag]) op = Missing flag)
    \<and> (flag \<in> informing \<longrightarrow> parse_args (concat (map given cs) @ flag # rest) op = Informed)
    \<and> (flag \<notin> valued \<union> informing \<longrightarrow> parse_args (concat (map given cs) @ flag # rest) op = UnknownArgument flag)"
proof -
  have "flag \<in> valued \<Longrightarrow> flag \<notin> informing" by (auto simp: valued_def informing_def ascii_def)
  then show ?thesis
    using parse_choices[OF assms, of "[]" op] parse_choices[OF assms, of "[flag]" op] parse_choices[OF assms, of "flag # rest" op]
    by (auto simp: valued_def informing_def)
qed

lemma options_read_as_given_witness:
  "parse_args [ascii ''--port'', decimal 7000, ascii ''--stop-after'', ascii ''world'', ascii ''--port'', decimal 7001, ascii ''--wat'']
     default_options = UnknownArgument (ascii ''--wat'')
    \<and> parse_args [ascii ''--movement-step'', ascii ''0.1''] default_options = Run (default_options\<lparr>op_movement_step := 0x3dcccccd\<rparr>)"
proof -
  have "ascii ''--wat'' \<notin> valued \<union> informing" by (simp add: valued_def informing_def ascii_def)
  then show ?thesis
    using options_read_as_given[of "[PortIs 7000, StopAfter StageWorld, PortIs 7001]" default_options "ascii ''--wat''" "[]"]
      options_read_as_given[of "[StepIs (ascii ''0.1'') 0x3dcccccd]" default_options "[]" "[]"]
    by (simp add: f32_parse_examples(1) del: parse_args.simps)
qed

end
