(* ===== verification/Client.thy ===== *)
theory Client
  imports Datagram Online Offline
begin

text \<open>
  \<^verbatim>\<open>bedrock-raknet/examples/connect.rs\<close>: a client that opens a connection, answers the handshake
  inside it, and hangs up.  What the socket yields is an argument (\<^const>\<open>None\<close> is a timeout), what is sent is
  returned; printing and saving are left out.
\<close>

section \<open>Sending\<close>

definition client_guid :: i64 where "client_guid = 0x0bed0c0000000002"

record client =
  cn_next_sequence :: u32
  cn_next_reliable :: u32
  cn_next_order :: u32

definition new_client :: client where
  "new_client = \<lparr>cn_next_sequence = 0, cn_next_reliable = 0, cn_next_order = 0\<rparr>"

definition client_send :: "bytes \<Rightarrow> client \<Rightarrow> bytes \<times> client" where
  "client_send payload c =
     (let frame = \<lparr>fr_reliability = ReliableOrdered, fr_reliable_index = cn_next_reliable c, fr_sequence_index = 0,
            fr_order_index = cn_next_order c, fr_order_channel = 0, fr_split = None, fr_payload = payload\<rparr>;
          c = c\<lparr>cn_next_reliable := cn_next_reliable c + 1, cn_next_order := cn_next_order c + 1\<rparr>;
          datagram = FrameSet \<lparr>fs_sequence = cn_next_sequence c, fs_frames = [frame]\<rparr>
      in (encode_datagram datagram new_writer, c\<lparr>cn_next_sequence := cn_next_sequence c + 1\<rparr>))"

definition client_ack :: "u32 \<Rightarrow> bytes" where
  "client_ack sequence = encode_datagram (Ack (ack_single sequence)) new_writer"

section \<open>Opening\<close>

datatype opened =
    Opened u16 "u32 option"
  | Incompatible incompatible_protocol_version
  | UnexpectedReply
  | NoAnswer
  | MtuTooSmall
  | OpeningFails connect_error

definition reply_outcome :: "bytes \<Rightarrow> opened" where
  "reply_outcome raw =
     (case raw of
        [] \<Rightarrow> UnexpectedReply
      | i # _ \<Rightarrow>
          if i = id_open_connection_reply_1
          then (case decode_reply_1 raw of Inl e \<Rightarrow> OpeningFails e | Inr reply \<Rightarrow> Opened (r1_mtu reply) (r1_cookie reply))
          else if i = id_incompatible_protocol_version
          then (case decode_incompatible raw of Inl e \<Rightarrow> OpeningFails e | Inr v \<Rightarrow> Incompatible v)
          else UnexpectedReply)"

text \<open>The walk down the ladder, with what is received after each request.\<close>

fun client_open :: "nat list \<Rightarrow> bytes option list \<Rightarrow> bytes list \<times> opened" where
  "client_open [] replies = ([], NoAnswer)"
| "client_open (mtu # ladder) replies =
     (case encode_request_1 mtu of
        None \<Rightarrow> ([], MtuTooSmall)
      | Some request \<Rightarrow>
          (case replies of
             Some raw # _ \<Rightarrow> ([request], reply_outcome raw)
           | _ \<Rightarrow> (case client_open ladder (tl replies) of (requests, outcome) \<Rightarrow> (request # requests, outcome))))"

section \<open>The handshake inside the connection\<close>

datatype client_step = GoesOn | Finished | Fails online_error

text \<open>The loop over the frames of a datagram; \<open>time\<close> is the client's clock.\<close>

fun client_frames :: "socket_addr \<Rightarrow> i64 \<Rightarrow> frame list \<Rightarrow> client \<Rightarrow> bytes list \<times> client \<times> client_step" where
  "client_frames server time [] c = ([], c, GoesOn)"
| "client_frames server time (f # fs) c =
     (if fr_payload f \<noteq> [] \<and> hd (fr_payload f) = id_connection_request_accepted
      then (case decode_connection_request_accepted (fr_payload f) of
              Inl e \<Rightarrow> ([], c, Fails e)
            | Inr reply \<Rightarrow>
                (case client_send (encode_new_incoming_connection server (length (cra_system_addresses reply))
                        (cra_request_time reply) (cra_accepted_time reply)) c of
                   (d1, c) \<Rightarrow>
                     (case client_send (encode_connected_ping time) c of
                        (d2, c) \<Rightarrow>
                          (case client_frames server time fs c of (ds, c, st) \<Rightarrow> (d1 # d2 # ds, c, st)))))
      else if fr_payload f \<noteq> [] \<and> hd (fr_payload f) = id_connected_pong
      then (case decode_connected_pong (fr_payload f) of
              Inl e \<Rightarrow> ([], c, Fails e)
            | Inr pong \<Rightarrow> (case client_send encode_disconnect c of (d, c) \<Rightarrow> ([d], c, Finished)))
      else client_frames server time fs c)"

definition client_hear :: "socket_addr \<Rightarrow> i64 \<Rightarrow> bytes \<Rightarrow> client \<Rightarrow> bytes list \<times> client \<times> client_step" where
  "client_hear server time raw c =
     (case decode_datagram raw of
        Inr (FrameSet fs) \<Rightarrow>
          (case client_frames server time (fs_frames fs) c of
             (ds, c, st) \<Rightarrow> (client_ack (fs_sequence fs) # ds, c, st))
      | _ \<Rightarrow> ([], c, GoesOn))"

text \<open>The loop over what arrives, and the farewell when it ends without a pong.\<close>

fun client_loop :: "socket_addr \<Rightarrow> (bytes option \<times> i64) list \<Rightarrow> client \<Rightarrow> bytes list \<times> client \<times> client_step" where
  "client_loop server ((Some raw, time) # arrivals) c =
     (case client_hear server time raw c of
        (ds, c, GoesOn) \<Rightarrow> (case client_loop server arrivals c of (rest, c, st) \<Rightarrow> (ds @ rest, c, st))
      | (ds, c, st) \<Rightarrow> (ds, c, st))"
| "client_loop server arrivals c = (case client_send encode_disconnect c of (d, c) \<Rightarrow> ([d], c, Finished))"

definition client_connected :: "socket_addr \<Rightarrow> i64 \<Rightarrow> (bytes option \<times> i64) list \<Rightarrow> client \<Rightarrow> bytes list \<times> client \<times> client_step" where
  "client_connected server time arrivals c =
     (case client_send (encode_connection_request client_guid time) c of
        (d, c) \<Rightarrow> (case client_loop server (take 12 arrivals) c of (ds, c, st) \<Rightarrow> (d # ds, c, st)))"

section \<open>From end to end\<close>

datatype client_result =
    NotOpened opened
  | NoSecondReply
  | UnexpectedSecondReply
  | SecondReplyFails connect_error
  | Talked client_step

text \<open>An empty datagram leaves the first reply in the buffer, which is not the second either.\<close>

definition client_main :: "socket_addr \<Rightarrow> nat list \<Rightarrow> bytes option list \<Rightarrow> bytes option \<Rightarrow> i64
    \<Rightarrow> (bytes option \<times> i64) list \<Rightarrow> bytes list \<times> client_result" where
  "client_main server ladder replies reply_2 time arrivals =
     (case client_open ladder replies of
        (requests, Opened mtu cookie) \<Rightarrow>
          let requests = requests @ [encode_request_2 server mtu client_guid cookie]
          in (case reply_2 of
                None \<Rightarrow> (requests, NoSecondReply)
              | Some raw \<Rightarrow>
                  if raw = [] \<or> hd raw \<noteq> id_open_connection_reply_2 then (requests, UnexpectedSecondReply)
                  else
                    (case decode_reply_2 raw of
                       Inl e \<Rightarrow> (requests, SecondReplyFails e)
                     | Inr _ \<Rightarrow>
                         (case client_connected server time arrivals new_client of
                            (ds, _, st) \<Rightarrow> (requests @ ds, Talked st))))
      | (requests, outcome) \<Rightarrow> (requests, NotOpened outcome))"

end
