(* ===== verification/Delivery.thy ===== *)
theory Delivery
  imports Receiving
begin

text \<open>
  The two ends together: what one session sends is what the other hands to its caller, for
  datagrams that arrive in any order.  The frames of a payload are followed through the
  duplicate filter, the reassembler and the ordering of the receiver.
\<close>

section \<open>Permutations and partitions\<close>

lemma mset_map_ex:
  "mset xs = mset (map f ys) \<Longrightarrow> \<exists>zs. mset zs = mset ys \<and> map f zs = xs"
proof (induction xs arbitrary: ys)
  case Nil
  then show ?case by simp
next
  case (Cons x xs)
  then have "x \<in># mset (map f ys)" by (metis list.set_intros(1) set_mset_mset)
  then obtain y where y: "y \<in> set ys" "f y = x" by auto
  have perm: "mset (y # remove1 y ys) = mset ys" using y(1) by simp
  then have "mset (map f (y # remove1 y ys)) = mset (map f ys)"
    by (metis mset_map)
  then have "add_mset x (mset (map f (remove1 y ys))) = add_mset x (mset xs)"
    using Cons.prems y(2) by (metis list.simps(9) mset.simps(2))
  then have "mset xs = mset (map f (remove1 y ys))" by simp
  from Cons.IH[OF this] obtain zs where "mset zs = mset (remove1 y ys)" "map f zs = xs" by blast
  then show ?case using perm y by (intro exI[of _ "y # zs"]) simp
qed

text \<open>The parts of a list, as lists of positions.\<close>

lemma parts_as_positions:
  assumes "concat parts = drop k xs" "k \<le> length xs"
  shows "\<exists>idx. concat idx = [k..<length xs] \<and> parts = map (map (\<lambda>i. xs ! i)) idx"
  using assms
proof (induction parts arbitrary: k)
  case Nil
  then show ?case by (intro exI[of _ "[]"]) simp
next
  case (Cons p ps)
  have len: "length p \<le> length xs - k" using Cons.prems(1) by (metis concat.simps(2) le_add1 length_append length_drop)
  have rest: "concat ps = drop (k + length p) xs"
    using Cons.prems(1) by (metis append_eq_conv_conj concat.simps(2) drop_drop add.commute)
  have k': "k + length p \<le> length xs" using len Cons.prems(2) by simp
  have p: "p = take (length p) (drop k xs)" using Cons.prems(1) by (metis append_eq_conv_conj concat.simps(2))
  have "p = map (\<lambda>i. xs ! i) [k..<k + length p]"
    by (subst p) (rule nth_equalityI, use len in auto)
  moreover obtain idx where "concat idx = [k + length p..<length xs]" "ps = map (map (\<lambda>i. xs ! i)) idx"
    using Cons.IH[OF rest k'] by blast
  moreover have "[k..<length xs] = [k..<k + length p] @ [k + length p..<length xs]"
    using upt_add_eq_append[of k "k + length p" "length xs - (k + length p)"] k' by simp
  ultimately show ?case by (intro exI[of _ "[k..<k + length p] # idx"]) simp
qed

section \<open>One frame of the payload\<close>

text \<open>
  \<open>flows Q fs payload\<close>: in a reassembler state related by \<open>Q\<close> to the positions already seen, any
  further position is taken, and the last one completes the payload.
\<close>

definition flows :: "(nat set \<Rightarrow> reassembler \<Rightarrow> bool) \<Rightarrow> frame list \<Rightarrow> bytes \<Rightarrow> bool" where
  "flows Q fs payload \<longleftrightarrow> (\<forall>S i ra now. Q S ra \<longrightarrow> i \<notin> S \<longrightarrow> S \<subseteq> {..<length fs} \<longrightarrow> i < length fs \<longrightarrow>
     (if Suc (card S) < length fs
      then \<exists>ra'. reassembler_push (fs ! i) now ra = (Inr None, ra') \<and> Q (insert i S) ra'
      else \<exists>ra'. reassembler_push (fs ! i) now ra = (Inr (Some payload), ra')))"

text \<open>The numbers a session gives a frame do not concern the reassembler.\<close>

lemma reassembler_push_numbered [simp]:
  "reassembler_push (f\<lparr>fr_reliable_index := i, fr_order_index := j\<rparr>) now ra = reassembler_push f now ra"
  by (cases "fr_split f") (simp_all add: reassembler_push_def Let_def)

definition receiving :: "(nat set \<Rightarrow> reassembler \<Rightarrow> bool) \<Rightarrow> u32 set \<Rightarrow> u32 \<Rightarrow> u32 \<Rightarrow> ordering
    \<Rightarrow> nat set \<Rightarrow> session \<Rightarrow> bool" where
  "receiving Q H w rel od S t \<longleftrightarrow> \<not> is_closed t \<and> Q S (se_reassembler t) \<and> se_ordering t = od
     \<and> dd_window (se_dedup t) = w \<and> dedup_abs (H \<union> (\<lambda>i. rel + of_nat i) ` S) (se_dedup t)"

text \<open>The reliable index of a frame not seen yet is inside the window and new.\<close>

lemma fresh_index_accepted:
  assumes abs: "dedup_abs (H \<union> (\<lambda>i. rel + of_nat i) ` S) d" "dd_window d = w"
    and H: "\<forall>h \<in> H. unat h < unat rel" and n: "unat rel + n \<le> 2 ^ 24" "n \<le> unat w + 1"
    and i: "i \<notin> S" "S \<subseteq> {..<n}" "i < n"
  shows "fst (dedup_accept (rel + of_nat i) d)"
    and "dedup_abs (H \<union> (\<lambda>i. rel + of_nat i) ` insert i S) (snd (dedup_accept (rel + of_nat i) d))"
    and "dd_window (snd (dedup_accept (rel + of_nat i) d)) = w"
proof -
  let ?G = "H \<union> (\<lambda>i. rel + of_nat i) ` S"
  have u: "unat (rel + of_nat j) = unat rel + j" if "j < n" for j
    using that n(1) by (intro unat_add_small) simp
  have below: "unat g < unat rel + n" if "g \<in> ?G" for g
  proof -
    from that consider "g \<in> H" | j where "j \<in> S" "g = rel + of_nat j" by blast
    then show ?thesis
    proof cases
      case 1
      then have "unat g < unat rel" using H by blast
      then show ?thesis by simp
    next
      case (2 j)
      then have "j < n" using i(2) by auto
      then show ?thesis using 2(2) u by simp
    qed
  qed
  have new: "rel + of_nat i \<notin> ?G"
  proof
    assume "rel + of_nat i \<in> ?G"
    then consider "rel + of_nat i \<in> H" | j where "j \<in> S" "rel + of_nat i = rel + of_nat j" by blast
    then show False
    proof cases
      case 1
      then have "unat (rel + of_nat i) < unat rel" using H by blast
      then show False using u[OF i(3)] by simp
    next
      case (2 j)
      then have "j < n" using i(2) by auto
      then have "unat rel + i = unat rel + j" using u[OF i(3)] u[of j] 2(2) by metis
      then have "i = j" by simp
      then show False using 2(1) i(1) by simp
    qed
  qed
  have floor: "dedup_floor w ?G \<le> rel + of_nat i"
  proof (cases "?G = {}")
    case True
    then show ?thesis by (simp add: dedup_floor_def)
  next
    case False
    have "finite ?G" using abs(1) by (simp add: dedup_abs_def)
    then have "Max ?G \<in> ?G" using False by (rule Max_in)
    from below[OF this] have "unat (Max ?G) - unat w \<le> unat rel + i" using n(2) by simp
    then show ?thesis
      using False u[OF i(3)] by (simp add: dedup_floor_def word_le_nat_alt unat_word_saturating_sub)
  qed
  note r = dedup_accept_refines[OF abs(1), of "rel + of_nat i"]
  show acc: "fst (dedup_accept (rel + of_nat i) d)" using r(1) new floor abs(2) by simp
  show "dedup_abs (H \<union> (\<lambda>i. rel + of_nat i) ` insert i S) (snd (dedup_accept (rel + of_nat i) d))"
    using r(2) acc by simp
  show "dd_window (snd (dedup_accept (rel + of_nat i) d)) = w" using r(3) abs(2) by simp
qed

text \<open>A payload with the expected index, and nothing held behind it, comes out alone.\<close>

lemma ordering_push_expected:
  assumes "ordering_inv od" "bt_get (buffered od) (expected od + 1) = None" "0 < window od"
    and "expected od < 2 ^ 24"
  shows "\<exists>od'. ordering_push (expected od) payload od = (Inr [payload], od')"
proof -
  let ?m = "bt_insert (expected od) payload (buffered od)"
  have ok: "bt_ok (buffered od)" using assms(1) by (simp add: ordering_inv_def)
  have ne: "expected od + 1 \<noteq> expected od" by simp
  have get: "bt_get ?m (expected od) = Some payload" using ok by (simp add: bt.get_ins)
  have "bt_get (bt_remove (expected od) ?m) (expected od + 1) = None"
    using ok ne assms(2) by (simp add: bt.get_ins bt.get_del bt.invar_ins)
  then have "drain (expected od) ?m [] = ([payload], expected od + 1, bt_remove (expected od) ?m)"
    using get by (simp add: drain.simps[of "expected od"] drain.simps[of "expected od + 1"])
  moreover have "\<not> word_saturating_sub (expected od) (expected od) \<ge> window od"
    using assms(3) by (simp add: word_saturating_sub_def not_le)
  ultimately show ?thesis by (simp add: ordering_push_def)
qed

lemma handle_user_payload:
  assumes "user_payload p"
  shows "handle_payloads [p] out now s = (Inr (out @ [p]), s)"
proof -
  obtain i r where p: "p = i # r" "user_packet_start \<le> i" using assms by (cases p) (auto simp: user_payload_def)
  have "i \<noteq> id_connection_request" "i \<noteq> id_new_incoming_connection" "i \<noteq> id_connected_ping"
    "i \<noteq> id_connected_pong" "i \<noteq> id_disconnect"
    using p(2) by (auto simp: online_ids user_packet_start_def word_le_nat_alt)
  then show ?thesis by (simp add: handle_internal_def p)
qed

lemma receive_frame_step:
  assumes rcv: "receiving Q H w rel od S t" and fl: "flows Q fs payload"
    and H: "\<forall>h \<in> H. unat h < unat rel" and n: "unat rel + length fs \<le> 2 ^ 24" "length fs \<le> unat w + 1"
    and rels: "\<forall>f \<in> set fs. fr_reliability f = ReliableOrdered"
    and ord: "ordering_inv od" "bt_get (buffered od) (expected od + 1) = None" "0 < window od"
      "expected od < 2 ^ 24"
    and user: "user_payload payload"
    and i: "i \<notin> S" "S \<subseteq> {..<length fs}" "i < length fs"
  shows "if Suc (card S) < length fs
    then \<exists>t'. receive_frame (numbered rel (expected od) fs ! i) out now t = (Inr out, t')
           \<and> receiving Q H w rel od (insert i S) t'
    else \<exists>t'. receive_frame (numbered rel (expected od) fs ! i) out now t = (Inr (out @ [payload]), t')"
proof -
  let ?f = "numbered rel (expected od) fs ! i"
  have f: "?f = (fs ! i)\<lparr>fr_reliable_index := rel + of_nat i, fr_order_index := expected od\<rparr>"
    using i(3) by (rule numbered_nth)
  have rel: "fr_reliability (fs ! i) = ReliableOrdered" using rels i(3) by simp
  have open_t: "\<not> is_closed t" and q: "Q S (se_reassembler t)" and od: "se_ordering t = od"
    and dd: "dd_window (se_dedup t) = w" "dedup_abs (H \<union> (\<lambda>i. rel + of_nat i) ` S) (se_dedup t)"
    using rcv by (simp_all add: receiving_def)
  note fresh = fresh_index_accepted[OF dd(2,1) H n i]
  obtain d where d: "dedup_accept (rel + of_nat i) (se_dedup t) = (True, d)"
    using fresh(1) by (metis (full_types) prod.collapse)
  let ?t = "t\<lparr>se_dedup := d\<rparr>"
  show ?thesis
  proof (cases "Suc (card S) < length fs")
    case True
    then obtain ra where ra: "reassembler_push (fs ! i) now (se_reassembler t) = (Inr None, ra)"
      "Q (insert i S) ra" using fl q i by (fastforce simp: flows_def)
    have "receive_frame ?f out now t = (Inr out, ?t\<lparr>se_reassembler := ra\<rparr>)"
      using d ra(1) by (simp add: f rel receive_frame_def Let_def)
    moreover have "receiving Q H w rel od (insert i S) (?t\<lparr>se_reassembler := ra\<rparr>)"
      using open_t ra(2) od fresh(2,3) d by (simp add: receiving_def is_closed_def)
    ultimately show ?thesis using True by auto
  next
    case False
    then obtain ra where ra: "reassembler_push (fs ! i) now (se_reassembler t) = (Inr (Some payload), ra)"
      using fl q i by (fastforce simp: flows_def)
    obtain od' where od': "ordering_push (expected od) payload od = (Inr [payload], od')"
      using ordering_push_expected[OF ord] by blast
    have "receive_frame ?f out now t
        = handle_payloads [payload] out now (?t\<lparr>se_reassembler := ra, se_ordering := od'\<rparr>)"
      using d ra od od' by (simp add: f rel receive_frame_def Let_def is_ordered_def del: handle_payloads.simps)
    then show ?thesis using False handle_user_payload[OF user] by auto
  qed
qed

section \<open>A datagram, and all of them\<close>

text \<open>What the lemmas about runs of frames share.\<close>

definition delivers_to :: "(nat set \<Rightarrow> reassembler \<Rightarrow> bool) \<Rightarrow> frame list \<Rightarrow> bytes \<Rightarrow> u32 set \<Rightarrow> u32 \<Rightarrow> u32
    \<Rightarrow> ordering \<Rightarrow> bool" where
  "delivers_to Q fs payload H w rel od \<longleftrightarrow> flows Q fs payload \<and> (\<forall>h \<in> H. unat h < unat rel)
     \<and> unat rel + length fs \<le> 2 ^ 24 \<and> length fs \<le> unat w + 1
     \<and> (\<forall>f \<in> set fs. fr_reliability f = ReliableOrdered)
     \<and> ordering_inv od \<and> bt_get (buffered od) (expected od + 1) = None \<and> 0 < window od
     \<and> expected od < 2 ^ 24 \<and> user_payload payload"

lemma receive_frames_run:
  assumes del: "delivers_to Q fs payload H w rel od"
    and "receiving Q H w rel od S t" "set is \<inter> S = {}" "distinct is" "S \<union> set is \<subseteq> {..<length fs}" "is \<noteq> []"
  shows "if card S + length is < length fs
    then \<exists>t'. receive_frames (map (\<lambda>i. numbered rel (expected od) fs ! i) is) out now t = (Inr out, t')
           \<and> receiving Q H w rel od (S \<union> set is) t'
    else \<exists>t'. receive_frames (map (\<lambda>i. numbered rel (expected od) fs ! i) is) out now t = (Inr (out @ [payload]), t')"
  using assms(2-6)
proof (induction "is" arbitrary: S t)
  case Nil
  then show ?case by simp
next
  case (Cons i js)
  have i: "i \<notin> S" "S \<subseteq> {..<length fs}" "i < length fs" using Cons.prems by auto
  have fin: "finite S" using i(2) finite_subset by blast
  note step = receive_frame_step[OF Cons.prems(1), of fs payload i out now] 
  have st: "if Suc (card S) < length fs
    then \<exists>t'. receive_frame (numbered rel (expected od) fs ! i) out now t = (Inr out, t')
           \<and> receiving Q H w rel od (insert i S) t'
    else \<exists>t'. receive_frame (numbered rel (expected od) fs ! i) out now t = (Inr (out @ [payload]), t')"
    using del i unfolding delivers_to_def by (intro step) simp_all
  have "card (S \<union> set (i # js)) \<le> card {..<length fs}"
    using Cons.prems(4) by (intro card_mono) simp_all
  moreover have "card (S \<union> set (i # js)) = card S + Suc (length js)"
    using Cons.prems(2,3) fin by (subst card_Un_disjoint) (auto simp: distinct_card)
  ultimately have le: "card S + Suc (length js) \<le> length fs" by simp
  show ?case
  proof (cases js)
    case Nil
    then show ?thesis using st le by auto
  next
    case (Cons k ks)
    then have "Suc (card S) < length fs" using le by simp
    then obtain t' where t': "receive_frame (numbered rel (expected od) fs ! i) out now t = (Inr out, t')"
      "receiving Q H w rel od (insert i S) t'" using st by auto
    have "card (insert i S) = Suc (card S)" using i(1) fin by simp
    then show ?thesis
      using Cons.IH[OF t'(2)] Cons.prems t'(1) Cons by (auto simp: insert_commute)
  qed
qed

fun receive_all :: "(bytes \<times> instant) list \<Rightarrow> session
    \<Rightarrow> ((session_error + bytes list) list \<times> session) option" where
  "receive_all [] t = Some ([], t)"
| "receive_all ((b, now) # ds) t =
     (case session_receive b now t of
        None \<Rightarrow> None
      | Some (r, t) \<Rightarrow> map_option (\<lambda>(rs, t). (r # rs, t)) (receive_all ds t))"

text \<open>Every datagram decodes to the frames at some positions of the payload.\<close>

definition carries :: "u32 \<Rightarrow> u32 \<Rightarrow> frame list \<Rightarrow> bytes \<Rightarrow> nat list \<Rightarrow> bool" where
  "carries rel ord fs d is \<longleftrightarrow> is \<noteq> [] \<and> (\<exists>q. decode_datagram d
     = Inr (FrameSet \<lparr>fs_sequence = q, fs_frames = map (\<lambda>i. numbered rel ord fs ! i) is\<rparr>))"

lemma receive_all_run:
  assumes del: "delivers_to Q fs payload H w rel od"
    and "receiving Q H w rel od S t" "list_all2 (\<lambda>d is. carries rel (expected od) fs (fst d) is) ds iss"
    and "set (concat iss) \<inter> S = {}" "distinct (concat iss)" "S \<union> set (concat iss) = {..<length fs}" "iss \<noteq> []"
  shows "\<exists>t'. receive_all ds t = Some (replicate (length ds - 1) (Inr []) @ [Inr [payload]], t')"
  using assms(2-7)
proof (induction iss arbitrary: S t ds)
  case Nil
  then show ?case by simp
next
  case (Cons "is" iss)
  obtain d now ds' where ds: "ds = (d, now) # ds'" and c: "carries rel (expected od) fs d is"
    and rest: "list_all2 (\<lambda>d is. carries rel (expected od) fs (fst d) is) ds' iss"
    using Cons.prems(2) by (auto simp: list_all2_Cons2)
  obtain q where q: "decode_datagram d
      = Inr (FrameSet \<lparr>fs_sequence = q, fs_frames = map (\<lambda>i. numbered rel (expected od) fs ! i) is\<rparr>)"
    and ne: "is \<noteq> []" using c by (auto simp: carries_def)
  let ?t = "t\<lparr>se_last_heard := now, se_pending_acks := se_pending_acks t @ [q]\<rparr>"
  have rcv: "receiving Q H w rel od S ?t" using Cons.prems(1) by (simp add: receiving_def is_closed_def)
  have "\<not> is_closed t" using Cons.prems(1) by (simp add: receiving_def)
  then have rec: "session_receive d now t
      = Some (receive_frames (map (\<lambda>i. numbered rel (expected od) fs ! i) is) [] now ?t)"
    by (simp add: session_receive_def Let_def q)
  have all: "set is \<inter> S = {}" "distinct is" "S \<union> set is \<subseteq> {..<length fs}" using Cons.prems(3,4,5) by auto
  note run = receive_frames_run[OF del rcv all ne, of "[]" now]
  have fin: "finite S" using all(3) finite_subset by blast
  have "card (S \<union> set (concat (is # iss))) = length fs" using Cons.prems(5) by simp
  moreover have "card (set (concat (is # iss))) = length (concat (is # iss))"
    using Cons.prems(4) by (rule distinct_card)
  then have "card (S \<union> set (concat (is # iss))) = card S + length (concat (is # iss))"
    using card_Un_disjoint[OF fin, of "set (concat (is # iss))"] Cons.prems(3)
    by (simp only: Int_commute[of S] List.finite_set)
  ultimately have card: "card S + length is + length (concat iss) = length fs" by simp
  show ?case
  proof (cases iss)
    case Nil
    then have "ds' = []" using rest by simp
    then show ?thesis using run card Nil by (auto simp: ds rec)
  next
    case more: (Cons js jss)
    then obtain x ds'' where d2: "ds' = x # ds''" "carries rel (expected od) fs (fst x) js"
      using rest by (auto simp: list_all2_Cons2)
    then have "js \<noteq> []" by (simp add: carries_def)
    then have "card S + length is < length fs" using card more by (cases js) auto
    then obtain t' where t': "receive_frames (map (\<lambda>i. numbered rel (expected od) fs ! i) is) [] now ?t = (Inr [], t')"
      "receiving Q H w rel od (S \<union> set is) t'" using run by auto
    have "\<exists>t''. receive_all ds' t' = Some (replicate (length ds' - 1) (Inr []) @ [Inr [payload]], t'')"
      using Cons.prems(3,4,5) more by (intro Cons.IH[OF t'(2) rest]) auto
    then show ?thesis using t'(1) d2(1) by (auto simp: ds rec)
  qed
qed

section \<open>From send to receive\<close>

lemma split_frames_flow:
  assumes "reassembler_inv ra" "bt_get (ra_pending ra) (next_id sp) = None"
    and "bt_len (ra_pending ra) < max_pending (ra_limits ra)" "0 < capacity"
    and "length (fst (splitter_split payload capacity sp)) \<le> unat (max_fragments (ra_limits ra))"
    and "ra_buffered ra + length payload \<le> max_payload (ra_limits ra)"
  shows "\<exists>Q. flows Q (fst (splitter_split payload capacity sp)) payload \<and> Q {} ra"
proof (cases "capacity < length payload")
  case False
  then have fs: "fst (splitter_split payload capacity sp) = [new_frame ReliableOrdered payload]"
    using assms(4) by (simp add: splitter_split_def)
  have "flows (\<lambda>S r. True) [new_frame ReliableOrdered payload] payload"
    by (simp add: flows_def reassembler_push_def new_frame_def)
  then show ?thesis unfolding fs by blast
next
  case True
  let ?cs = "chunks capacity payload"
  let ?g = "\<lambda>i. fragment (u32_or_max (length ?cs)) (next_id sp) i (?cs ! i)"
  have fs: "fst (splitter_split payload capacity sp) = map ?g [0..<length ?cs]"
    by (simp add: splitter_split_frames[OF assms(4) True])
  have conc: "concat ?cs = payload" using assms(4) by (rule concat_chunks)
  have small: "length ?cs \<le> unat (max_fragments (ra_limits ra))" using assms(5) by (simp add: fs)
  have "flows (collected ra (next_id sp) ?cs) (map ?g [0..<length ?cs]) payload"
    unfolding flows_def
  proof (intro allI impI)
    fix S i r now
    assume "collected ra (next_id sp) ?cs S r" "i \<notin> S" "S \<subseteq> {..<length (map ?g [0..<length ?cs])}"
      and i: "i < length (map ?g [0..<length ?cs])"
    then have "if Suc (card S) < length ?cs
      then \<exists>r'. reassembler_push (?g i) now r = (Inr None, r') \<and> collected ra (next_id sp) ?cs (insert i S) r'
      else reassembler_push (?g i) now r = (Inr (Some (concat ?cs)), ra)"
      using small assms(6) conc by (intro collected_push) simp_all
    then show "if Suc (card S) < length (map ?g [0..<length ?cs])
      then \<exists>ra'. reassembler_push (map ?g [0..<length ?cs] ! i) now r = (Inr None, ra')
             \<and> collected ra (next_id sp) ?cs (insert i S) ra'
      else \<exists>ra'. reassembler_push (map ?g [0..<length ?cs] ! i) now r = (Inr (Some payload), ra')"
      using i conc by (simp split: if_splits)
  qed
  then show ?thesis
    unfolding fs using collected_start[OF assms(1,2,3), of ?cs] by blast
qed

text \<open>The datagrams of one payload, as positions of its frames.\<close>

lemma outgoing_carries:
  assumes "payload \<noteq> []" "is_u24 (se_next_order s)" "payload_limit (se_config s) \<le> usize_max"
    and "unat (se_next_reliable s) + length (split_frames payload s) \<le> 2 ^ 24"
    and "unat (se_next_sequence s) + length (outgoing payload s) \<le> 2 ^ 24"
  shows "\<exists>idx. length idx = length (outgoing payload s) \<and> concat idx = [0..<length (split_frames payload s)]
    \<and> (\<forall>j < length idx. carries (se_next_reliable s) (se_next_order s) (split_frames payload s)
          (map snd (datagrams_of (se_next_sequence s) (outgoing payload s)) ! j) (idx ! j))"
proof -
  let ?nf = "numbered (se_next_reliable s) (se_next_order s) (split_frames payload s)"
  have "concat (outgoing payload s) = drop 0 ?nf" by (simp add: outgoing_def batches_of_def concat_batches)
  from parts_as_positions[OF this] obtain idx where
    idx: "concat idx = [0..<length (split_frames payload s)]" "outgoing payload s = map (map ((!) ?nf)) idx"
    by auto
  have "carries (se_next_reliable s) (se_next_order s) (split_frames payload s)
      (map snd (datagrams_of (se_next_sequence s) (outgoing payload s)) ! j) (idx ! j)" if "j < length idx" for j
  proof -
    have j: "j < length (outgoing payload s)" using that idx(2) by simp
    have b: "outgoing payload s ! j = map ((!) ?nf) (idx ! j)" using that idx(2) by simp
    have "outgoing payload s ! j \<noteq> []"
      using j batches_nonempty[of "outgoing payload s ! j"] by (metis batches_of_def nth_mem outgoing_def)
    then have "idx ! j \<noteq> []" using b by simp
    then show ?thesis
      using sent_datagram_decodes[OF assms j] b j by (auto simp: carries_def)
  qed
  then show ?thesis using idx by (intro exI[of _ idx]) simp
qed

text \<open>Datagrams in any order still cover every position once.\<close>

lemma arrivals_cover:
  assumes "mset (map fst ds) = mset arr" "length idx = length arr" "concat idx = [0..<n]"
    and "\<forall>j < length idx. carries rel ord fs (arr ! j) (idx ! j)"
  shows "\<exists>iss. list_all2 (\<lambda>d is. carries rel ord fs (fst d) is) ds iss
    \<and> distinct (concat iss) \<and> set (concat iss) = {..<n}"
proof -
  have "mset (map fst ds) = mset (map ((!) arr) [0..<length arr])"
    using assms(1) by (simp only: map_nth)
  from mset_map_ex[OF this] obtain js where js: "mset js = mset [0..<length arr]" "map ((!) arr) js = map fst ds"
    by blast
  have jlt: "j < length idx" if "j \<in> set js" for j
    using that mset_eq_setD[OF js(1)] assms(2) by simp
  have cover: "list_all2 (\<lambda>d is. carries rel ord fs (fst d) is) ds (map ((!) idx) js)"
  proof (rule list_all2_all_nthI)
    show len: "length ds = length (map ((!) idx) js)" using arg_cong[OF js(2), of length] by simp
    fix k assume k: "k < length ds"
    then have "fst (ds ! k) = arr ! (js ! k)" using js(2) len by (metis length_map nth_map)
    then show "carries rel ord fs (fst (ds ! k)) (map ((!) idx) js ! k)"
      using assms(4) jlt[of "js ! k"] k len by simp
  qed
  have perm: "mset (concat (map ((!) idx) js)) = mset (concat (map ((!) idx) [0..<length idx]))"
    using js(1) assms(2) by (simp add: mset_concat flip: sum_mset_sum_list)
  have all: "mset (concat (map ((!) idx) js)) = mset [0..<n]"
    unfolding perm by (simp add: map_nth assms(3))
  have "distinct (concat (map ((!) idx) js))" using mset_eq_imp_distinct_iff[OF all] by simp
  moreover have "set (concat (map ((!) idx) js)) = {..<n}"
    using mset_eq_setD[OF all] by (simp add: atLeast0LessThan)
  ultimately show ?thesis using cover by blast
qed

lemma split_frames_nonempty:
  assumes "payload \<noteq> []" "0 < fragment_capacity (payload_limit (se_config s))"
  shows "split_frames payload s \<noteq> []"
  using assms length_chunks_gt[OF assms(2), of payload]
  by (auto simp: split_frames_def splitter_split_def Let_def enumerate_eq_zip)

section \<open>Properties\<close>

text \<open>C9: What one session sends, another receives: the datagrams a send queued, arriving in any
  order and at any times at a session that expects them, are all accepted, and the last one to
  arrive makes the receiver hand out the payload, byte for byte, exactly once and nothing else.
  The receiver expects them when it waits for the sender's order index with nothing held behind
  it, has seen no reliable index of theirs, and has room to reassemble.\<close>

theorem payload_survives_reordering:
  assumes sender: "sender_ok s" "session_send payload now s = (Inr (), s')"
    "is_u24 (se_next_order s)" "payload_limit (se_config s) \<le> usize_max"
    "0 < fragment_capacity (payload_limit (se_config s))"
    "unat (se_next_reliable s) + length (split_frames payload s) \<le> 2 ^ 24"
    "unat (se_next_sequence s) + length (outgoing payload s) \<le> 2 ^ 24"
    and user: "payload \<noteq> []" "0x86 \<le> hd payload"
    and receiver: "session_inv c t" "\<not> is_closed t"
    "expected (se_ordering t) = se_next_order s"
    "bt_get (buffered (se_ordering t)) (se_next_order s + 1) = None" "0 < order_window c"
    "dedup_abs H (se_dedup t)" "\<forall>h \<in> H. unat h < unat (se_next_reliable s)"
    "length (split_frames payload s) \<le> unat (dedup_window c) + 1"
    "bt_get (ra_pending (se_reassembler t)) (next_id (se_splitter s)) = None"
    "bt_len (ra_pending (se_reassembler t)) < max_pending (cf_split c)"
    "length (split_frames payload s) \<le> unat (max_fragments (cf_split c))"
    "ra_buffered (se_reassembler t) + length payload \<le> max_payload (cf_split c)"
    and network: "mset (map fst ds) = mset (drop (length (se_outbox s)) (se_outbox s'))"
  shows "\<exists>t'. receive_all ds t = Some (replicate (length ds - 1) (Inr []) @ [Inr [payload]], t')"
proof -
  let ?fs = "split_frames payload s" let ?rel = "se_next_reliable s" let ?od = "se_ordering t"
  let ?ds = "map snd (datagrams_of (se_next_sequence s) (outgoing payload s))"
  have out: "drop (length (se_outbox s)) (se_outbox s') = ?ds"
    using sender(2) session_send_outcome[OF sender(1), of payload now]
    by (auto simp: sent_def split: if_splits)
  obtain idx where idx: "length idx = length (outgoing payload s)" "concat idx = [0..<length ?fs]"
    "\<forall>j < length idx. carries ?rel (se_next_order s) ?fs (?ds ! j) (idx ! j)"
    using outgoing_carries[OF user(1) sender(3,4,6,7)] by blast
  have "mset (map fst ds) = mset ?ds" using network out by simp
  from arrivals_cover[OF this _ idx(2,3)] idx(1) obtain iss where
    cover: "list_all2 (\<lambda>d is. carries ?rel (expected ?od) ?fs (fst d) is) ds iss"
    and dist: "distinct (concat iss)" and set: "set (concat iss) = {..<length ?fs}"
    using receiver(3) by auto
  have "?fs \<noteq> []" using split_frames_nonempty user(1) sender(5) .
  then have "{..<length ?fs} \<noteq> {}" by (simp add: lessThan_empty_iff)
  then have ne: "iss \<noteq> []" using set by (cases iss) auto
  have inv: "reassembler_inv (se_reassembler t)" "ra_limits (se_reassembler t) = cf_split c"
    "ordering_inv ?od" "window ?od = order_window c" "dd_window (se_dedup t) = dedup_window c"
    using receiver(1) by (simp_all add: session_inv_def)
  obtain Q where Q: "flows Q ?fs payload" "Q {} (se_reassembler t)"
    using split_frames_flow[of "se_reassembler t" "se_splitter s"
        "fragment_capacity (payload_limit (se_config s))" payload] inv receiver sender(5)
    by (auto simp: split_frames_def)
  have e24: "expected ?od < 2 ^ 24" using sender(3) receiver(3) by (simp add: is_u24_def word_less_nat_alt)
  have rels: "\<forall>f \<in> set ?fs. fr_reliability f = ReliableOrdered"
    using split_frame_cases by (auto simp: split_frames_def)
  have del: "delivers_to Q ?fs payload H (dedup_window c) ?rel ?od"
    using Q(1) rels inv e24 receiver sender(6) user
    by (simp add: delivers_to_def user_payload_def user_packet_start_def)
  have rcv: "receiving Q H (dedup_window c) ?rel ?od {} t"
    using receiver(2,6) Q(2) inv by (simp add: receiving_def)
  show ?thesis
    using receive_all_run[OF del rcv cover _ dist _ ne] set by simp
qed

lemma payload_survives_reordering_witness:
  "\<exists>ds t'. length ds \<ge> 1
    \<and> receive_all (map (\<lambda>d. (d, 9)) ds) sample_session = Some (replicate (length ds - 1) (Inr []) @ [Inr [[0xFE, 1]]], t')"
proof -
  let ?s = sample_session
  have cap: "fragment_capacity (payload_limit (se_config ?s)) = 1448"
    by (simp add: sample_session_def new_session_def default_config_def fragment_capacity_def
        datagram_header_len_def header_len_def is_ordered_def max_frame_payload_def)
  have fs: "split_frames [0xFE, 1] ?s = [new_frame ReliableOrdered [0xFE, 1]]"
    by (simp add: split_frames_def cap splitter_split_def)
  have out: "length (outgoing [0xFE, 1] ?s) = 1" by (simp add: outgoing_def batches_of_def fs)
  have room: "\<not> is_closed ?s" "has_room 1 ?s"
    by (simp_all add: has_room_def sample_session_def new_session_def is_closed_def default_config_def
        in_flight_count_def new_retransmitter_def default_retransmit_limits_def)
  have sent: "session_send [0xFE, 1] 5 ?s
      = (Inr (), sent (outgoing [0xFE, 1] ?s) 1 5 (?s\<lparr>se_splitter := split_state [0xFE, 1] ?s\<rparr>))"
    using session_send_outcome[OF sample_session_ok, of "[0xFE, 1]" 5] room by (simp add: fs out)
  let ?ds = "map snd (datagrams_of (se_next_sequence ?s) (outgoing [0xFE, 1] ?s))"
  have st: "session_inv default_config ?s" by (simp add: sample_session_def session_inv_new)
  have fields: "\<not> is_closed ?s" "se_next_order ?s = 0" "se_next_reliable ?s = 0" "se_next_sequence ?s = 0"
    "se_config ?s = default_config" "se_ordering ?s = new_ordering 2048" "se_dedup ?s = new_dedup 4096"
    "se_reassembler ?s = new_reassembler default_limits" "se_outbox ?s = []"
    by (simp_all add: sample_session_def new_session_def is_closed_def default_config_def)
  have "\<exists>t'. receive_all (map (\<lambda>d. (d, 9)) ?ds) ?s
      = Some (replicate (length (map (\<lambda>d. (d, 9 :: instant)) ?ds) - 1) (Inr []) @ [Inr [[0xFE, 1]]], t')"
    using out cap dedup_abs_new[of 4096] sent
    by (intro payload_survives_reordering[OF sample_session_ok sent _ _ _ _ _ _ _ st fields(1), where H = "{}"])
      (simp_all add: fields fs is_u24_def usize_max_def comp_def sent_def new_ordering_def
        new_reassembler_def default_config_def default_limits_def)
  then show ?thesis using out by (intro exI[of _ ?ds]) simp
qed

lemma request_accepted_bytes:
  "encode_request_accepted time now s
     = id_connection_request_accepted # write_addr (se_peer s) [] @ be_bytes 2 (0 :: u16)
       @ concat (replicate system_address_count (write_addr (se_local s) []))
       @ be_bytes 8 time @ be_bytes 8 (now_millis s now)"
  unfolding encode_request_accepted_def Let_def funpow_write_addr
  using write_addr_append[of "se_peer s" "[id_connection_request_accepted]"]
  by (simp add: writer_defs)

text \<open>The client can read what the server answers to a connection request: the packet a session
  builds decodes to the peer's address, twenty copies of the local one, the echoed timestamp and
  the session's own clock.\<close>

lemma request_accepted_round_trip:
  "decode_connection_request_accepted (encode_request_accepted time now s)
     = Inr \<lparr>cra_client_addr = addr_as_v4 (se_peer s), cra_system_index = 0,
         cra_system_addresses = replicate system_address_count (addr_as_v4 (se_local s)),
         cra_request_time = time, cra_accepted_time = now_millis s now\<rparr>"
  using decode_request_accepted_written[of "replicate system_address_count (se_local s)" "se_peer s" 0 time
      "now_millis s now"]
  by (simp add: request_accepted_bytes system_address_count_def)

end
