(* ===== verification/Connecting.thy ===== *)
theory Connecting
  imports Client Serving Delivery
begin

text \<open>
  The client of \<open>Client\<close> against the listener of \<open>Listener\<close>: the two lead each other from the first open
  request to an established connection and out of it again.

  \<open>linked k j s\<close> is what the session of the client looks like between the steps: \<open>k\<close> frames have arrived
  in order and \<open>j\<close> have been sent, everything is drained, and nothing waits in the buffers.
\<close>

section \<open>A session between two steps\<close>

text \<open>The settings a short exchange needs.\<close>

definition roomy :: "config \<Rightarrow> bool" where
  "roomy c \<longleftrightarrow> 576 \<le> payload_limit c \<and> 1 \<le> max_outbox c \<and> 2 \<le> max_in_flight (cf_retransmit c)
     \<and> 0 < order_window c \<and> 3 \<le> unat (dedup_window c)"

definition linked :: "nat \<Rightarrow> nat \<Rightarrow> session \<Rightarrow> bool" where
  "linked k j s \<longleftrightarrow> \<not> is_closed s \<and> sender_ok s \<and> roomy (se_config s) \<and> se_outbox s = []
     \<and> dedup_abs (of_nat ` {..<k}) (se_dedup s) \<and> dd_window (se_dedup s) = dedup_window (se_config s)
     \<and> se_ordering s = \<lparr>expected = of_nat k, buffered = bt_new, window = order_window (se_config s)\<rparr>
     \<and> se_next_sequence s = of_nat j \<and> se_next_reliable s = of_nat j \<and> se_next_order s = of_nat j
     \<and> dom (bt_get (rt_in_flight (se_retransmitter s))) \<subseteq> of_nat ` {..<j}"

text \<open>What no step of the exchange changes.\<close>

definition same_ends :: "session \<Rightarrow> session \<Rightarrow> bool" where
  "same_ends s s' \<longleftrightarrow> se_config s' = se_config s \<and> se_peer s' = se_peer s \<and> se_local s' = se_local s
     \<and> se_started s' = se_started s"

text \<open>The datagram numbered \<open>k\<close> of either side.\<close>

definition numbered_datagram :: "nat \<Rightarrow> bytes \<Rightarrow> bytes" where
  "numbered_datagram k payload = encode_datagram (FrameSet \<lparr>fs_sequence = of_nat k,
     fs_frames = [(new_frame ReliableOrdered payload)\<lparr>fr_reliable_index := of_nat k, fr_order_index := of_nat k\<rparr>]\<rparr>) []"

lemma u24_small: "k < 8 \<Longrightarrow> is_u24 (of_nat k)"
  by (simp add: is_u24_def word_less_nat_alt unat_of_nat)

lemma numbered_datagram_reads:
  assumes "k < 8" "payload \<noteq> []" "length payload \<le> 8000"
  shows "decode_datagram (numbered_datagram k payload) = Inr (FrameSet \<lparr>fs_sequence = of_nat k,
     fs_frames = [(new_frame ReliableOrdered payload)\<lparr>fr_reliable_index := of_nat k, fr_order_index := of_nat k\<rparr>]\<rparr>)"
proof -
  let ?f = "(new_frame ReliableOrdered payload)\<lparr>fr_reliable_index := of_nat k, fr_order_index := of_nat k\<rparr>"
  have "frame_ok ?f" using assms u24_small[of k] by (simp add: frame_ok_def new_frame_def is_ordered_def max_frame_body_def)
  moreover have "encoded_len ?f \<le> 20 + length payload" by (simp add: encoded_len_def new_frame_def)
  then have "length (numbered_datagram k payload) \<le> usize_max"
    using assms by (simp add: numbered_datagram_def length_encode_frame_set datagram_header_len_def usize_max_def
        del: encode_datagram.simps)
  ultimately show ?thesis
    unfolding numbered_datagram_def using u24_small[OF assms(1)]
    by (intro decode_encode_datagram) (simp_all del: encode_datagram.simps)
qed

lemma ordering_push_empty:
  "0 < w \<Longrightarrow> ordering_push e payload \<lparr>expected = e, buffered = bt_new, window = w\<rparr>
     = (Inr [payload], \<lparr>expected = e + 1, buffered = bt_new, window = w\<rparr>)"
  by (simp add: ordering_push_def word_saturating_sub_def not_le word_gt_0 bt_new_def bt_get_def bt_remove_def drain.simps[of e]
      drain.simps[of "e + 1"])

lemma hear_numbered:
  assumes "linked k j s" "k < 4" "payload \<noteq> []" "length payload \<le> 8000"
  shows "\<exists>s1. session_receive (numbered_datagram k payload) now s = Some (handle_payloads [payload] [] now s1)
    \<and> linked (Suc k) j s1 \<and> same_ends s s1 \<and> se_state s1 = se_state s"
proof -
  have l: "\<not> is_closed s" "dedup_abs (of_nat ` {..<k}) (se_dedup s)" "3 \<le> unat (dedup_window (se_config s))"
    "dd_window (se_dedup s) = dedup_window (se_config s)" "0 < order_window (se_config s)"
    "se_ordering s = \<lparr>expected = of_nat k, buffered = bt_new, window = order_window (se_config s)\<rparr>"
    using assms(1) by (simp_all add: linked_def roomy_def)
  note fresh = fresh_index_accepted[of "{}" 0 "{..<k}" "se_dedup s" "dedup_window (se_config s)" 4 k]
  obtain d where d: "dedup_accept (of_nat k) (se_dedup s) = (True, d)"
    "dedup_abs (of_nat ` {..<Suc k}) d" "dd_window d = dedup_window (se_config s)"
    using fresh l(2-4) assms(2) by (cases "dedup_accept (of_nat k) (se_dedup s)") (auto simp: lessThan_Suc)
  let ?od = "\<lparr>expected = of_nat k + 1, buffered = bt_new, window = order_window (se_config s)\<rparr>"
  let ?s1 = "s\<lparr>se_last_heard := now, se_pending_acks := se_pending_acks s @ [of_nat k], se_dedup := d, se_ordering := ?od\<rparr>"
  have same: "x\<lparr>se_reassembler := se_reassembler x\<rparr> = x" for x :: session by simp
  have "session_receive (numbered_datagram k payload) now s = Some (handle_payloads [payload] [] now ?s1)"
    using l(1) numbered_datagram_reads[of k payload] assms(2-4) d(1) ordering_push_empty[OF l(5)]
    by (simp add: session_receive_def receive_frame_def new_frame_def is_ordered_def reassembler_push_def l(6) same
        del: handle_payloads.simps split: prod.splits sum.splits)
  moreover have "linked (Suc k) j ?s1"
    using assms(1) d(2,3) by (simp add: linked_def is_closed_def sender_ok_def add.commute)
  ultimately show ?thesis by (intro exI[of _ ?s1]) (simp add: same_ends_def)
qed

lemma fragment_capacity_576: "576 \<le> limit \<Longrightarrow> 500 \<le> fragment_capacity limit"
  by (simp add: fragment_capacity_def datagram_header_len_def header_len_def is_ordered_def max_frame_payload_def)

lemma in_flight_few:
  assumes "retransmitter_inv rt" "dom (bt_get (rt_in_flight rt)) \<subseteq> of_nat ` {..<j}"
  shows "in_flight_count rt \<le> j"
proof -
  have "card (dom (bt_get (rt_in_flight rt))) \<le> card ((of_nat :: nat \<Rightarrow> u32) ` {..<j})"
    using assms(2) by (intro card_mono) simp_all
  also have "\<dots> \<le> j" using card_image_le[of "{..<j}" "of_nat :: nat \<Rightarrow> u32"] by simp
  finally show ?thesis
    using assms(1) by (simp add: in_flight_count_def retransmitter_inv_def bt_len_card)
qed

lemma send_numbered:
  assumes "linked k j s" "j < 2" "length payload \<le> 500"
  shows "\<exists>s1. session_send payload now s = (Inr (), s1) \<and> se_outbox s1 = [numbered_datagram j payload]
    \<and> linked k (Suc j) (s1\<lparr>se_outbox := []\<rparr>) \<and> same_ends s s1 \<and> se_state s1 = se_state s"
proof -
  have l: "\<not> is_closed s" "sender_ok s" "roomy (se_config s)" "se_outbox s = []" "se_next_sequence s = of_nat j"
    "se_next_reliable s = of_nat j" "se_next_order s = of_nat j" "dom (bt_get (rt_in_flight (se_retransmitter s))) \<subseteq> of_nat ` {..<j}"
    using assms(1) by (simp_all add: linked_def)
  have room: "has_room 1 s"
    using in_flight_few[of "se_retransmitter s" j] l assms(2) by (simp add: has_room_def sender_ok_def roomy_def)
  have cap: "0 < fragment_capacity (payload_limit (se_config s))" "length payload \<le> fragment_capacity (payload_limit (se_config s))"
    using fragment_capacity_576[of "payload_limit (se_config s)"] l(3) assms(3) by (simp_all add: roomy_def)
  let ?f = "(new_frame ReliableOrdered payload)\<lparr>fr_reliable_index := of_nat j, fr_order_index := of_nat j\<rparr>"
  have split: "split_frames payload s = [new_frame ReliableOrdered payload]" "split_state payload s = se_splitter s"
    using cap by (simp_all add: split_frames_def split_state_def splitter_split_def)
  have out: "outgoing payload s = [[?f]]" by (simp add: outgoing_def batches_of_def split l(6,7))
  let ?s1 = "sent [[?f]] 1 now s"
  have same: "x\<lparr>se_splitter := se_splitter x\<rparr> = x" for x :: session by simp
  have "session_send payload now s = (Inr (), ?s1)"
    using session_send_outcome[OF l(2), of payload now] l(1) room by (simp add: out split same)
  moreover have "se_outbox ?s1 = [numbered_datagram j payload]"
    by (simp add: sent_def l(4,5) numbered_datagram_def del: encode_datagram.simps)
  moreover have "linked k (Suc j) (?s1\<lparr>se_outbox := []\<rparr>)"
  proof -
    let ?d = "encode_datagram (FrameSet \<lparr>fs_sequence = of_nat j, fs_frames = [?f]\<rparr>) []"
    have rt: "se_retransmitter ?s1 = snd (track (of_nat j) ?d now (se_retransmitter s))"
      by (simp add: sent_def l(5) del: encode_datagram.simps)
    have inv: "retransmitter_inv (se_retransmitter s)" using l(2) by (simp add: sender_ok_def)
    have "dom (bt_get (rt_in_flight (se_retransmitter ?s1))) \<subseteq> insert (of_nat j) (dom (bt_get (rt_in_flight (se_retransmitter s))))"
      using inv unfolding rt by (auto simp: track_def retransmitter_inv_def bt.get_ins split: if_splits)
    then have "dom (bt_get (rt_in_flight (se_retransmitter ?s1))) \<subseteq> of_nat ` {..<Suc j}"
      using l(8) by (auto simp: lessThan_Suc)
    moreover have "sender_ok (?s1\<lparr>se_outbox := []\<rparr>)"
      using track_facts[OF inv, of "of_nat j" ?d now] l(2) rt by (simp add: sender_ok_def sent_def del: encode_datagram.simps)
    ultimately show ?thesis
      using assms(1) by (simp add: linked_def sent_def is_closed_def add.commute del: encode_datagram.simps)
  qed
  ultimately show ?thesis by (intro exI[of _ ?s1]) (simp add: same_ends_def sent_def del: encode_datagram.simps)
qed

lemma hear_acknowledgement:
  assumes "linked k j s" "q < 8"
  shows "\<exists>s1. session_receive (client_ack (of_nat q)) now s = Some (Inr [], s1) \<and> linked k j s1 \<and> same_ends s s1
    \<and> se_state s1 = se_state s"
proof -
  let ?a = "ack_single (of_nat q)"
  have l: "\<not> is_closed s" "retransmitter_inv (se_retransmitter s)"
    using assms(1) by (simp_all add: linked_def sender_ok_def)
  have reads: "decode_datagram (client_ack (of_nat q)) = Inr (Ack ?a)"
    unfolding client_ack_def new_writer_def
    by (rule decode_encode_datagram)
      (use u24_small[OF assms(2)] in \<open>simp_all add: ack_ok_def ack_single_def range_ok_def encode_ack_def encode_range_def
        writer_defs usize_max_def\<close>)
  have "ordered_ranges ?a" by (simp add: ordered_ranges_def ack_single_def)
  then obtain rt where rt: "on_ack ?a now (se_retransmitter s) = Some rt" using on_ack_None by blast
  note spec = on_ack_spec[OF l(2) rt]
  have "dom (bt_get (rt_in_flight rt)) \<subseteq> dom (bt_get (rt_in_flight (se_retransmitter s)))"
    using spec(4) by (auto split: if_splits)
  then have "linked k j (s\<lparr>se_last_heard := now, se_retransmitter := rt\<rparr>)"
    using assms(1) spec(1,2) by (auto simp: linked_def is_closed_def sender_ok_def)
  then show ?thesis
    using l(1) reads rt by (intro exI[of _ "s\<lparr>se_last_heard := now, se_retransmitter := rt\<rparr>"])
      (simp add: session_receive_def same_ends_def)
qed

section \<open>What the packets of the exchange do\<close>

lemma connection_request_bytes:
  "encode_connection_request guid time = id_connection_request # be_bytes 8 guid @ be_bytes 8 time @ [0]"
  by (simp add: encode_connection_request_def writer_defs)

lemma connection_request_time:
  "read_or_zero (rd_bind read_u8 (\<lambda>_. rd_bind read_i64 (\<lambda>_. read_i64))) (encode_connection_request guid time) = time"
proof -
  have "reads (rd_bind read_u8 (\<lambda>_. rd_bind read_i64 (\<lambda>_. read_i64)))
      ([id_connection_request] @ be_bytes 8 guid @ be_bytes 8 time) time"
    by (rule reads_bind[OF reads_u8], rule reads_bind[OF reads_i64], rule reads_i64)
  from readsD[OF this, of "[]" "[0]"] show ?thesis
    by (simp add: read_or_zero_def connection_request_bytes new_reader_def usize_max_def)
qed

lemma ping_bytes: "encode_connected_ping time = id_connected_ping # be_bytes 8 time"
  by (simp add: encode_connected_ping_def writer_defs)

lemma ping_time: "read_or_zero (rd_bind read_u8 (\<lambda>_. read_i64)) (encode_connected_ping time) = time"
proof -
  have "reads (rd_bind read_u8 (\<lambda>_. read_i64)) ([id_connected_ping] @ be_bytes 8 time) time"
    by (rule reads_bind[OF reads_u8], rule reads_i64)
  from readsD[OF this, of "[]" "[]"] show ?thesis
    by (simp add: read_or_zero_def ping_bytes new_reader_def usize_max_def)
qed

lemma request_accepted_same_ends: "same_ends s s' \<Longrightarrow> encode_request_accepted time now s' = encode_request_accepted time now s"
  by (simp add: same_ends_def encode_request_accepted_def now_millis_def)

lemma same_ends_trans: "same_ends s s' \<Longrightarrow> same_ends s' s'' \<Longrightarrow> same_ends s s''"
  by (simp add: same_ends_def)

definition pong_packet :: "i64 \<Rightarrow> i64 \<Rightarrow> bytes" where
  "pong_packet time clock = write_i64 clock (write_i64 time (write_u8 id_connected_pong new_writer))"

lemma pong_bytes_are: "pong_packet time clock = id_connected_pong # be_bytes 8 time @ be_bytes 8 clock"
  by (simp add: pong_packet_def writer_defs)

text \<open>Each of the four payloads, at a session that expects its number.\<close>

lemma hears_request:
  assumes "linked 0 0 s"
  shows "\<exists>s1. session_receive (numbered_datagram 0 (encode_connection_request guid time)) now s = Some (Inr [], s1)
    \<and> se_outbox s1 = [numbered_datagram 0 (encode_request_accepted time now s)]
    \<and> linked 1 1 (s1\<lparr>se_outbox := []\<rparr>) \<and> same_ends s s1 \<and> se_state s1 = se_state s"
proof -
  let ?p = "encode_connection_request guid time"
  obtain s1 where 1: "session_receive (numbered_datagram 0 ?p) now s = Some (handle_payloads [?p] [] now s1)"
    "linked 1 0 s1" "same_ends s s1" "se_state s1 = se_state s"
    using hear_numbered[OF assms, of ?p now] by (auto simp: connection_request_bytes)
  let ?reply = "encode_request_accepted time now s"
  have "length ?reply \<le> 500" by (simp add: request_accepted_bytes ipv4_len_def system_address_count_def length_concat sum_list_replicate)
  from send_numbered[OF 1(2) _ this, of now] obtain s2 where
    2: "session_send ?reply now s1 = (Inr (), s2)" "se_outbox s2 = [numbered_datagram 0 ?reply]"
    "linked 1 1 (s2\<lparr>se_outbox := []\<rparr>)" "same_ends s1 s2" "se_state s2 = se_state s1" by auto
  have "handle_internal ?p now s1 = (Inr None, s2)"
    using 2(1) connection_request_time[of guid time]
    by (simp add: handle_internal_def connection_request_bytes request_accepted_same_ends[OF 1(3)] Let_def)
  then show ?thesis using 1 2 same_ends_trans[OF 1(3) 2(4)] by (intro exI[of _ s2]) simp
qed

lemma hears_incoming:
  assumes "linked k j s" "k < 4" "n \<le> 100"
  shows "\<exists>s1. session_receive (numbered_datagram k (encode_new_incoming_connection server n a b)) now s = Some (Inr [], s1)
    \<and> linked (Suc k) j s1 \<and> same_ends s s1 \<and> se_state s1 = Connected"
proof -
  let ?p = "encode_new_incoming_connection server n a b"
  have bytes: "?p = id_new_incoming_connection # write_addr server [] @ concat (replicate n (write_addr unassigned []))
      @ be_bytes 8 a @ be_bytes 8 b"
    unfolding encode_new_incoming_connection_def Let_def funpow_write_addr
    using write_addr_append[of server "[id_new_incoming_connection]"] by (simp add: writer_defs)
  have "length ?p \<le> 8000" using assms(3) by (simp add: bytes ipv4_len_def length_concat sum_list_replicate)
  then obtain s1 where 1: "session_receive (numbered_datagram k ?p) now s = Some (handle_payloads [?p] [] now s1)"
    "linked (Suc k) j s1" "same_ends s s1"
    using hear_numbered[OF assms(1,2), of ?p now] by (auto simp: bytes)
  have "handle_payloads [?p] [] now s1 = (Inr [], s1\<lparr>se_state := Connected\<rparr>)"
    by (simp add: handle_internal_def bytes online_ids)
  moreover have "linked (Suc k) j (s1\<lparr>se_state := Connected\<rparr>)"
    using 1(2) by (simp add: linked_def is_closed_def sender_ok_def)
  ultimately show ?thesis
    using 1(1,3) by (intro exI[of _ "s1\<lparr>se_state := Connected\<rparr>"]) (simp add: same_ends_def)
qed

lemma hears_ping:
  assumes "linked k j s" "k < 4" "j < 2"
  shows "\<exists>s1. session_receive (numbered_datagram k (encode_connected_ping time)) now s = Some (Inr [], s1)
    \<and> se_outbox s1 = [numbered_datagram j (pong_packet time (now_millis s now))]
    \<and> linked (Suc k) (Suc j) (s1\<lparr>se_outbox := []\<rparr>) \<and> same_ends s s1 \<and> se_state s1 = se_state s"
proof -
  let ?p = "encode_connected_ping time"
  obtain s1 where 1: "session_receive (numbered_datagram k ?p) now s = Some (handle_payloads [?p] [] now s1)"
    "linked (Suc k) j s1" "same_ends s s1" "se_state s1 = se_state s"
    using hear_numbered[OF assms(1,2), of ?p now] by (auto simp: ping_bytes)
  let ?pong = "pong_packet time (now_millis s now)"
  have clock: "now_millis s1 now = now_millis s now" using 1(3) by (simp add: same_ends_def now_millis_def)
  have "length ?pong \<le> 500" by (simp add: pong_bytes_are)
  from send_numbered[OF 1(2) assms(3) this, of now] obtain s2 where
    2: "session_send ?pong now s1 = (Inr (), s2)" "se_outbox s2 = [numbered_datagram j ?pong]"
    "linked (Suc k) (Suc j) (s2\<lparr>se_outbox := []\<rparr>)" "same_ends s1 s2" "se_state s2 = se_state s1" by auto
  have "handle_internal ?p now s1 = (Inr None, s2)"
    using 2(1) ping_time[of time] clock
    by (simp add: handle_internal_def ping_bytes online_ids pong_packet_def Let_def)
  then show ?thesis using 1 2 same_ends_trans[OF 1(3) 2(4)] by (intro exI[of _ s2]) simp
qed

lemma hears_disconnect:
  assumes "linked k j s" "k < 4"
  shows "\<exists>s1. session_receive (numbered_datagram k encode_disconnect) now s = Some (Inr [], s1)
    \<and> se_state s1 = Closed ByPeer \<and> se_outbox s1 = []"
proof -
  let ?p = encode_disconnect
  obtain s1 where 1: "session_receive (numbered_datagram k ?p) now s = Some (handle_payloads [?p] [] now s1)"
    "linked (Suc k) j s1"
    using hear_numbered[OF assms, of ?p now] by (auto simp: encode_disconnect_def)
  have "handle_payloads [?p] [] now s1 = (Inr [], s1\<lparr>se_state := Closed ByPeer\<rparr>)"
    by (simp add: handle_internal_def encode_disconnect_def online_ids)
  then show ?thesis using 1 by (intro exI[of _ "s1\<lparr>se_state := Closed ByPeer\<rparr>"]) (simp add: linked_def)
qed

section \<open>The client's answers\<close>

definition client_at :: "nat \<Rightarrow> client" where
  "client_at k = \<lparr>cn_next_sequence = of_nat k, cn_next_reliable = of_nat k, cn_next_order = of_nat k\<rparr>"

lemma client_sends: "client_send payload (client_at k) = (numbered_datagram k payload, client_at (Suc k))"
  by (simp add: client_send_def client_at_def numbered_datagram_def new_frame_def new_writer_def add.commute
      del: encode_datagram.simps)

lemma client_steps:
  "client_send payload (client_at (Suc 0)) = (numbered_datagram (Suc 0) payload, client_at 2)"
  "client_send payload (client_at 2) = (numbered_datagram 2 payload, client_at 3)"
  "client_send payload (client_at 3) = (numbered_datagram 3 payload, client_at 4)"
  by (simp_all add: client_sends numeral_eq_Suc)

text \<open>What it sends when it is accepted, and when its ping comes back.\<close>

definition incoming_from :: "socket_addr \<Rightarrow> session \<Rightarrow> instant \<Rightarrow> i64 \<Rightarrow> bytes" where
  "incoming_from server s now time = encode_new_incoming_connection server system_address_count time (now_millis s now)"

lemma client_hears_acceptance:
  "client_hear server clock (numbered_datagram 0 (encode_request_accepted time now s)) (client_at 1)
     = ([client_ack 0, numbered_datagram 1 (incoming_from server s now time), numbered_datagram 2 (encode_connected_ping clock)],
        client_at 3, GoesOn)"
proof -
  let ?p = "encode_request_accepted time now s"
  have p: "?p \<noteq> []" "hd ?p = id_connection_request_accepted" "length ?p \<le> 8000"
    by (simp_all add: request_accepted_bytes ipv4_len_def system_address_count_def length_concat sum_list_replicate)
  have "decode_connection_request_accepted ?p = Inr \<lparr>cra_client_addr = addr_as_v4 (se_peer s), cra_system_index = 0,
      cra_system_addresses = replicate system_address_count (addr_as_v4 (se_local s)),
      cra_request_time = time, cra_accepted_time = now_millis s now\<rparr>" by (rule request_accepted_round_trip)
  then show ?thesis
    using numbered_datagram_reads[of 0 ?p] p client_steps
    by (simp add: client_hear_def new_frame_def incoming_from_def)
qed

lemma client_hears_pong:
  "client_hear server clock (numbered_datagram 1 (pong_packet time at)) (client_at 3)
     = ([client_ack 1, numbered_datagram 3 encode_disconnect], client_at 4, Finished)"
  using numbered_datagram_reads[of 1 "pong_packet time at"] decode_connected_pong_written[of time at] client_steps by (simp add: client_hear_def new_frame_def pong_bytes_are online_ids)

section \<open>The listener's answers\<close>

lemma listener_hears:
  assumes "hm_get (li_sessions l) peer = Some s" "session_receive b now s = Some (Inr [], s1)" "\<not> is_closed s1"
  shows "listener_receive peer b now l = Some (if se_state s \<noteq> Connected \<and> se_state s1 = Connected then [EvConnected peer] else [],
    l\<lparr>li_outbox := li_outbox l @ map (Pair peer) (se_outbox s1),
      li_sessions := hm_insert peer (s1\<lparr>se_outbox := []\<rparr>) (li_sessions l)\<rparr>)"
proof -
  have "closed_because s1 = None" using assms(3) by (simp add: closed_because_None)
  then show ?thesis using assms(1,2) by (simp add: listener_receive_def drain_outbox_all)
qed

fun listener_hears_all :: "socket_addr \<Rightarrow> instant \<Rightarrow> bytes list \<Rightarrow> listener \<Rightarrow> (event list \<times> listener) option" where
  "listener_hears_all peer now [] l = Some ([], l)"
| "listener_hears_all peer now (b # bs) l =
     (case listener_receive peer b now l of
        None \<Rightarrow> None
      | Some (es, l) \<Rightarrow> map_option (\<lambda>(rest, l). (es @ rest, l)) (listener_hears_all peer now bs l))"

text \<open>The session of the peer, its place in the conversation, and what waits to be sent.\<close>

definition holds :: "socket_addr \<Rightarrow> session \<Rightarrow> bytes list \<Rightarrow> listener \<Rightarrow> bool" where
  "holds peer s ds l \<longleftrightarrow> hm_ok (li_sessions l) \<and> hm_get (li_sessions l) peer = Some s \<and> li_outbox l = map (Pair peer) ds"

lemma listener_hears_holding:
  assumes "holds peer s ds l" "session_receive b now s = Some (Inr [], s1)" "\<not> is_closed s1"
  shows "\<exists>l1. listener_receive peer b now l
      = Some (if se_state s \<noteq> Connected \<and> se_state s1 = Connected then [EvConnected peer] else [], l1)
    \<and> holds peer (s1\<lparr>se_outbox := []\<rparr>) (ds @ se_outbox s1) l1"
  using assms(1) listener_hears[OF _ assms(2,3), of l peer] by (auto simp: holds_def hm.get_ins hm.invar_ins)

text \<open>The round in which a client is accepted.\<close>

lemma accepted_round:
  assumes "holds peer s [] l" "linked 0 0 s" "se_state s = Connecting"
  shows "\<exists>l1 s1. listener_hears_all peer now [numbered_datagram 0 (encode_connection_request guid time)] l = Some ([], l1)
    \<and> holds peer s1 [numbered_datagram 0 (encode_request_accepted time now s)] l1 \<and> linked 1 1 s1 \<and> se_state s1 = Connecting"
proof -
  obtain s1 where s1: "session_receive (numbered_datagram 0 (encode_connection_request guid time)) now s = Some (Inr [], s1)"
    "se_outbox s1 = [numbered_datagram 0 (encode_request_accepted time now s)]" "linked 1 1 (s1\<lparr>se_outbox := []\<rparr>)"
    "se_state s1 = se_state s"
    using hears_request[OF assms(2)] by blast
  have "\<not> is_closed s1" using s1(3) by (simp add: linked_def is_closed_def)
  from listener_hears_holding[OF assms(1) s1(1) this] show ?thesis
    using s1 assms(3) by (auto intro!: exI[of _ "s1\<lparr>se_outbox := []\<rparr>"])
qed

text \<open>The round in which it reports in and pings.\<close>

lemma connected_round:
  assumes "holds peer s [] l" "linked 1 1 s" "se_state s = Connecting"
  shows "\<exists>l1 s1 pong. listener_hears_all peer now [client_ack 0,
        numbered_datagram 1 (encode_new_incoming_connection server system_address_count a b),
        numbered_datagram 2 (encode_connected_ping clock)] l = Some ([EvConnected peer], l1)
    \<and> holds peer s1 [numbered_datagram 1 (pong_packet clock pong)] l1 \<and> linked 3 2 s1 \<and> se_state s1 = Connected"
proof -
  obtain s1 where s1: "session_receive (client_ack 0) now s = Some (Inr [], s1)" "linked 1 1 s1" "se_state s1 = se_state s"
    using hear_acknowledgement[OF assms(2), of 0 now] by auto
  have o1: "\<not> is_closed s1" "se_outbox s1 = []" using s1(2) by (simp_all add: linked_def)
  then have e1: "s1\<lparr>se_outbox := []\<rparr> = s1" by simp
  obtain l1 where l1: "listener_receive peer (client_ack 0) now l = Some ([], l1)" "holds peer s1 [] l1"
    using listener_hears_holding[OF assms(1) s1(1) o1(1)] assms(3) s1(3) unfolding e1 o1(2) by auto
  obtain s2 where s2: "session_receive (numbered_datagram 1 (encode_new_incoming_connection server system_address_count a b)) now s1
      = Some (Inr [], s2)" "linked 2 1 s2" "se_state s2 = Connected"
    using hears_incoming[OF s1(2), of system_address_count server a b now] by (auto simp: system_address_count_def numeral_2_eq_2)
  have o2: "\<not> is_closed s2" "se_outbox s2 = []" using s2(2) by (simp_all add: linked_def)
  then have e2: "s2\<lparr>se_outbox := []\<rparr> = s2" by simp
  obtain l2 where l2: "listener_receive peer (numbered_datagram 1 (encode_new_incoming_connection server system_address_count a b)) now l1
      = Some ([EvConnected peer], l2)" "holds peer s2 [] l2"
    using listener_hears_holding[OF l1(2) s2(1) o2(1)] assms(3) s1(3) s2(3) unfolding e2 o2(2) by auto
  obtain s3 where s3: "session_receive (numbered_datagram 2 (encode_connected_ping clock)) now s2 = Some (Inr [], s3)"
    "se_outbox s3 = [numbered_datagram 1 (pong_packet clock (now_millis s2 now))]" "linked 3 2 (s3\<lparr>se_outbox := []\<rparr>)"
    "se_state s3 = se_state s2"
    using hears_ping[OF s2(2), of clock now] by (auto simp: numeral_2_eq_2 numeral_3_eq_3)
  have "\<not> is_closed s3" using s3(3) by (simp add: linked_def is_closed_def)
  then obtain l3 where "listener_receive peer (numbered_datagram 2 (encode_connected_ping clock)) now l2 = Some ([], l3)"
    "holds peer (s3\<lparr>se_outbox := []\<rparr>) [numbered_datagram 1 (pong_packet clock (now_millis s2 now))] l3"
    using listener_hears_holding[OF l2(2) s3(1)] s3(2,4) s2(3) by auto
  then show ?thesis
    using l1(1) l2(1) s3 s2(3) by (intro exI[of _ l3] exI[of _ "s3\<lparr>se_outbox := []\<rparr>"] exI[of _ "now_millis s2 now"]) simp
qed

text \<open>The farewell.\<close>

lemma farewell_round:
  assumes "holds peer s [] l" "linked 3 2 s" "se_state s = Connected"
  shows "\<exists>l1. listener_hears_all peer now [client_ack 1, numbered_datagram 3 encode_disconnect] l
      = Some ([EvDisconnected peer ByPeer], l1) \<and> hm_get (li_sessions l1) peer = None \<and> li_outbox l1 = []"
proof -
  obtain s1 where s1: "session_receive (client_ack 1) now s = Some (Inr [], s1)" "linked 3 2 s1" "se_state s1 = se_state s"
    using hear_acknowledgement[OF assms(2), of 1 now] by auto
  have o1: "\<not> is_closed s1" "se_outbox s1 = []" using s1(2) by (simp_all add: linked_def)
  then have e1: "s1\<lparr>se_outbox := []\<rparr> = s1" by simp
  obtain l1 where l1: "listener_receive peer (client_ack 1) now l = Some ([], l1)" "holds peer s1 [] l1"
    using listener_hears_holding[OF assms(1) s1(1) o1(1)] assms(3) s1(3) unfolding e1 o1(2) by auto
  obtain s2 where s2: "session_receive (numbered_datagram 3 encode_disconnect) now s1 = Some (Inr [], s2)"
    "se_state s2 = Closed ByPeer" "se_outbox s2 = []"
    using hears_disconnect[OF s1(2)] by auto
  let ?l = "l1\<lparr>li_outbox := li_outbox l1, li_sessions := hm_insert peer (s2\<lparr>se_outbox := []\<rparr>) (li_sessions l1)\<rparr>"
  have "listener_receive peer (numbered_datagram 3 encode_disconnect) now l1
      = Some ([EvDisconnected peer ByPeer], ?l\<lparr>li_sessions := hm_remove peer (li_sessions ?l)\<rparr>)"
    using l1(2) s2 by (simp add: listener_receive_def drain_outbox_all closed_because_def holds_def)
  then show ?thesis
    using l1 by (auto simp: holds_def hm.get_del hm.invar_ins)
qed

section \<open>The whole conversation\<close>

text \<open>What waits to be sent to the peer, and how polling empties the outbox.\<close>

definition answers :: "socket_addr \<Rightarrow> listener \<Rightarrow> bytes list" where
  "answers peer l = map snd (filter (\<lambda>(to, _). to = peer) (li_outbox l))"

lemma polled_dry: "((\<lambda>l. snd (listener_poll_transmit l)) ^^ length (li_outbox l)) l = l\<lparr>li_outbox := []\<rparr>"
proof (induction "li_outbox l" arbitrary: l)
  case (Cons d ds)
  let ?l = "l\<lparr>li_outbox := ds\<rparr>"
  have "snd (listener_poll_transmit l) = ?l" using Cons.hyps(2)[symmetric] by (simp add: listener_poll_transmit_def)
  then show ?case using Cons.hyps(1)[of ?l] Cons.hyps(2)[symmetric] by (simp add: funpow_swap1 del: funpow.simps add: funpow_Suc_right)
qed simp

text \<open>Rounds of a conversation: datagrams of the peer arrive, the listener handles them, and its outbox is sent.\<close>

fun exchange :: "socket_addr \<Rightarrow> (instant \<times> bytes list) list \<Rightarrow> listener
    \<Rightarrow> ((event list \<times> bytes list) list \<times> listener) option" where
  "exchange peer [] l = Some ([], l)"
| "exchange peer ((now, bs) # rounds) l =
     (case listener_hears_all peer now bs l of
        None \<Rightarrow> None
      | Some (es, l) \<Rightarrow>
          map_option (\<lambda>(rest, l'). ((es, answers peer l) # rest, l')) (exchange peer rounds (l\<lparr>li_outbox := []\<rparr>)))"

lemma hears_all_keeps_others:
  assumes "listener_hears_all peer now bs l = Some (es, l')" "listener_inv l"
  shows "listener_inv l' \<and> (\<forall>p. p \<noteq> peer \<longrightarrow> hm_get (li_sessions l') p = hm_get (li_sessions l) p)"
  using assms(1,2)
proof (induction bs arbitrary: l es)
  case (Cons b bs)
  obtain es1 l1 es2 where step: "listener_receive peer b now l = Some (es1, l1)"
    "listener_hears_all peer now bs l1 = Some (es2, l')"
    using Cons.prems(1) by (auto split: option.splits)
  have "hm_ok (li_sessions l)" using Cons.prems(2) by (simp add: listener_inv_def)
  then show ?case
    using Cons.IH[OF step(2)] listener_inv_receive[OF Cons.prems(2) step(1)] receive_concerns_one_peer[OF _ step(1)] by simp
qed simp

text \<open>A fresh session is where the conversation starts.\<close>

lemma new_session_linked:
  assumes "roomy c"
  shows "linked 0 0 (new_session peer local c now)" "se_state (new_session peer local c now) = Connecting"
  using assms dedup_abs_new[of "dedup_window c"] retransmitter_inv_new[of "cf_retransmit c"]
  by (auto simp: linked_def new_session_def is_closed_def sender_ok_def new_ordering_def new_dedup_def new_retransmitter_def
      bt_new_def bt_get_def)

lemma holds_drained: "holds peer s ds l \<Longrightarrow> holds peer s [] (l\<lparr>li_outbox := []\<rparr>)" "holds peer s ds l \<Longrightarrow> answers peer l = ds"
  by (auto simp: holds_def answers_def filter_map comp_def)

lemma exchange_keeps_others:
  "exchange peer rounds l = Some (rs, l') \<Longrightarrow> listener_inv l
     \<Longrightarrow> listener_inv l' \<and> (\<forall>p. p \<noteq> peer \<longrightarrow> hm_get (li_sessions l') p = hm_get (li_sessions l) p)"
proof (induction peer rounds l arbitrary: rs rule: exchange.induct)
  case (2 peer now bs rounds l)
  obtain es l1 rest where step: "listener_hears_all peer now bs l = Some (es, l1)"
    "exchange peer rounds (l1\<lparr>li_outbox := []\<rparr>) = Some (rest, l')"
    using "2.prems"(1) by (auto split: option.splits)
  show ?case
    using "2.IH"[OF step(1) refl step(2)] hears_all_keeps_others[OF step(1) "2.prems"(2)] by simp
qed simp

lemma opening_rounds:
  assumes "hm_get (li_sessions l) peer = None" "listener_sessions l < max_sessions (li_config l)" "li_outbox l = []"
    "encode_request_1 n = Some b" "n \<le> max_mtu"
  shows "exchange peer ((t1, [b]) # (t2, [encode_request_2 server (probed_mtu n) guid None]) # rounds) l
    = map_option (\<lambda>(rest, l'). (([], [probe_reply n l]) # ([], [open_reply peer n l]) # rest, l'))
        (exchange peer rounds (l\<lparr>li_sessions := hm_insert peer (opened_session peer n t2 l) (li_sessions l)\<rparr>))"
proof -
  have l: "l\<lparr>li_outbox := []\<rparr> = l" using assms(3) by simp
  have drained: "(listener_reply peer d l)\<lparr>li_outbox := []\<rparr> = l" "answers peer (listener_reply peer d l) = [d]" for d
    using assms(3) l by (simp_all add: listener_reply_def answers_def)
  have after: "l\<lparr>li_sessions := x, li_outbox := []\<rparr> = l\<lparr>li_sessions := x\<rparr>" for x
    using assms(3) by (cases l) simp
  show ?thesis
    using assms(3) by (simp add: after probe_answered[OF assms(1,4,5)] open_answered[OF assms(1,2,5)] l drained listener_reply_def
        answers_def option.map_comp comp_def case_prod_unfold)
qed

lemma inner_rounds:
  assumes "holds peer s [] l" "linked 0 0 s" "se_state s = Connecting"
  shows "\<exists>l' pong. exchange peer
      [(t3, [numbered_datagram 0 (encode_connection_request guid time)]),
       (t4, [client_ack 0, numbered_datagram 1 (incoming_from server s t3 time), numbered_datagram 2 (encode_connected_ping clock)]),
       (t5, [client_ack 1, numbered_datagram 3 encode_disconnect])] l
    = Some ([([], [numbered_datagram 0 (encode_request_accepted time t3 s)]),
             ([EvConnected peer], [numbered_datagram 1 (pong_packet clock pong)]),
             ([EvDisconnected peer ByPeer], [])], l')
    \<and> hm_get (li_sessions l') peer = None"
proof -
  obtain l1 s1 where 1: "listener_hears_all peer t3 [numbered_datagram 0 (encode_connection_request guid time)] l = Some ([], l1)"
    "holds peer s1 [numbered_datagram 0 (encode_request_accepted time t3 s)] l1" "linked 1 1 s1" "se_state s1 = Connecting"
    using accepted_round[OF assms] by blast
  obtain l2 s2 pong where 2: "listener_hears_all peer t4 [client_ack 0, numbered_datagram 1 (incoming_from server s t3 time),
      numbered_datagram 2 (encode_connected_ping clock)] (l1\<lparr>li_outbox := []\<rparr>) = Some ([EvConnected peer], l2)"
    "holds peer s2 [numbered_datagram 1 (pong_packet clock pong)] l2" "linked 3 2 s2" "se_state s2 = Connected"
    using connected_round[OF holds_drained(1)[OF 1(2)] 1(3,4)] unfolding incoming_from_def by blast
  obtain l3 where 3: "listener_hears_all peer t5 [client_ack 1, numbered_datagram 3 encode_disconnect] (l2\<lparr>li_outbox := []\<rparr>)
      = Some ([EvDisconnected peer ByPeer], l3)" "hm_get (li_sessions l3) peer = None" "li_outbox l3 = []"
    using farewell_round[OF holds_drained(1)[OF 2(2)] 2(3,4)] by blast
  have "answers peer l3 = []" using 3(3) by (simp add: answers_def)
  then show ?thesis
    using 1(1) 2(1) 3(1,2) holds_drained(2)[OF 1(2)] holds_drained(2)[OF 2(2)]
    by (intro exI[of _ "l3\<lparr>li_outbox := []\<rparr>"] exI[of _ pong]) (simp del: listener_hears_all.simps)
qed

text \<open>What the client sends when it hears exactly that.\<close>

lemma client_talks:
  assumes "encode_request_1 n = Some b"
  shows "client_main server (n # ladder) (Some (probe_reply n l) # replies) (Some (open_reply peer n l)) time
      ((Some (numbered_datagram 0 (encode_request_accepted time now s)), clock)
         # (Some (numbered_datagram 1 (pong_packet clock pong)), clock') # arrivals)
    = ([b, encode_request_2 server (probed_mtu n) client_guid None,
        numbered_datagram 0 (encode_connection_request client_guid time), client_ack 0,
        numbered_datagram 1 (incoming_from server s now time), numbered_datagram 2 (encode_connected_ping clock),
        client_ack 1, numbered_datagram 3 encode_disconnect], Talked Finished)"
proof -
  have start: "new_client = client_at 0" by (simp add: new_client_def client_at_def)
  have first: "client_send payload (client_at 0) = (numbered_datagram 0 payload, client_at 1)" for payload
    by (simp add: client_sends)
  have "client_connected server time ((Some (numbered_datagram 0 (encode_request_accepted time now s)), clock)
         # (Some (numbered_datagram 1 (pong_packet clock pong)), clock') # arrivals) new_client
    = ([numbered_datagram 0 (encode_connection_request client_guid time), client_ack 0,
        numbered_datagram 1 (incoming_from server s now time), numbered_datagram 2 (encode_connected_ping clock),
        client_ack 1, numbered_datagram 3 encode_disconnect], client_at 4, Finished)"
    by (simp add: client_connected_def start first client_hears_acceptance client_hears_pong del: One_nat_def)
  moreover have "client_open (n # ladder) (Some (probe_reply n l) # replies) = ([b], Opened (probed_mtu n) None)"
    using assms open_replies_read(1)[of n l] by (simp add: reply_outcome_def probe_reply_def)
  moreover have "open_reply peer n l \<noteq> []" "hd (open_reply peer n l) = id_open_connection_reply_2"
    by (simp_all add: open_reply_def)
  ultimately show ?thesis by (simp add: client_main_def open_replies_read(2) Let_def)
qed

text \<open>C8: The two ends of the crate lead each other from the first packet to the last.  Whatever a listener
  has been through, as long as it has a free place and has answered what it had to, a client it does not know that
  is fed what the listener answers, round by round, runs through: it opens, is accepted, reports in, has its ping
  answered and hangs up, without failing; the listener, fed what that client sends, reports it connected and then
  disconnected by the peer, has no session of it left, and has kept every other session.\<close>

theorem the_two_ends_meet:
  assumes "new_listener local guid adv c = Some l\<^sub>0" "perform_all cs l\<^sub>0 = Some (evs, l)" "li_outbox l = []"
    "listener_sessions l < max_sessions c" "hm_get (li_sessions l) peer = None" "roomy (lc_session c)"
    "18 \<le> n" "n \<le> max_mtu"
  shows "\<exists>b1 b2 r3 r4 r5 d1 d2 d3 d4 l'.
    exchange peer [(t1, [b1]), (t2, [b2]), (t3, r3), (t4, r4), (t5, r5)] l
      = Some ([([], [d1]), ([], [d2]), ([], [d3]), ([EvConnected peer], [d4]), ([EvDisconnected peer ByPeer], [])], l')
    \<and> client_main server (n # ladder) (Some d1 # replies) (Some d2) time ((Some d3, c1) # (Some d4, c2) # arrivals)
        = ([b1, b2] @ r3 @ r4 @ r5, Talked Finished)
    \<and> hm_get (li_sessions l') peer = None \<and> (\<forall>p. p \<noteq> peer \<longrightarrow> hm_get (li_sessions l') p = hm_get (li_sessions l) p)"
proof -
  have inv: "listener_inv l" "li_config l = c"
    using listener_inv_new[OF assms(1)] perform_all_inv[OF _ assms(2)] by auto
  obtain b where b: "encode_request_1 n = Some b" using assms(7) by (simp add: encode_request_1_def)
  let ?s = "opened_session peer n t2 l"
  let ?l = "l\<lparr>li_sessions := hm_insert peer ?s (li_sessions l)\<rparr>"
  have "roomy ((lc_session c)\<lparr>payload_limit := max n 576\<rparr>)" using assms(6) by (simp add: roomy_def)
  then have s: "linked 0 0 ?s" "se_state ?s = Connecting"
    using new_session_linked inv(2) by (simp_all add: opened_session_def)
  have "holds peer ?s [] ?l" using inv(1) assms(3) by (simp add: holds_def listener_inv_def hm.get_ins hm.invar_ins)
  from inner_rounds[OF this s] obtain l' pong where inner: "exchange peer
      [(t3, [numbered_datagram 0 (encode_connection_request client_guid time)]),
       (t4, [client_ack 0, numbered_datagram 1 (incoming_from server ?s t3 time), numbered_datagram 2 (encode_connected_ping c1)]),
       (t5, [client_ack 1, numbered_datagram 3 encode_disconnect])] ?l
    = Some ([([], [numbered_datagram 0 (encode_request_accepted time t3 ?s)]),
             ([EvConnected peer], [numbered_datagram 1 (pong_packet c1 pong)]), ([EvDisconnected peer ByPeer], [])], l')"
    "hm_get (li_sessions l') peer = None" by blast
  have whole: "exchange peer [(t1, [b]), (t2, [encode_request_2 server (probed_mtu n) client_guid None]),
      (t3, [numbered_datagram 0 (encode_connection_request client_guid time)]),
      (t4, [client_ack 0, numbered_datagram 1 (incoming_from server ?s t3 time), numbered_datagram 2 (encode_connected_ping c1)]),
      (t5, [client_ack 1, numbered_datagram 3 encode_disconnect])] l
    = Some ([([], [probe_reply n l]), ([], [open_reply peer n l]), ([], [numbered_datagram 0 (encode_request_accepted time t3 ?s)]),
             ([EvConnected peer], [numbered_datagram 1 (pong_packet c1 pong)]), ([EvDisconnected peer ByPeer], [])], l')"
    unfolding opening_rounds[OF assms(5) assms(4)[folded inv(2)] assms(3) b assms(8)] inner(1) by simp
  show ?thesis
    by (intro exI conjI, rule whole)
      (simp_all add: client_talks[OF b] inner(2) exchange_keeps_others[OF whole inv(1)] del: One_nat_def)
qed

lemma the_two_ends_meet_witness:
  "\<exists>b1 b2 r3 r4 r5 d1 d2 d3 d4 l'.
    exchange (SockV4 1 2 3 4 5) [(0, [b1]), (1, [b2]), (2, r3), (3, r4), (4, r5)]
        (the (new_listener unassigned 7 [77] default_listener_config))
      = Some ([([], [d1]), ([], [d2]), ([], [d3]), ([EvConnected (SockV4 1 2 3 4 5)], [d4]),
               ([EvDisconnected (SockV4 1 2 3 4 5) ByPeer], [])], l')
    \<and> client_main (SockV4 9 8 7 6 5) mtu_ladder [Some d1] (Some d2) 0 [(Some d3, 2), (Some d4, 3)]
        = ([b1, b2] @ r3 @ r4 @ r5, Talked Finished)"
proof -
  let ?l = "the (new_listener unassigned 7 [77] default_listener_config)"
  have start: "new_listener unassigned 7 [77] default_listener_config = Some ?l" "perform_all [] ?l = Some ([], ?l)"
    "li_outbox ?l = []" "listener_sessions ?l < max_sessions default_listener_config"
    "hm_get (li_sessions ?l) (SockV4 1 2 3 4 5) = None" "roomy (lc_session default_listener_config)"
    "18 \<le> max_mtu" "max_mtu \<le> max_mtu"
    by (simp_all add: new_listener_def string_truncate_def default_listener_config_def hm_get_def hm_new_def hm_len_def
        listener_sessions_def roomy_def default_config_def default_retransmit_limits_def max_mtu_def)
  show ?thesis
    using the_two_ends_meet[OF start, of 0 1 2 3 4 "SockV4 9 8 7 6 5" "[1200, 576]" "[]" 0 2 3 "[]", folded mtu_ladder_def] by blast
qed

end
