(* ===== verification/Driving.thy ===== *)
theory Driving
  imports Cli Connecting
begin

text \<open>
  The two small programs beside the client: \<^verbatim>\<open>bedrock-raknet/examples/serve.rs\<close>, which runs a listener on a
  socket, and \<^verbatim>\<open>ping.rs\<close>, which asks a server for its advertisement.  What the socket yields, the clocks, the
  environment and the order a tick walks the table in are arguments; what is printed, written and sent is returned.
\<close>

section \<open>\<^verbatim>\<open>serve.rs\<close>\<close>

text \<open>The environment variables a run looks at, and its advertisement.\<close>

record serve_env =
  env_protocol :: "bytes option"
  env_version :: "bytes option"
  env_dump :: "bytes option"

definition serve_guid :: i64 where "serve_guid = 0x0bed0c0000000003"

definition serve_port :: "bytes option \<Rightarrow> u16 option" where
  "serve_port arg = (case arg of Some s \<Rightarrow> parse_u16 s | None \<Rightarrow> Some default_port_v4)"

definition or_else :: "'a option \<Rightarrow> 'a \<Rightarrow> 'a" where
  "or_else x d = (case x of Some v \<Rightarrow> v | None \<Rightarrow> d)"

definition serve_advertisement :: "serve_env \<Rightarrow> u16 \<Rightarrow> bytes" where
  "serve_advertisement env port =
     ascii ''MCPE;bedrock-runtime;'' @ or_else (env_protocol env) (ascii ''1001'') @ ascii '';''
     @ or_else (env_version env) (ascii ''1.26.30'') @ ascii '';0;10;'' @ decimal_int (sint serve_guid)
     @ ascii '';;Survival;1;'' @ decimal (unat port) @ ascii '';'' @ decimal (unat port) @ ascii '';''"

definition serve_boot :: "serve_env \<Rightarrow> u16 \<Rightarrow> socket_addr \<Rightarrow> listener option" where
  "serve_boot env port local = new_listener local serve_guid (serve_advertisement env port) default_listener_config"

definition hex :: "bytes \<Rightarrow> bytes" where
  "hex b = Cli.join_with (ascii '' '') (map hex_byte b)"

definition printable :: "bytes \<Rightarrow> bytes" where
  "printable b = map (\<lambda>c. if 0x21 \<le> c \<and> c \<le> 0x7E then c else 0x2E) b"

datatype serve_effect =
    ServeConnected socket_addr
  | ServeDisconnected socket_addr closed
  | ServePayload socket_addr nat bytes bytes
  | ServeWrites bytes bytes bytes
  | ServeTimedOut socket_addr

text \<open>The two loops over events; \<open>written\<close> counts payloads, also when nothing is written.\<close>

fun serve_events :: "bytes option \<Rightarrow> event list \<Rightarrow> nat \<Rightarrow> serve_effect list \<times> nat" where
  "serve_events dump [] written = ([], written)"
| "serve_events dump (EvConnected peer # es) written =
     (case serve_events dump es written of (out, written) \<Rightarrow> (ServeConnected peer # out, written))"
| "serve_events dump (EvDisconnected peer reason # es) written =
     (case serve_events dump es written of (out, written) \<Rightarrow> (ServeDisconnected peer reason # out, written))"
| "serve_events dump (EvPayload peer payload # es) written =
     (let name = ascii ''payload-'' @ decimal_4 written @ ascii ''.bin'';
          files = (case dump of None \<Rightarrow> [] | Some dir \<Rightarrow> [ServeWrites dir name payload])
      in case serve_events dump es (written + 1) of
           (out, written) \<Rightarrow> (ServePayload peer (length payload) (hex payload) (printable payload) # files @ out, written))"

fun serve_ticked :: "event list \<Rightarrow> serve_effect list" where
  "serve_ticked [] = []"
| "serve_ticked (EvDisconnected peer reason # es) = ServeTimedOut peer # serve_ticked es"
| "serve_ticked (e # es) = serve_ticked es"

function poll_all :: "listener \<Rightarrow> (socket_addr \<times> bytes) list \<times> listener" where
  "poll_all l =
     (case listener_poll_transmit l of
        (None, l) \<Rightarrow> ([], l)
      | (Some d, l) \<Rightarrow> (case poll_all l of (ds, l) \<Rightarrow> (d # ds, l)))"
  by pat_completeness auto
termination poll_all
  by (relation "measure (\<lambda>l. length (li_outbox l))") (auto simp: listener_poll_transmit_def split: list.splits)

declare poll_all.simps [simp del]

record serve_input =
  si_now :: instant
  si_datagram :: "(socket_addr \<times> bytes) option"
  si_order :: "socket_addr list"

text \<open>One turn of the loop: read, feed, tick, drain.\<close>

definition serve_pass :: "serve_env \<Rightarrow> serve_input \<Rightarrow> listener \<times> nat
    \<Rightarrow> (serve_effect list \<times> (socket_addr \<times> bytes) list \<times> listener \<times> nat) option" where
  "serve_pass env i = (\<lambda>(l, written).
     case (case si_datagram i of
             None \<Rightarrow> Some ([], l)
           | Some (from, b) \<Rightarrow> listener_receive from (take receive_buffer b) (si_now i) l) of
       None \<Rightarrow> None
     | Some (es, l) \<Rightarrow>
         (case serve_events (env_dump env) es written of
            (out, written) \<Rightarrow>
              (case listener_tick (si_order i) (si_now i) l of
                 None \<Rightarrow> None
               | Some (es', l) \<Rightarrow>
                   (case poll_all l of (ds, l) \<Rightarrow> Some (out @ serve_ticked es', ds, l, written)))))"

fun serve_passes :: "serve_env \<Rightarrow> serve_input list \<Rightarrow> listener \<times> nat
    \<Rightarrow> ((serve_effect list \<times> (socket_addr \<times> bytes) list) list \<times> listener \<times> nat) option" where
  "serve_passes env [] r = Some ([], r)"
| "serve_passes env (i # inputs) r =
     (case serve_pass env i r of
        None \<Rightarrow> None
      | Some (out, ds, r) \<Rightarrow> map_option (\<lambda>(rest, r). ((out, ds) # rest, r)) (serve_passes env inputs r))"

section \<open>A run of \<^verbatim>\<open>serve.rs\<close> is a sequence of calls\<close>

lemma poll_all_is: "poll_all l = (li_outbox l, l\<lparr>li_outbox := []\<rparr>)"
proof (induction "li_outbox l" arbitrary: l)
  case Nil
  then show ?case by (simp add: poll_all.simps[of l] listener_poll_transmit_def)
next
  case (Cons d ds)
  have "listener_poll_transmit l = (Some d, l\<lparr>li_outbox := ds\<rparr>)"
    using Cons.hyps(2)[symmetric] by (simp add: listener_poll_transmit_def)
  then show ?case using Cons.hyps(1)[of "l\<lparr>li_outbox := ds\<rparr>"] Cons.hyps(2)[symmetric] by (simp add: poll_all.simps[of l])
qed

lemma perform_all_append:
  "perform_all (cs @ ds) l = (case perform_all cs l of
     None \<Rightarrow> None | Some (es, l) \<Rightarrow> map_option (\<lambda>(es', l). (es @ es', l)) (perform_all ds l))"
  by (induction cs arbitrary: l) (auto split: option.splits simp: option.map_comp comp_def case_prod_unfold option.map_ident)

lemma perform_polls: "perform_all (replicate n CallPoll) l = Some ([], ((\<lambda>l. snd (listener_poll_transmit l)) ^^ n) l)"
  by (induction n arbitrary: l) (simp_all add: funpow_Suc_right del: funpow.simps(2))

definition pass_calls :: "serve_input \<Rightarrow> listener_call list" where
  "pass_calls i = (case si_datagram i of None \<Rightarrow> [] | Some (from, b) \<Rightarrow> [CallReceive from (take receive_buffer b) (si_now i)])
     @ [CallTick (si_order i) (si_now i)]"

lemma serve_pass_performs:
  assumes "serve_pass env i (l, written) = Some (out, ds, l', written')"
  shows "\<exists>cs es. perform_all cs l = Some (es, l') \<and> li_outbox l' = []"
proof -
  obtain es l1 where calls: "perform_all (pass_calls i) l = Some (es, l1)" "l' = l1\<lparr>li_outbox := []\<rparr>"
    using assms by (auto simp: serve_pass_def pass_calls_def poll_all_is split: option.splits prod.splits)
  have "perform_all (pass_calls i @ replicate (length (li_outbox l1)) CallPoll) l = Some (es, l')"
    by (simp add: perform_all_append calls perform_polls polled_dry)
  then show ?thesis using calls(2) by auto
qed

text \<open>So after any turns the listener is in a state that calls can bring about, with nothing left to send, which is
  where the conversation with a client of \<open>Connecting\<close> can start.\<close>

lemma serve_passes_perform:
  "serve_passes env inputs (l, written) = Some (outs, l', written') \<Longrightarrow> li_outbox l = []
     \<Longrightarrow> \<exists>cs es. perform_all cs l = Some (es, l') \<and> li_outbox l' = []"
proof (induction inputs arbitrary: l written outs)
  case (Cons i inputs)
  obtain out ds l1 seen1 rest where step: "serve_pass env i (l, written) = Some (out, ds, l1, seen1)"
    "serve_passes env inputs (l1, seen1) = Some (rest, l', written')"
    using Cons.prems(1) by (auto split: option.splits)
  obtain cs es where 1: "perform_all cs l = Some (es, l1)" "li_outbox l1 = []" using serve_pass_performs[OF step(1)] by blast
  obtain cs' es' where "perform_all cs' l1 = Some (es', l')" "li_outbox l' = []" using Cons.IH[OF step(2) 1(2)] by blast
  then show ?case using 1(1) by (intro exI[of _ "cs @ cs'"] exI[of _ "es @ es'"]) (simp add: perform_all_append)
qed (auto intro: exI[of _ "[]"])

section \<open>\<^verbatim>\<open>ping.rs\<close>\<close>

definition ping_guid :: i64 where "ping_guid = 0x0bed0c0000000001"

definition ping_request :: "i64 \<Rightarrow> bytes" where
  "ping_request now = encode_unconnected_ping now ping_guid"

text \<open>What is printed of a pong: its fields, and the two notes.\<close>

record ping_report =
  pr_pong :: unconnected_pong
  pr_fields :: "bytes list"
  pr_time_differs :: bool
  pr_magic_missing :: bool

definition windows_of :: "nat \<Rightarrow> bytes \<Rightarrow> bytes list" where
  "windows_of n b = map (\<lambda>i. take n (drop i b)) [0..<Suc (length b) - n]"

definition ping_result :: "i64 \<Rightarrow> bytes \<Rightarrow> offline_error + ping_report" where
  "ping_result now raw =
     (case decode_unconnected_pong raw of
        Inl e \<Rightarrow> Inl e
      | Inr pong \<Rightarrow> Inr \<lparr>pr_pong = pong, pr_fields = split_on semicolon (up_advertisement pong),
          pr_time_differs = (up_time pong \<noteq> now), pr_magic_missing = (magic \<notin> set (windows_of (length magic) raw))\<rparr>)"

lemma magic_is_seen:
  "length b = 16 \<Longrightarrow> magic \<in> set (windows_of (length magic) (a # b @ magic @ c))"
  by (auto simp: windows_of_def intro!: image_eqI[of _ _ 17])

text \<open>Against a listener that has not heard of it the probe reports the fields of the advertisement, and neither note.\<close>

lemma ping_reports_the_advertisement:
  assumes "hm_get (li_sessions l) from = None" "hm_get (li_last_ping l) (addr_ip from) = None" "hm_ok (li_last_ping l)"
    "utf8_valid (li_advertisement l)" "length (li_advertisement l) < 2 ^ 16"
  shows "\<exists>l' d. listener_receive from (ping_request time) now l = Some ([], l') \<and> li_outbox l' = li_outbox l @ [(from, d)]
    \<and> ping_result time d = Inr \<lparr>pr_pong = \<lparr>up_time = time, up_server_guid = li_guid l, up_advertisement = li_advertisement l\<rparr>,
        pr_fields = split_on semicolon (li_advertisement l), pr_time_differs = False, pr_magic_missing = False\<rparr>"
proof -
  have "magic \<in> set (windows_of (length magic) (pong_bytes time l))"
    using magic_is_seen[of "be_bytes 8 time @ be_bytes 8 (li_guid l)"] by (simp add: pong_bytes_def)
  moreover obtain l' where "listener_receive from (ping_request time) now l = Some ([], l')"
    "li_outbox l' = li_outbox l @ [(from, pong_bytes time l)]"
    using ping_answered[OF assms(1-3), of time ping_guid now] by (auto simp: ping_request_def)
  ultimately show ?thesis
    using pong_bytes_read[OF assms(4,5)] by (intro exI[of _ l'] exI[of _ "pong_bytes time l"]) (simp add: ping_result_def)
qed

end
