(* ===== verification/Spec2Isabelle.thy ===== *)
theory Spec2Isabelle
  imports Driving
begin

text \<open>
  A verification development for \<^verbatim>\<open>bedrock-runtime\<close>, a server for the Bedrock edition of Minecraft
  written in Rust.  Paths are below \<^verbatim>\<open>src/crates/\<close>.

  \<^bold>\<open>The program.\<close>  It is a stack of crates without I/O of their own: datagrams and the time go in,
  datagrams and events come out.
  \<^item> \<^verbatim>\<open>bedrock-raknet\<close> is the transport: offline packets that open a connection, one session per peer
    with acknowledgement, retransmission, splitting, ordering and duplicate filtering, and the listener
    that owns the sessions.
  \<^item> \<^verbatim>\<open>bedrock-protocol\<close> is the game protocol: byte codecs, batches of packets, and the packets.
  \<^item> \<^verbatim>\<open>bedrock-crypto\<close> agrees a key, encrypts the stream and verifies identity tokens.
  \<^item> \<^verbatim>\<open>bedrock-blocks\<close> and \<^verbatim>\<open>bedrock-world\<close> hold blocks in sections, columns and a world that is
    generated when it is looked at.
  \<^item> \<^verbatim>\<open>bedrock-server\<close> composes them: it feeds the listener, reads batches, logs players in and streams
    the world around them.
  \<^item> \<^verbatim>\<open>bedrock-cli\<close> is the binary: arguments, and the loop that feeds the server.

  \<^bold>\<open>Conventions.\<close>  A struct is a record, an enum a datatype, a \<^verbatim>\<open>w\<close>-bit integer a word of that width;
  lengths, durations and instants (in nanoseconds) are natural numbers, and \<^verbatim>\<open>i32\<close> coordinates
  integers whose range is a theorem.  A method takes \<^verbatim>\<open>self\<close> last and returns it updated.  A
  \<^verbatim>\<open>Result\<close> is a sum with the error on the left.  A panic is \<^const>\<open>None\<close>, where the code has one that can
  be reached.  A loop is a recursive function over what it iterates on, or has a measure; all functions
  are total.  The one with fuel, \<open>decode_turns\<close>, bounds the turns of the loop that reads a batch: half
  the bytes, and one, are enough on every input.  A \<^verbatim>\<open>BTreeMap\<close> is a sorted list of entries and a \<^verbatim>\<open>HashMap\<close> a list of
  entries whose order only an argument may reveal.

  \<^bold>\<open>The theories.\<close>
  \<^item> \<open>Prelude\<close>: names of the types, the collections of lemmas, words, lists, options, saturating and
    checked arithmetic.
  \<^item> \<open>Wire\<close> (\<^verbatim>\<open>wire.rs\<close>): reader and writer; the locale \<open>wire_codec\<close>, a writer that appends and a
    reader that consumes exactly that, interpreted for every primitive; \<open>reads\<close>, \<open>safe\<close> and \<open>eats\<close>, the
    three judgements of a decoder.  \<open>Address\<close>, \<open>Frame\<close>, \<open>Datagram\<close>, \<open>Online\<close>, \<open>Offline\<close> are the files of
    the same name (\<open>Offline\<close> also \<^verbatim>\<open>connect.rs\<close> and the constants of \<^verbatim>\<open>lib.rs\<close>).
  \<^item> \<open>Ordmap\<close>: the models of the two maps; the locales \<open>finite_map\<close> and \<open>ord_map\<close>, which the counting
    bounds rest on, interpreted on both.
  \<^item> \<open>Split\<close>, \<open>Order\<close>, \<open>Retransmit\<close>: the files of the same name, each with its invariant, its bound on
    what a peer can make it hold, and its functional behaviour.
  \<^item> \<open>Session\<close> (\<^verbatim>\<open>session.rs\<close>), with its properties in \<open>Sending\<close> (what a send queues), \<open>Receiving\<close>
    (invariant, bounds, panics, closing, acknowledgements) and \<open>Delivery\<close> (two sessions end to end).
  \<^item> \<open>Listener\<close> (\<^verbatim>\<open>listener.rs\<close>), with its properties in \<open>Serving\<close>.  \<open>Advertisement\<close>
    (\<^verbatim>\<open>advertisement.rs\<close>) stands alone.
  \<^item> \<open>Client\<close> (\<^verbatim>\<open>examples/connect.rs\<close>): the client of the crate.  \<open>Connecting\<close> lets it talk to the listener, in
    rounds (\<open>exchange\<close>): the sessions in between are described by \<open>linked k j\<close>, after \<open>k\<close> messages heard and \<open>j\<close>
    sent.
  \<^item> \<open>GameBytes\<close> (\<^verbatim>\<open>bytes.rs\<close>), \<open>Batch\<close> (\<^verbatim>\<open>batch.rs\<close>), \<open>GamePackets\<close> (the small packet files),
    \<open>StartGame\<close> (\<^verbatim>\<open>start_game.rs\<close>), \<open>LevelChunk\<close> (\<^verbatim>\<open>level_chunk.rs\<close>): the game protocol, over the same
    judgements.  \<open>Float32\<close> is the arithmetic of \<^verbatim>\<open>f32\<close> on bit patterns, exact and then rounded once.
  \<^item> \<open>Blocks\<close> (\<^verbatim>\<open>bedrock-blocks\<close> and \<^verbatim>\<open>palette.rs\<close>), with the locale \<open>block_store\<close>: what holds blocks
    at positions, keeps an invariant and changes one position at a time.  \<open>Section\<close> (\<^verbatim>\<open>section.rs\<close>) and
    \<open>World\<close> (\<^verbatim>\<open>chunk.rs\<close>, \<^verbatim>\<open>generator.rs\<close>, \<^verbatim>\<open>world.rs\<close>) interpret it three times.
  \<^item> \<open>Columns\<close> (\<^verbatim>\<open>columns.rs\<close>): a column as a packet, read back by a client.
  \<^item> \<open>Crypto\<close> (\<^verbatim>\<open>agreement.rs\<close>, \<^verbatim>\<open>cipher.rs\<close>, \<^verbatim>\<open>handshake.rs\<close>, \<^verbatim>\<open>jwt.rs\<close>).
  \<^item> \<open>Server\<close> (\<^verbatim>\<open>server.rs\<close>), with its properties in \<open>Play\<close> (the contract \<open>handled\<close> of every handler, the
    reachable states), \<open>Walking\<close> (streaming, end to end with the client), \<open>Entering\<close> (the four datagrams
    that take an unknown peer into the world, and who gets in at all) and \<open>Announcing\<close> (the advertised
    string).
  \<^item> \<open>Cli\<close> (\<^verbatim>\<open>bedrock-cli/src/main.rs\<close>): arguments, boot, one pass of the loop, and what the reports keep.
  \<^item> \<open>Driving\<close> (\<^verbatim>\<open>examples/serve.rs\<close>, \<^verbatim>\<open>examples/ping.rs\<close>): the loop that runs a listener alone, which never
    leaves the states that \<open>Connecting\<close> starts from, and the probe for an advertisement.

  \<^bold>\<open>Parameters.\<close>  The primitives of other packages (SHA-256, AES in counter mode, P-384, RSA, base64,
  JSON, randomness) are the record \<open>primitives\<close>.  Two facts about them are assumed, by name:
  \<open>digest_ok\<close>, a digest has 32 bytes, and \<open>agreement_ok\<close>, a public point is an uncompressed one and
  Diffie-Hellman commutes; \<open>toy_primitives\<close> satisfies both.  A game client is not in the repository: its
  reader of columns (\<open>client_level_chunk\<close>), of the publisher update (\<open>client_publisher\<close>) and of payloads
  (\<open>client_reads\<close>) state the format, and \<open>shows_column\<close> where in a column it looks for a block, written out.

  \<^bold>\<open>What is shown.\<close>  Codecs round trip, and a decoder never panics or returns more than its input
  accounts for.  The transport delivers a payload exactly once and unchanged in any order of arrival,
  leads the client of the crate through a whole connection, keeps what is not acknowledged, gives up a silent peer, and stays within its configured bounds
  whatever a peer sends; where it panics, the theorem says exactly when.  The world is one map from
  positions to blocks, and a change to it succeeds exactly within its height and where the palette of the
  section, which never shrinks, has the block or room for it.  The encrypted stream delivers in order and accepts nothing else; a token is
  accepted only when signed.  The server lets in whoever is vouched for and nobody else, keeps players apart, streams to a
  walking player exactly the columns that are new, and the client reads them with every block in place.

  \<^bold>\<open>Not modelled.\<close>  \<^verbatim>\<open>Display\<close>, \<^verbatim>\<open>Debug\<close> and \<^verbatim>\<open>From\<close> implementations; the text of a refused login (the error
  is kept instead); the end of an AES key stream after 64 GiB; \<^verbatim>\<open>Duration\<close> overflow, except where the code
  saturates; the sockets, files and HTTP around
  the binary, whose results are inputs of a pass, and the words it prints; the tests;
  \<^verbatim>\<open>bedrock-nbt\<close>, which has no code yet.
\<close>

end
